(* ===== verification/Prelude.thy ===== *)
theory Prelude
  imports Complex_Main "HOL-Library.AList" "HOL-Library.Monad_Syntax" "HOL-Library.Word"
begin

text \<open>
  Shared vocabulary of the development.

  A C function that can run into undefined behaviour (a NULL string handed to \<open>strcmp\<close>,
  a json-c accessor called on a value of the wrong type, a write outside of a buffer) is
  modelled as a function into \<open>option\<close>: \<open>None\<close> stands for the undefined execution, and
  \<open>Some\<close> for a defined one.  \<open>ok m P\<close> says that \<open>m\<close> is defined and its result satisfies
  \<open>P\<close> (total correctness); \<open>whenever m P\<close> says that \<open>P\<close> holds if \<open>m\<close> is defined.
  \<open>foldM\<close> is a C loop over a list with such a body.  The rules below are the calculus the
  component theories use, and the \<open>AList\<close> section holds the facts about ordered
  dictionaries they share.
\<close>

named_theorems ok_intro \<open>rules that decompose a total-correctness goal\<close>
named_theorems whenever_intro \<open>rules that decompose a partial-correctness goal\<close>

section \<open>Defined executions\<close>

definition ok :: "'a option \<Rightarrow> ('a \<Rightarrow> bool) \<Rightarrow> bool" where
  "ok m P \<longleftrightarrow> (\<exists>x. m = Some x \<and> P x)"

definition whenever :: "'a option \<Rightarrow> ('a \<Rightarrow> bool) \<Rightarrow> bool" where
  "whenever m P \<longleftrightarrow> (\<forall>x. m = Some x \<longrightarrow> P x)"

lemma ok_Some [simp]: "ok (Some x) P = P x"
  by (simp add: ok_def)

lemma ok_None [simp]: "ok None P = False"
  by (simp add: ok_def)

lemma whenever_Some [simp]: "whenever (Some x) P = P x"
  by (simp add: whenever_def)

lemma whenever_None [simp]: "whenever None P"
  by (simp add: whenever_def)

lemma okI: "m = Some x \<Longrightarrow> P x \<Longrightarrow> ok m P"
  by simp

lemma okE:
  assumes "ok m P"
  obtains x where "m = Some x" "P x"
  using assms by (auto simp: ok_def)

lemma ok_bind [ok_intro]:
  "ok m Q \<Longrightarrow> (\<And>x. Q x \<Longrightarrow> ok (f x) P) \<Longrightarrow> ok (m \<bind> f) P"
  by (auto simp: ok_def)

lemma whenever_bind [whenever_intro]:
  "whenever m Q \<Longrightarrow> (\<And>x. Q x \<Longrightarrow> whenever (f x) P) \<Longrightarrow> whenever (m \<bind> f) P"
  by (cases m) auto

lemma ok_mono: "ok m P \<Longrightarrow> (\<And>x. P x \<Longrightarrow> Q x) \<Longrightarrow> ok m Q"
  by (auto simp: ok_def)

lemma whenever_mono: "whenever m P \<Longrightarrow> (\<And>x. P x \<Longrightarrow> Q x) \<Longrightarrow> whenever m Q"
  by (auto simp: whenever_def)

lemma ok_whenever: "ok m P \<Longrightarrow> whenever m P"
  by (auto simp: ok_def whenever_def)

lemma ok_conj: "ok m P \<Longrightarrow> whenever m Q \<Longrightarrow> ok m (\<lambda>x. P x \<and> Q x)"
  by (auto simp: ok_def whenever_def)

lemma ok_if [ok_intro]: "(b \<Longrightarrow> ok m P) \<Longrightarrow> (\<not> b \<Longrightarrow> ok n P) \<Longrightarrow> ok (if b then m else n) P"
  by simp

lemma whenever_if [whenever_intro]:
  "(b \<Longrightarrow> whenever m P) \<Longrightarrow> (\<not> b \<Longrightarrow> whenever n P) \<Longrightarrow> whenever (if b then m else n) P"
  by simp

lemma ok_case_option [ok_intro]:
  "(v = None \<Longrightarrow> ok m P) \<Longrightarrow> (\<And>x. v = Some x \<Longrightarrow> ok (f x) P) \<Longrightarrow>
    ok (case v of None \<Rightarrow> m | Some x \<Rightarrow> f x) P"
  by (cases v) auto

lemma whenever_case_option [whenever_intro]:
  "(v = None \<Longrightarrow> whenever m P) \<Longrightarrow> (\<And>x. v = Some x \<Longrightarrow> whenever (f x) P) \<Longrightarrow>
    whenever (case v of None \<Rightarrow> m | Some x \<Rightarrow> f x) P"
  by (cases v) auto

section \<open>Loops\<close>

text \<open>The body sees the element and the state, as the body of a C \<open>for\<close> or of
  \<open>json_object_object_foreach\<close> does; an undefined body ends the loop as undefined.\<close>

fun foldM :: "('a \<Rightarrow> 's \<Rightarrow> 's option) \<Rightarrow> 'a list \<Rightarrow> 's \<Rightarrow> 's option" where
  "foldM f [] s = Some s"
| "foldM f (x # xs) s = (case f x s of None \<Rightarrow> None | Some t \<Rightarrow> foldM f xs t)"

lemma foldM_append:
  "foldM f (xs @ ys) s = (case foldM f xs s of None \<Rightarrow> None | Some t \<Rightarrow> foldM f ys t)"
  by (induction xs arbitrary: s) (auto split: option.splits)

lemma foldM_cong [fundef_cong]:
  "xs = ys \<Longrightarrow> s = t \<Longrightarrow> (\<And>x u. x \<in> set ys \<Longrightarrow> f x u = g x u) \<Longrightarrow> foldM f xs s = foldM g ys t"
  by (induction ys arbitrary: xs s t) (auto split: option.splits)

text \<open>The loop rule: the invariant is indexed by the elements already visited.\<close>

lemma ok_foldM:
  assumes "I [] s"
    and "\<And>ys x zs t. xs = ys @ x # zs \<Longrightarrow> I ys t \<Longrightarrow> ok (f x t) (I (ys @ [x]))"
  shows "ok (foldM f xs s) (I xs)"
  using assms
proof (induction xs arbitrary: s I)
  case Nil
  then show ?case by simp
next
  case (Cons x xs)
  from Cons.prems(2)[of "[]" x xs s] Cons.prems(1) obtain t where t: "f x s = Some t" "I [x] t"
    by (auto elim: okE)
  have "ok (foldM f xs t) (\<lambda>u. I (x # xs) u)"
  proof (rule Cons.IH[where I = "\<lambda>ys. I (x # ys)"])
    show "I [x] t" by (rule t(2))
  next
    fix ys y zs u assume "xs = ys @ y # zs" "I (x # ys) u"
    then show "ok (f y u) (I (x # ys @ [y]))" using Cons.prems(2)[of "x # ys" y zs u] by simp
  qed
  with t show ?case by simp
qed

lemma whenever_foldM:
  assumes "I [] s"
    and "\<And>ys x zs t. xs = ys @ x # zs \<Longrightarrow> I ys t \<Longrightarrow> whenever (f x t) (I (ys @ [x]))"
  shows "whenever (foldM f xs s) (I xs)"
  using assms
proof (induction xs arbitrary: s I)
  case Nil
  then show ?case by simp
next
  case (Cons x xs)
  show ?case
  proof (cases "f x s")
    case None
    then show ?thesis by simp
  next
    case (Some t)
    with Cons.prems(2)[of "[]" x xs s] Cons.prems(1) have "I [x] t" by simp
    then have "whenever (foldM f xs t) (\<lambda>u. I (x # xs) u)"
    proof (rule Cons.IH[where I = "\<lambda>ys. I (x # ys)"])
      fix ys y zs u assume "xs = ys @ y # zs" "I (x # ys) u"
      then show "whenever (f y u) (I (x # ys @ [y]))" using Cons.prems(2)[of "x # ys" y zs u] by simp
    qed
    with Some show ?thesis by simp
  qed
qed

text \<open>Invariants that do not mention the visited elements.\<close>

lemma ok_foldM_inv:
  assumes "I s" and "\<And>x t. x \<in> set xs \<Longrightarrow> I t \<Longrightarrow> ok (f x t) I"
  shows "ok (foldM f xs s) I"
  using ok_foldM[where I = "\<lambda>_. I", OF assms(1), of xs f] assms(2) by auto

lemma whenever_foldM_inv:
  assumes "I s" and "\<And>x t. x \<in> set xs \<Longrightarrow> I t \<Longrightarrow> whenever (f x t) I"
  shows "whenever (foldM f xs s) I"
  using whenever_foldM[where I = "\<lambda>_. I", OF assms(1), of xs f] assms(2) by auto

section \<open>Event loops\<close>

text \<open>The contract between a program and its event loop: every callback keeps the invariant for the events the
  environment may deliver; and, in the stronger form, it also returns.\<close>

locale event_loop =
  fixes step :: "'ev \<Rightarrow> 's \<Rightarrow> 's option" and inv :: "'s \<Rightarrow> bool" and delivered :: "'ev \<Rightarrow> bool"
  assumes step_keeps: "inv s \<Longrightarrow> delivered ev \<Longrightarrow> whenever (step ev s) inv"
begin

lemma run_keeps: "inv s \<Longrightarrow> \<forall>ev \<in> set evs. delivered ev \<Longrightarrow> foldM step evs s = Some t \<Longrightarrow> inv t"
  using whenever_foldM_inv[of inv s evs step] step_keeps by (auto simp: whenever_def)

end

locale surviving_loop =
  fixes step :: "'ev \<Rightarrow> 's \<Rightarrow> 's option" and inv :: "'s \<Rightarrow> bool" and delivered :: "'ev \<Rightarrow> bool"
  assumes step_survives: "inv s \<Longrightarrow> delivered ev \<Longrightarrow> ok (step ev s) inv"
begin

lemma run_survives: "inv s \<Longrightarrow> \<forall>ev \<in> set evs. delivered ev \<Longrightarrow> ok (foldM step evs s) inv"
  by (rule ok_foldM_inv) (auto intro: step_survives)

end

sublocale surviving_loop \<subseteq> event_loop
  by unfold_locales (rule ok_whenever, rule step_survives)

text \<open>A loop whose body is a total function on the states it meets is a \<open>fold\<close>.\<close>

lemma foldM_fold: "foldM (\<lambda>x s. Some (f x s)) xs s = Some (fold f xs s)"
  by (induction xs arbitrary: s) auto

section \<open>Ordered dictionaries\<close>

text \<open>A json-c object is an insertion-ordered dictionary: \<open>AList.update\<close> replaces the value
  of a present key in its place and appends a new key at the end.\<close>

abbreviation keys :: "('k \<times> 'v) list \<Rightarrow> 'k list" where
  "keys kvs \<equiv> map fst kvs"

lemma map_of_update [simp]: "map_of (AList.update k v al) = (map_of al)(k \<mapsto> v)"
  by (rule update_conv')

lemma keys_update:
  "keys (AList.update k v al) = (if k \<in> set (keys al) then keys al else keys al @ [k])"
  by (induction al) auto

lemma distinct_keys_update [simp]:
  "distinct (keys al) \<Longrightarrow> distinct (keys (AList.update k v al))"
  by (auto simp: keys_update)

lemma update_fresh [simp]: "k \<notin> set (keys al) \<Longrightarrow> AList.update k v al = al @ [(k, v)]"
  by (induction al) auto

lemma update_present:
  "k \<in> set (keys al) \<Longrightarrow> distinct (keys al) \<Longrightarrow>
    AList.update k v al = map (\<lambda>(j, w). (j, if j = k then v else w)) al"
proof (induction al)
  case Nil
  then show ?case by simp
next
  case (Cons p al)
  obtain j w where p: "p = (j, w)" by (cases p)
  show ?case
  proof (cases "j = k")
    case True
    with Cons.prems p have "k \<notin> fst ` set al" by auto
    then have "map (\<lambda>(j, w). (j, if j = k then v else w)) al = al"
      by (intro map_idI) force
    with True p show ?thesis by simp
  next
    case False
    with Cons p show ?thesis by auto
  qed
qed

lemma update_same: "map_of al k = Some v \<Longrightarrow> AList.update k v al = al"
  by (induction al) (auto split: if_splits)

lemma update_update [simp]: "AList.update k v (AList.update k w al) = AList.update k v al"
  by (induction al) auto

lemma map_of_eq_None: "(map_of al k = None) = (k \<notin> set (keys al))"
  by (simp add: map_of_eq_None_iff)

lemma set_update_subset: "set (AList.update k v al) \<subseteq> insert (k, v) (set al)"
  by (induction al) auto

lemma map_of_in_set: "map_of al k = Some v \<Longrightarrow> (k, v) \<in> set al"
  by (rule map_of_SomeD)

end
