(* ===== verification/CLib.thy ===== *)
theory CLib
  imports Prelude
begin

text \<open>
  The part of the C language and its standard library that the components share.

  A C string is the list of its bytes before the terminating NUL.  \<open>snprintf\<close> into a buffer
  of \<open>n\<close> bytes keeps the first \<open>n - 1\<close> bytes of the formatted text.  The sources sometimes
  pass a computed string as the format itself; with no conversion (no percent sign) the
  result is that string, and what the call makes of the missing arguments otherwise is not
  determined by C, so it is the parameter \<open>fmt_junk\<close> of the environment.

  A \<open>double\<close> is the rational it denotes, and every arithmetic operation rounds its exact
  result with the function \<open>fl\<close> of the environment (the IEEE rounding of the platform);
  infinities and NaNs do not occur on the modelled paths.  \<open>int64\<close> is a 64-bit word read
  with \<open>sint\<close>.
\<close>

type_synonym int64 = "64 word"
type_synonym double = rat

section \<open>Strings\<close>

definition snprintf_s :: "nat \<Rightarrow> string \<Rightarrow> string" where
  "snprintf_s n s = take (n - 1) s"

fun strstr :: "string \<Rightarrow> string \<Rightarrow> bool" where
  "strstr [] pat = (pat = [])"
| "strstr (c # cs) pat = (take (length pat) (c # cs) = pat \<or> strstr cs pat)"

lemma snprintf_s_short [simp]: "length s < n \<Longrightarrow> snprintf_s n s = s"
  by (simp add: snprintf_s_def)

lemma length_snprintf_s: "0 < n \<Longrightarrow> length (snprintf_s n s) < n"
  by (auto simp: snprintf_s_def)

lemma strstr_iff: "strstr s pat \<longleftrightarrow> (\<exists>us vs. s = us @ pat @ vs)"
proof (induction s)
  case Nil
  then show ?case by auto
next
  case (Cons c cs)
  have "take (length pat) (c # cs) = pat \<longleftrightarrow> (\<exists>vs. c # cs = pat @ vs)"
    by (metis append_eq_conv_conj append_take_drop_id)
  moreover have "(\<exists>us vs. c # cs = us @ pat @ vs) \<longleftrightarrow>
      (\<exists>vs. c # cs = pat @ vs) \<or> (\<exists>us vs. cs = us @ pat @ vs)"
    by (metis append_Cons append_Nil list.exhaust list.inject)
  ultimately show ?case using Cons.IH by simp
qed

section \<open>Floating point\<close>

text \<open>What the component proofs use of the rounding function: zero is exact, rounding is
  monotone, and the integers up to \<open>2 ^ 53\<close> are exact.\<close>

definition rounding :: "(rat \<Rightarrow> rat) \<Rightarrow> bool" where
  "rounding fl \<longleftrightarrow> mono fl \<and> (\<forall>n. \<bar>n\<bar> \<le> 2 ^ 53 \<longrightarrow> fl (rat_of_int n) = rat_of_int n)"

lemma rounding_zero: "rounding fl \<Longrightarrow> fl 0 = 0"
proof -
  assume "rounding fl"
  then have "fl (rat_of_int 0) = rat_of_int 0" unfolding rounding_def by (metis abs_zero zero_le_numeral zero_le_power)
  then show ?thesis by simp
qed

lemma rounding_nonneg: "rounding fl \<Longrightarrow> 0 \<le> x \<Longrightarrow> 0 \<le> fl x"
  using rounding_zero[of fl] by (auto simp: rounding_def dest: monoD[of fl 0 x])

lemma rounding_exact: "rounding fl \<Longrightarrow> \<bar>n\<bar> \<le> 2 ^ 53 \<Longrightarrow> fl (rat_of_int n) = rat_of_int n"
  unfolding rounding_def by blast

lemma rounding_id: "rounding (\<lambda>x. x)"
  by (simp add: rounding_def mono_def)

end
