(* ===== verification/Json.thy ===== *)
theory Json
  imports CLib
begin

text \<open>
  The values the program exchanges with json-c.

  Scalars are immutable and are values; objects and arrays are shared and mutable, so they are
  nodes of a store, and a json value that holds one is a reference.  An object is an
  insertion-ordered dictionary.  json-c's calls are the operations below, each with its documented
  behaviour; a call outside of its contract (adding to something that is not an object, iterating
  over it, indexing something that is not an array) is undefined, hence \<open>None\<close>.  Reference counts
  only decide when storage is reclaimed and are not modelled: the store grows.

  The text form of a json value is json-c's own: the serialiser, the tokener and the conversions
  between text and numbers are parameters, fields of the environment \<open>env\<close>.
\<close>

type_synonym addr = nat

datatype jval = JNull | JBool bool | JInt int64 | JDouble double | JString string | JRef addr

datatype node = Obj "(string \<times> jval) list" | Arr "jval list"

type_synonym heap = "node list"

text \<open>Json documents as trees, which is what the tokener yields and the serialiser prints.\<close>

datatype json = TNull | TBool bool | TInt int64 | TDouble double | TString string
  | TArray "json list" | TObject "(string \<times> json) list"

record env =
  fl :: "rat \<Rightarrow> rat"                    \<comment> \<open>rounding of double arithmetic\<close>
  to_json :: "json \<Rightarrow> string"           \<comment> \<open>json_object_to_json_string\<close>
  of_json :: "string \<Rightarrow> json option"    \<comment> \<open>json_tokener_parse_verbose, None on an error\<close>
  str_double :: "string \<Rightarrow> double"      \<comment> \<open>json_object_get_double of a string\<close>
  str_int64 :: "string \<Rightarrow> int64"        \<comment> \<open>json_object_get_int64 of a string\<close>
  double_int64 :: "double \<Rightarrow> int64"     \<comment> \<open>json_object_get_int64 of a double\<close>
  fmt_junk :: "string \<Rightarrow> string"        \<comment> \<open>a conversion without its argument\<close>

section \<open>The store\<close>

definition node_of :: "heap \<Rightarrow> jval \<Rightarrow> node option" where
  "node_of h v = (case v of JRef a \<Rightarrow> if a < length h then Some (h ! a) else None | _ \<Rightarrow> None)"

definition store :: "jval \<Rightarrow> node \<Rightarrow> heap \<Rightarrow> heap" where
  "store v n h = (case v of JRef a \<Rightarrow> h[a := n] | _ \<Rightarrow> h)"

definition push :: "node \<Rightarrow> heap \<Rightarrow> heap" where
  "push n h = h @ [n]"

definition new_node :: "node \<Rightarrow> heap \<Rightarrow> jval \<times> heap" where
  "new_node n h = (JRef (length h), push n h)"

definition obj_of :: "heap \<Rightarrow> jval \<Rightarrow> (string \<times> jval) list option" where
  "obj_of h v = (case node_of h v of Some (Obj kvs) \<Rightarrow> Some kvs | _ \<Rightarrow> None)"

definition arr_of :: "heap \<Rightarrow> jval \<Rightarrow> jval list option" where
  "arr_of h v = (case node_of h v of Some (Arr vs) \<Rightarrow> Some vs | _ \<Rightarrow> None)"

lemma node_of_store [simp]:
  "node_of (store v n h) w = (if w = v \<and> node_of h v \<noteq> None then Some n else node_of h w)"
  by (auto simp: node_of_def store_def split: jval.splits)

lemma node_of_push [simp]:
  "node_of (push n h) w = (if w = JRef (length h) then Some n else node_of h w)"
  by (auto simp: node_of_def push_def nth_append split: jval.splits)

lemma length_push [simp]: "length (push n h) = Suc (length h)"
  by (simp add: push_def)

lemma node_of_fresh [simp]: "node_of h (JRef (length h)) = None"
  by (simp add: node_of_def)

lemma length_store [simp]: "length (store v n h) = length h"
  by (simp add: store_def split: jval.splits)

lemma node_of_scalar [simp]:
  "node_of h JNull = None" "node_of h (JBool b) = None" "node_of h (JInt i) = None"
  "node_of h (JDouble d) = None" "node_of h (JString s) = None"
  by (simp_all add: node_of_def)

lemma obj_of_iff [simp]: "obj_of h v = Some kvs \<longleftrightarrow> node_of h v = Some (Obj kvs)"
  by (auto simp: obj_of_def split: option.splits node.splits)

lemma arr_of_iff [simp]: "arr_of h v = Some vs \<longleftrightarrow> node_of h v = Some (Arr vs)"
  by (auto simp: arr_of_def split: option.splits node.splits)

lemma obj_of_obj [simp]:
  "node_of h v = Some (Obj kvs) \<Longrightarrow> obj_of h v = Some kvs"
  "node_of h v = Some (Arr vs) \<Longrightarrow> obj_of h v = None"
  "node_of h v = None \<Longrightarrow> obj_of h v = None"
  by (simp_all add: obj_of_def)

lemma arr_of_arr [simp]:
  "node_of h v = Some (Arr vs) \<Longrightarrow> arr_of h v = Some vs"
  "node_of h v = Some (Obj kvs) \<Longrightarrow> arr_of h v = None"
  "node_of h v = None \<Longrightarrow> arr_of h v = None"
  by (simp_all add: arr_of_def)

lemma node_of_neq_fresh [simp]: "node_of h v = Some n \<Longrightarrow> v \<noteq> JRef (length h)"
  by auto

lemma node_of_ref: "node_of h v = Some n \<Longrightarrow> \<exists>a. v = JRef a \<and> a < length h \<and> h ! a = n"
  by (auto simp: node_of_def split: jval.splits if_splits)

section \<open>json-c objects and arrays\<close>

definition new_object :: "heap \<Rightarrow> jval \<times> heap" where
  "new_object h = new_node (Obj []) h"

definition new_array :: "heap \<Rightarrow> jval \<times> heap" where
  "new_array h = new_node (Arr []) h"

definition object_get_ex :: "heap \<Rightarrow> jval \<Rightarrow> string \<Rightarrow> jval option" where
  "object_get_ex h v k = (case obj_of h v of None \<Rightarrow> None | Some kvs \<Rightarrow> map_of kvs k)"

definition object_add :: "jval \<Rightarrow> string \<Rightarrow> jval \<Rightarrow> heap \<Rightarrow> heap option" where
  "object_add v k x h =
    (case obj_of h v of None \<Rightarrow> None | Some kvs \<Rightarrow> Some (store v (Obj (AList.update k x kvs)) h))"

definition object_foreach :: "heap \<Rightarrow> jval \<Rightarrow> (string \<times> jval) list option" where
  "object_foreach h v = obj_of h v"

definition array_length :: "heap \<Rightarrow> jval \<Rightarrow> nat option" where
  "array_length h v = map_option length (arr_of h v)"

definition array_get_idx :: "heap \<Rightarrow> jval \<Rightarrow> nat \<Rightarrow> jval option" where
  "array_get_idx h v i =
    (case arr_of h v of None \<Rightarrow> None | Some vs \<Rightarrow> Some (if i < length vs then vs ! i else JNull))"

definition array_add :: "jval \<Rightarrow> jval \<Rightarrow> heap \<Rightarrow> heap option" where
  "array_add v x h = (case arr_of h v of None \<Rightarrow> None | Some vs \<Rightarrow> Some (store v (Arr (vs @ [x])) h))"

text \<open>The recurring \<open>if (get_ex(src, k, &tag)) add(dst, k', get(tag))\<close> of the sources.\<close>

definition copy_tag :: "jval \<Rightarrow> string \<Rightarrow> jval \<Rightarrow> string \<Rightarrow> heap \<Rightarrow> heap option" where
  "copy_tag src k dst k' h =
    (case object_get_ex h src k of None \<Rightarrow> Some h | Some tag \<Rightarrow> object_add dst k' tag h)"

text \<open>A run of such statements from one source object to one target object.\<close>

definition copy_tags :: "jval \<Rightarrow> (string \<times> string) list \<Rightarrow> jval \<Rightarrow> heap \<Rightarrow> heap option" where
  "copy_tags src ps dst = foldM (\<lambda>(k, k'). copy_tag src k dst k') ps"

text \<open>What the run makes of the target's entries.\<close>

definition copied ::
    "(string \<Rightarrow> jval option) \<Rightarrow> (string \<times> string) list \<Rightarrow> (string \<times> jval) list \<Rightarrow> (string \<times> jval) list" where
  "copied get ps kvs =
    fold (\<lambda>(k, k') kvs. case get k of None \<Rightarrow> kvs | Some x \<Rightarrow> AList.update k' x kvs) ps kvs"

lemma object_get_ex_obj [simp]:
  "node_of h v = Some (Obj kvs) \<Longrightarrow> object_get_ex h v k = map_of kvs k"
  by (simp add: object_get_ex_def obj_of_def)

lemma object_get_ex_none [simp]:
  "node_of h v = None \<Longrightarrow> object_get_ex h v k = None"
  by (simp add: object_get_ex_def obj_of_def)

lemma object_add_obj [simp]:
  "node_of h v = Some (Obj kvs) \<Longrightarrow>
    object_add v k x h = Some (store v (Obj (AList.update k x kvs)) h)"
  by (simp add: object_add_def obj_of_def)

lemma object_foreach_obj [simp]:
  "node_of h v = Some (Obj kvs) \<Longrightarrow> object_foreach h v = Some kvs"
  by (simp add: object_foreach_def)

lemma array_length_arr [simp]:
  "node_of h v = Some (Arr vs) \<Longrightarrow> array_length h v = Some (length vs)"
  by (simp add: array_length_def arr_of_def)

lemma array_get_idx_arr [simp]:
  "node_of h v = Some (Arr vs) \<Longrightarrow> i < length vs \<Longrightarrow> array_get_idx h v i = Some (vs ! i)"
  by (simp add: array_get_idx_def arr_of_def)

lemma array_add_arr [simp]:
  "node_of h v = Some (Arr vs) \<Longrightarrow> array_add v x h = Some (store v (Arr (vs @ [x])) h)"
  by (simp add: array_add_def arr_of_def)

lemma object_add_SomeE:
  assumes "object_add v k x h = Some h'"
  obtains kvs where "node_of h v = Some (Obj kvs)" "h' = store v (Obj (AList.update k x kvs)) h"
  using assms by (auto simp: object_add_def split: option.splits)

lemma object_get_ex_SomeD:
  "object_get_ex h v k = Some x \<Longrightarrow> \<exists>kvs. node_of h v = Some (Obj kvs) \<and> map_of kvs k = Some x"
  by (auto simp: object_get_ex_def split: option.splits)

lemma copied_Nil [simp]: "copied get [] kvs = kvs"
  by (simp add: copied_def)

lemma copied_Cons [simp]:
  "copied get ((k, k') # ps) kvs =
    copied get ps (case get k of None \<Rightarrow> kvs | Some x \<Rightarrow> AList.update k' x kvs)"
  by (simp add: copied_def)

lemma distinct_copied [simp]: "distinct (keys kvs) \<Longrightarrow> distinct (keys (copied get ps kvs))"
  by (induction ps arbitrary: kvs) (auto split: option.splits)

lemma map_of_copied_other:
  "j \<notin> snd ` set ps \<Longrightarrow> map_of (copied get ps kvs) j = map_of kvs j"
  by (induction ps arbitrary: kvs) (auto split: option.splits)

lemma map_of_copied:
  "(k, k') \<in> set ps \<Longrightarrow> distinct (map snd ps) \<Longrightarrow>
    map_of (copied get ps kvs) k' = (case get k of None \<Rightarrow> map_of kvs k' | Some x \<Rightarrow> Some x)"
proof (induction ps arbitrary: kvs)
  case Nil
  then show ?case by simp
next
  case (Cons p ps)
  obtain j j' where p: "p = (j, j')" by (cases p)
  show ?case
  proof (cases "p = (k, k')")
    case True
    with Cons.prems have "k' \<notin> snd ` set ps" by auto
    with True show ?thesis by (auto simp: map_of_copied_other split: option.splits)
  next
    case False
    with Cons.prems p have "(k, k') \<in> set ps" "j' \<noteq> k'" by force+
    with Cons p show ?thesis by (auto split: option.splits)
  qed
qed

lemma store_store [simp]: "store v n (store v m h) = store v n h"
  by (simp add: store_def split: jval.splits)

lemma store_same: "node_of h v = Some n \<Longrightarrow> store v n h = h"
  by (auto simp: store_def node_of_def split: jval.splits if_splits)

lemma object_get_ex_store_other [simp]:
  "v \<noteq> w \<Longrightarrow> object_get_ex (store v n h) w = object_get_ex h w"
  by (auto simp: object_get_ex_def obj_of_def fun_eq_iff)

lemma copy_tags_obj:
  "node_of h dst = Some (Obj kvs) \<Longrightarrow> src \<noteq> dst \<Longrightarrow>
    copy_tags src ps dst h = Some (store dst (Obj (copied (object_get_ex h src) ps kvs)) h)"
proof (induction ps arbitrary: h kvs)
  case Nil
  then show ?case by (simp add: copy_tags_def store_same)
next
  case (Cons p ps)
  obtain k k' where p: "p = (k, k')" by (cases p)
  show ?case
  proof (cases "object_get_ex h src k")
    case None
    with Cons p show ?thesis by (simp add: copy_tags_def copy_tag_def)
  next
    case (Some x)
    let ?h = "store dst (Obj (AList.update k' x kvs)) h"
    have "copy_tags src ps dst ?h =
        Some (store dst (Obj (copied (object_get_ex ?h src) ps (AList.update k' x kvs))) ?h)"
      by (rule Cons.IH) (use Cons.prems in auto)
    with Some Cons.prems p show ?thesis
      by (simp add: copy_tags_def copy_tag_def)
  qed
qed

text \<open>Operations on the newest node, and the view of older ones past it.\<close>

lemma store_newest [simp]: "store (JRef (length h)) n (push m h) = push n h"
  by (simp add: store_def push_def)

lemma object_get_ex_push [simp]:
  "v \<noteq> JRef (length h) \<Longrightarrow> object_get_ex (push n h) v = object_get_ex h v"
  by (auto simp: object_get_ex_def obj_of_def fun_eq_iff)

lemma copied_Cons_other:
  "j \<notin> snd ` set ps \<Longrightarrow> copied get ps ((j, x) # kvs) = (j, x) # copied get ps kvs"
  by (induction ps arbitrary: kvs) (auto split: option.splits)

lemma copy_tags_newest:
  "src \<noteq> JRef (length h) \<Longrightarrow>
    copy_tags src ps (JRef (length h)) (push (Obj kvs) h) =
      Some (push (Obj (copied (object_get_ex h src) ps kvs)) h)"
  using copy_tags_obj[of "push (Obj kvs) h" "JRef (length h)" kvs src ps] by simp

section \<open>Frames\<close>

text \<open>\<open>keeps S h h'\<close>: going from \<open>h\<close> to \<open>h'\<close> every node outside of \<open>S\<close> is untouched (new nodes
  may appear), and no node of \<open>h\<close> disappears or changes between object and array.\<close>

definition keeps :: "jval set \<Rightarrow> heap \<Rightarrow> heap \<Rightarrow> bool" where
  "keeps S h h' \<longleftrightarrow> length h \<le> length h' \<and>
    (\<forall>v n. node_of h v = Some n \<longrightarrow> v \<notin> S \<longrightarrow> node_of h' v = Some n) \<and>
    (\<forall>v kvs. node_of h v = Some (Obj kvs) \<longrightarrow> (\<exists>kvs'. node_of h' v = Some (Obj kvs'))) \<and>
    (\<forall>v vs. node_of h v = Some (Arr vs) \<longrightarrow> (\<exists>vs'. node_of h' v = Some (Arr vs')))"

lemma keeps_refl [simp]: "keeps S h h"
  by (auto simp: keeps_def)

lemma keeps_trans: "keeps S h h' \<Longrightarrow> keeps S h' h'' \<Longrightarrow> keeps S h h''"
  unfolding keeps_def by (meson le_trans)

lemma keeps_mono: "keeps S h h' \<Longrightarrow> S \<subseteq> T \<Longrightarrow> keeps T h h'"
  by (auto simp: keeps_def)

lemma keeps_node: "keeps S h h' \<Longrightarrow> node_of h v = Some n \<Longrightarrow> v \<notin> S \<Longrightarrow> node_of h' v = Some n"
  by (simp add: keeps_def)

lemma keeps_obj: "keeps S h h' \<Longrightarrow> node_of h v = Some (Obj kvs) \<Longrightarrow> \<exists>kvs'. node_of h' v = Some (Obj kvs')"
  by (simp add: keeps_def)

lemma keeps_arr: "keeps S h h' \<Longrightarrow> node_of h v = Some (Arr vs) \<Longrightarrow> \<exists>vs'. node_of h' v = Some (Arr vs')"
  by (simp add: keeps_def)

lemma keeps_length: "keeps S h h' \<Longrightarrow> length h \<le> length h'"
  by (simp add: keeps_def)

lemma keeps_store_obj:
  "node_of h v = Some (Obj kvs) \<Longrightarrow> v \<in> S \<Longrightarrow> keeps S h (store v (Obj kvs') h)"
  by (auto simp: keeps_def)

lemma keeps_store_arr:
  "node_of h v = Some (Arr vs) \<Longrightarrow> v \<in> S \<Longrightarrow> keeps S h (store v (Arr vs') h)"
  by (auto simp: keeps_def)

lemma keeps_push [simp]: "keeps S h (push n h)"
  by (auto simp: keeps_def)

text \<open>Nodes allocated on the way do not belong to the frame of the caller.\<close>

lemma keeps_fresh:
  assumes "keeps S h h'" and "\<And>v. v \<in> S \<Longrightarrow> v \<notin> T \<Longrightarrow> node_of h v = None"
  shows "keeps T h h'"
  using assms unfolding keeps_def by (metis option.distinct(1))

lemma keeps_get_ex:
  "keeps S h h' \<Longrightarrow> node_of h v \<noteq> None \<Longrightarrow> v \<notin> S \<Longrightarrow> object_get_ex h' v k = object_get_ex h v k"
  by (auto simp: object_get_ex_def obj_of_def keeps_def)

lemma object_add_keeps [whenever_intro]:
  "v \<in> S \<Longrightarrow> whenever (object_add v k x h) (keeps S h)"
  by (auto simp: whenever_def elim!: object_add_SomeE intro: keeps_store_obj)

lemma copy_tag_keeps [whenever_intro]:
  "dst \<in> S \<Longrightarrow> whenever (copy_tag src k dst k' h) (keeps S h)"
  by (auto simp: copy_tag_def intro: object_add_keeps split: option.splits)

section \<open>Conversions\<close>

definition get_double :: "env \<Rightarrow> jval \<Rightarrow> double" where
  "get_double E v = (case v of JDouble d \<Rightarrow> d | JInt i \<Rightarrow> fl E (rat_of_int (sint i))
    | JBool b \<Rightarrow> (if b then 1 else 0) | JString s \<Rightarrow> str_double E s | _ \<Rightarrow> 0)"

definition get_int64 :: "env \<Rightarrow> jval \<Rightarrow> int64" where
  "get_int64 E v = (case v of JInt i \<Rightarrow> i | JDouble d \<Rightarrow> double_int64 E d
    | JBool b \<Rightarrow> (if b then 1 else 0) | JString s \<Rightarrow> str_int64 E s | _ \<Rightarrow> 0)"

text \<open>Reading a value back as a tree follows references to depth \<open>n\<close>; the number of nodes of the
  store bounds the depth of any value without a cycle.\<close>

fun tree_of :: "nat \<Rightarrow> heap \<Rightarrow> jval \<Rightarrow> json" where
  "tree_of n h JNull = TNull"
| "tree_of n h (JBool b) = TBool b"
| "tree_of n h (JInt i) = TInt i"
| "tree_of n h (JDouble d) = TDouble d"
| "tree_of n h (JString s) = TString s"
| "tree_of 0 h (JRef a) = TNull"
| "tree_of (Suc n) h (JRef a) =
    (case node_of h (JRef a) of
       None \<Rightarrow> TNull
     | Some (Obj kvs) \<Rightarrow> TObject (map (\<lambda>(k, v). (k, tree_of n h v)) kvs)
     | Some (Arr vs) \<Rightarrow> TArray (map (tree_of n h) vs))"

definition to_json_string :: "env \<Rightarrow> heap \<Rightarrow> jval \<Rightarrow> string" where
  "to_json_string E h v = to_json E (tree_of (length h) h v)"

text \<open>\<open>None\<close> is the NULL pointer, which \<open>json_object_get_string\<close> returns for a json null.\<close>

definition get_string :: "env \<Rightarrow> heap \<Rightarrow> jval \<Rightarrow> string option" where
  "get_string E h v =
    (case v of JNull \<Rightarrow> None | JString s \<Rightarrow> Some s | _ \<Rightarrow> Some (to_json_string E h v))"

definition snprintf_fmt :: "env \<Rightarrow> nat \<Rightarrow> string \<Rightarrow> string" where
  "snprintf_fmt E n s = take (n - 1) (if CHR ''%'' \<in> set s then fmt_junk E s else s)"

lemma snprintf_fmt_plain [simp]:
  "CHR ''%'' \<notin> set s \<Longrightarrow> length s < n \<Longrightarrow> snprintf_fmt E n s = s"
  by (simp add: snprintf_fmt_def)

text \<open>Building the store image of a parsed document: children first, later duplicates of a key
  replace earlier ones, as \<open>json_object_object_add\<close> in the tokener does.\<close>

fun build :: "json \<Rightarrow> heap \<Rightarrow> jval \<times> heap"
  and build_list :: "json list \<Rightarrow> heap \<Rightarrow> jval list \<times> heap"
  and build_fields :: "(string \<times> json) list \<Rightarrow> (string \<times> jval) list \<Rightarrow> heap \<Rightarrow> (string \<times> jval) list \<times> heap"
where
  "build TNull h = (JNull, h)"
| "build (TBool b) h = (JBool b, h)"
| "build (TInt i) h = (JInt i, h)"
| "build (TDouble d) h = (JDouble d, h)"
| "build (TString s) h = (JString s, h)"
| "build (TArray ts) h = (let (vs, h1) = build_list ts h in new_node (Arr vs) h1)"
| "build (TObject fs) h = (let (kvs, h1) = build_fields fs [] h in new_node (Obj kvs) h1)"
| "build_list [] h = ([], h)"
| "build_list (t # ts) h =
    (let (v, h1) = build t h; (vs, h2) = build_list ts h1 in (v # vs, h2))"
| "build_fields [] acc h = (acc, h)"
| "build_fields ((k, t) # fs) acc h =
    (let (v, h1) = build t h in build_fields fs (AList.update k v acc) h1)"

definition tokener_parse :: "env \<Rightarrow> string \<Rightarrow> heap \<Rightarrow> (jval \<times> heap) option" where
  "tokener_parse E s h = (case of_json E s of None \<Rightarrow> None | Some t \<Rightarrow> Some (build t h))"

text \<open>\<open>rep h v t\<close>: the value \<open>v\<close> of the store \<open>h\<close> is an image of the document \<open>t\<close>; \<open>canon\<close>: no
  object of the document has a key twice (the tokener never yields one that does).\<close>

fun rep :: "heap \<Rightarrow> jval \<Rightarrow> json \<Rightarrow> bool"
  and rep_list :: "heap \<Rightarrow> jval list \<Rightarrow> json list \<Rightarrow> bool"
  and rep_fields :: "heap \<Rightarrow> (string \<times> jval) list \<Rightarrow> (string \<times> json) list \<Rightarrow> bool"
where
  "rep h v TNull = (v = JNull)"
| "rep h v (TBool b) = (v = JBool b)"
| "rep h v (TInt i) = (v = JInt i)"
| "rep h v (TDouble d) = (v = JDouble d)"
| "rep h v (TString s) = (v = JString s)"
| "rep h v (TArray ts) = (case node_of h v of Some (Arr vs) \<Rightarrow> rep_list h vs ts | _ \<Rightarrow> False)"
| "rep h v (TObject fs) = (case node_of h v of Some (Obj kvs) \<Rightarrow> rep_fields h kvs fs | _ \<Rightarrow> False)"
| "rep_list h vs [] = (vs = [])"
| "rep_list h vs (t # ts) = (case vs of [] \<Rightarrow> False | v # vs' \<Rightarrow> rep h v t \<and> rep_list h vs' ts)"
| "rep_fields h kvs [] = (kvs = [])"
| "rep_fields h kvs ((k, t) # fs) =
    (case kvs of [] \<Rightarrow> False | (j, v) # kvs' \<Rightarrow> j = k \<and> rep h v t \<and> rep_fields h kvs' fs)"

fun canon :: "json \<Rightarrow> bool"
  and canon_list :: "json list \<Rightarrow> bool"
  and canon_fields :: "(string \<times> json) list \<Rightarrow> bool"
where
  "canon (TArray ts) = canon_list ts"
| "canon (TObject fs) = (distinct (keys fs) \<and> canon_fields fs)"
| "canon _ = True"
| "canon_list [] = True"
| "canon_list (t # ts) = (canon t \<and> canon_list ts)"
| "canon_fields [] = True"
| "canon_fields ((k, t) # fs) = (canon t \<and> canon_fields fs)"

lemma rep_keeps:
  shows "rep h v t \<Longrightarrow> keeps {} h h' \<Longrightarrow> rep h' v t"
    and "rep_list h vs ts \<Longrightarrow> keeps {} h h' \<Longrightarrow> rep_list h' vs ts"
    and "rep_fields h kvs fs \<Longrightarrow> keeps {} h h' \<Longrightarrow> rep_fields h' kvs fs"
  by (induction h v t and h vs ts and h kvs fs rule: rep_rep_list_rep_fields.induct)
    (auto split: option.splits node.splits list.splits dest: keeps_node)

definition newer :: "heap \<Rightarrow> heap \<Rightarrow> jval \<Rightarrow> bool" where
  "newer h h' v \<longleftrightarrow> (\<forall>a. v = JRef a \<longrightarrow> length h \<le> a \<and> a < length h')"

lemma newer_mono: "newer h1 h2 v \<Longrightarrow> length h \<le> length h1 \<Longrightarrow> length h2 \<le> length h' \<Longrightarrow> newer h h' v"
  by (auto simp: newer_def)

lemma build_frame:
  shows "build t h = (v, h') \<Longrightarrow> keeps {} h h' \<and> newer h h' v"
    and "build_list ts h = (vs, h') \<Longrightarrow> keeps {} h h' \<and> (\<forall>v \<in> set vs. newer h h' v)"
    and "build_fields fs acc h = (kvs, h') \<Longrightarrow>
      keeps {} h h' \<and> (\<forall>(k, v) \<in> set kvs. (k, v) \<in> set acc \<or> newer h h' v)"
proof (induction t h and ts h and fs acc h arbitrary: v h' and vs h' and kvs h'
    rule: build_build_list_build_fields.induct)
  case (6 ts h)
  then show ?case
    by (fastforce simp: new_node_def newer_def Let_def dest: keeps_length
        intro: keeps_trans[OF _ keeps_push] split: prod.splits)
next
  case (7 fs h)
  then show ?case
    by (fastforce simp: new_node_def newer_def Let_def dest: keeps_length
        intro: keeps_trans[OF _ keeps_push] split: prod.splits)
next
  case (9 t ts h)
  obtain v1 h1 where 1: "build t h = (v1, h1)" by fastforce
  obtain vs1 h2 where 2: "build_list ts h1 = (vs1, h2)" by fastforce
  have IH1: "keeps {} h h1" "newer h h1 v1" using 9(1)[OF 1] by auto
  have IH2: "keeps {} h1 h2" "\<forall>v \<in> set vs1. newer h1 h2 v"
    using 9(2)[OF 1[symmetric] refl 2] by auto
  have len: "length h \<le> length h1" "length h1 \<le> length h2"
    using IH1(1) IH2(1) by (auto dest: keeps_length)
  have "vs = v1 # vs1" "h' = h2" using 9(3) 1 2 by auto
  then show ?case using IH1 IH2 len by (auto intro: keeps_trans newer_mono)
next
  case (11 k t fs acc h)
  obtain v1 h1 where 1: "build t h = (v1, h1)" by fastforce
  have IH: "keeps {} h h1" "newer h h1 v1" using 11(1)[OF 1] by auto
  from 11(3) 1 have "build_fields fs (AList.update k v1 acc) h1 = (kvs, h')" by simp
  from 11(2)[OF 1[symmetric] _ this] 1 have 2: "keeps {} h1 h'"
    "\<forall>(j, v) \<in> set kvs. (j, v) \<in> set (AList.update k v1 acc) \<or> newer h1 h' v" by auto
  have "(j, v) \<in> set acc \<or> newer h h' v" if "(j, v) \<in> set kvs" for j v
    using 2 that IH set_update_subset[of k v1 acc] by (fastforce intro: newer_mono dest: keeps_length)
  with 2 IH show ?case by (auto intro: keeps_trans)
qed (auto simp: newer_def)

lemma rep_fields_append:
  "rep_fields h kvs fs \<Longrightarrow> rep h v t \<Longrightarrow> rep_fields h (kvs @ [(k, v)]) (fs @ [(k, t)])"
  by (induction fs arbitrary: kvs) (auto split: list.splits)

lemma rep_fields_keys: "rep_fields h kvs fs \<Longrightarrow> keys kvs = keys fs"
  by (induction fs arbitrary: kvs) (auto split: list.splits)

text \<open>A parsed document is represented by the value the tokener returns.\<close>

lemma build_rep:
  shows "build t h = (v, h') \<Longrightarrow> canon t \<Longrightarrow> rep h' v t"
    and "build_list ts h = (vs, h') \<Longrightarrow> canon_list ts \<Longrightarrow> rep_list h' vs ts"
    and "build_fields fs acc h = (kvs, h') \<Longrightarrow> canon_fields fs \<Longrightarrow> distinct (keys (fs0 @ fs)) \<Longrightarrow>
      rep_fields h acc fs0 \<Longrightarrow> rep_fields h' kvs (fs0 @ fs)"
proof (induction t h and ts h and fs acc h arbitrary: v h' and vs h' and kvs h' fs0
    rule: build_build_list_build_fields.induct)
  case (6 ts h)
  obtain vs1 h1 where 1: "build_list ts h = (vs1, h1)" by fastforce
  have "rep_list h1 vs1 ts" using 6 1 by simp
  then have "rep_list (push (Arr vs1) h1) vs1 ts" by (rule rep_keeps(2)) simp
  with 6(2) 1 show ?case by (auto simp: new_node_def)
next
  case (7 fs h)
  obtain kvs1 h1 where 1: "build_fields fs [] h = (kvs1, h1)" by fastforce
  have "rep_fields h1 kvs1 ([] @ fs)" by (rule 7(1)[OF 1]) (use 7 in auto)
  then have "rep_fields (push (Obj kvs1) h1) kvs1 fs" using rep_keeps(3) by fastforce
  with 7(2) 1 show ?case by (auto simp: new_node_def)
next
  case (9 t ts h)
  obtain v1 h1 where 1: "build t h = (v1, h1)" by fastforce
  obtain vs1 h2 where 2: "build_list ts h1 = (vs1, h2)" by fastforce
  have "rep h1 v1 t" using 9(1)[OF 1] 9(4) by simp
  moreover have "keeps {} h1 h2" using build_frame(2)[OF 2] by simp
  moreover have "rep_list h2 vs1 ts" using 9(2)[OF 1[symmetric] refl 2] 9(4) by simp
  ultimately show ?case using 9(3) 1 2 by (auto intro: rep_keeps)
next
  case (11 k t fs acc h)
  obtain v1 h1 where 1: "build t h = (v1, h1)" by fastforce
  have k1: "keeps {} h h1" using build_frame(1)[OF 1] by simp
  have r1: "rep h1 v1 t" using 11(1)[OF 1] 11(4) by simp
  have acc: "rep_fields h1 acc fs0" using 11(6) k1 by (rule rep_keeps)
  have fresh: "k \<notin> set (keys acc)" using 11(5) rep_fields_keys[OF acc] by auto
  have "rep_fields h1 (AList.update k v1 acc) (fs0 @ [(k, t)])"
    unfolding update_fresh[OF fresh] by (rule rep_fields_append[OF acc r1])
  moreover have "build_fields fs (AList.update k v1 acc) h1 = (kvs, h')" using 11(3) 1 by simp
  ultimately have "rep_fields h' kvs ((fs0 @ [(k, t)]) @ fs)"
    by (intro 11(2)[OF 1[symmetric] refl]) (use 11 in auto)
  then show ?case by simp
qed auto

lemma rep_fields_map_of:
  "rep_fields h kvs fs \<Longrightarrow> map_of fs k = Some t \<Longrightarrow> \<exists>v. map_of kvs k = Some v \<and> rep h v t"
  by (induction fs arbitrary: kvs) (auto split: list.splits if_splits)

lemma rep_fields_map_of':
  assumes "rep_fields h kvs fs" "map_of kvs k = Some v"
  shows "\<exists>t. map_of fs k = Some t \<and> rep h v t"
proof -
  have "k \<in> set (keys kvs)" using assms(2) by (force dest: map_of_SomeD)
  then have "k \<in> set (keys fs)" using rep_fields_keys[OF assms(1)] by simp
  then obtain t where "map_of fs k = Some t" by (metis map_of_eq_None option.exhaust)
  then show ?thesis using rep_fields_map_of[OF assms(1)] assms(2) by fastforce
qed

lemma rep_JNull [simp]: "rep h JNull t \<longleftrightarrow> t = TNull"
  by (cases t) auto

section \<open>Loops that rewrite one node per iteration\<close>

text \<open>\<open>rewrote A G h h'\<close>: the nodes of \<open>A\<close> now hold what \<open>G\<close> says, every other node is as before, and
  nothing is allocated.\<close>

definition rewrote :: "jval set \<Rightarrow> (jval \<Rightarrow> node) \<Rightarrow> heap \<Rightarrow> heap \<Rightarrow> bool" where
  "rewrote A G h h' \<longleftrightarrow> length h' = length h \<and>
    (\<forall>v. node_of h' v = (if v \<in> A then Some (G v) else node_of h v))"

lemma rewrote_refl [simp]: "rewrote {} G h h"
  by (simp add: rewrote_def)

lemma rewrote_trans:
  "rewrote A G h h' \<Longrightarrow> rewrote B G h' h'' \<Longrightarrow> rewrote (A \<union> B) G h h''"
  by (auto simp: rewrote_def)

lemma rewrote_cong:
  "rewrote A G h h' \<Longrightarrow> (\<And>v. v \<in> A \<Longrightarrow> G v = G' v) \<Longrightarrow> rewrote A G' h h'"
  by (auto simp: rewrote_def)

lemma rewrote_store: "node_of h v \<noteq> None \<Longrightarrow> rewrote {v} (\<lambda>_. n) h (store v n h)"
  by (auto simp: rewrote_def)

lemma rewrote_get_ex:
  "rewrote A G h h' \<Longrightarrow> v \<notin> A \<Longrightarrow> object_get_ex h' v = object_get_ex h v"
  by (simp add: rewrote_def object_get_ex_def obj_of_def fun_eq_iff)

lemma foldM_rewrote:
  assumes "distinct (map a xs)"
    and "\<And>x h'. x \<in> set xs \<Longrightarrow> (\<exists>ys. set ys \<subseteq> set xs \<and> x \<notin> set ys \<and> rewrote (a ` set ys) G h h') \<Longrightarrow>
      node_of h' (a x) = node_of h (a x) \<Longrightarrow> ok (f x h') (rewrote {a x} G h')"
  shows "ok (foldM f xs h) (rewrote (a ` set xs) G h)"
proof (rule ok_foldM)
  show "rewrote (a ` set []) G h h" by simp
next
  fix ys x zs h'
  assume xs: "xs = ys @ x # zs" and r: "rewrote (a ` set ys) G h h'"
  have nx: "a x \<notin> a ` set ys" using assms(1) xs by auto
  then have "node_of h' (a x) = node_of h (a x)" using r by (simp add: rewrote_def)
  moreover have "\<exists>ys. set ys \<subseteq> set xs \<and> x \<notin> set ys \<and> rewrote (a ` set ys) G h h'"
    using xs r nx by (intro exI[of _ ys]) auto
  ultimately have "ok (f x h') (rewrote {a x} G h')" using xs by (intro assms(2)) auto
  then show "ok (f x h') (rewrote (a ` set (ys @ [x])) G h)"
    by (rule ok_mono) (use rewrote_trans[OF r] in force)
qed

text \<open>A loop over the indices of an array that stays the same array is a loop over its elements.\<close>

lemma foldM_array:
  assumes "I h" and "\<And>h. I h \<Longrightarrow> node_of h a = Some (Arr vs)"
    and "\<And>x h h'. x \<in> set vs \<Longrightarrow> I h \<Longrightarrow> f x h = Some h' \<Longrightarrow> I h'"
  shows "foldM (\<lambda>i h. do { x \<leftarrow> array_get_idx h a i; f x h }) [0..<length vs] h = foldM f vs h"
proof -
  have "foldM (\<lambda>i h. do { x \<leftarrow> array_get_idx h a i; f x h }) [k..<length vs] g = foldM f (drop k vs) g"
    if "k \<le> length vs" "I g" for k g
    using that
  proof (induction "length vs - k" arbitrary: k g)
    case 0
    then show ?case by simp
  next
    case (Suc n)
    then have k: "k < length vs" by simp
    then have up: "[k..<length vs] = k # [Suc k..<length vs]" by (rule upt_conv_Cons)
    have dr: "drop k vs = vs ! k # drop (Suc k) vs" using k by (rule Cons_nth_drop_Suc[symmetric])
    have arr: "node_of g a = Some (Arr vs)" using Suc.prems by (intro assms(2))
    show ?case
    proof (cases "f (vs ! k) g")
      case None
      with k arr show ?thesis by (simp add: up dr)
    next
      case (Some g')
      then have "I g'" using assms(3)[of "vs ! k" g g'] k Suc.prems by simp
      then have "foldM (\<lambda>i h. do { x \<leftarrow> array_get_idx h a i; f x h }) [Suc k..<length vs] g' =
          foldM f (drop (Suc k) vs) g'" using Suc.hyps k by (intro Suc.hyps(1)) auto
      with k arr Some show ?thesis by (simp add: up dr)
    qed
  qed
  from this[of 0 h] assms(1) show ?thesis by simp
qed

text \<open>The rule for such a loop, with an invariant indexed by the elements already visited.\<close>

lemma ok_foldM_array:
  assumes "I [] h" and "\<And>ys g. I ys g \<Longrightarrow> node_of g a = Some (Arr vs)"
    and "\<And>ys x zs g. vs = ys @ x # zs \<Longrightarrow> I ys g \<Longrightarrow> ok (f x g) (I (ys @ [x]))"
  shows "ok (foldM (\<lambda>i h. do { x \<leftarrow> array_get_idx h a i; f x h }) [0..<length vs] h) (I vs)"
proof -
  have "ok (foldM (\<lambda>i h. do { x \<leftarrow> array_get_idx h a i; f x h }) [0..<length vs] h)
    (\<lambda>g. I (take (length [0..<length vs]) vs) g)"
  proof (rule ok_foldM)
    show "I (take (length []) vs) h" using assms(1) by simp
  next
    fix js i ks g
    assume u: "[0..<length vs] = js @ i # ks" and I: "I (take (length js) vs) g"
    have "length js < length [0..<length vs]" unfolding u by simp
    then have len: "length js < length vs" by simp
    have "([0..<length vs]) ! length js = i" unfolding u by simp
    then have i: "i = length js" using len by simp
    have vs: "vs = take i vs @ vs ! i # drop (Suc i) vs"
      using len i by (simp add: Cons_nth_drop_Suc)
    have "ok (f (vs ! i) g) (I (take i vs @ [vs ! i]))"
      by (rule assms(3)[OF vs]) (use I i in simp)
    then show "ok (do { x \<leftarrow> array_get_idx g a i; f x g }) (I (take (length (js @ [i])) vs))"
      using assms(2)[OF I] len i by (simp add: take_Suc_conv_app_nth)
  qed
  then show ?thesis by simp
qed

text \<open>An environment with exact arithmetic, whose text functions the witnesses of the development
  override as they need.\<close>

definition plain_env :: env where
  "plain_env = \<lparr>fl = (\<lambda>x. x), to_json = (\<lambda>_. ''''), of_json = (\<lambda>_. None), str_double = (\<lambda>_. 0),
    str_int64 = (\<lambda>_. 0), double_int64 = (\<lambda>_. 0), fmt_junk = (\<lambda>s. s)\<rparr>"

end
