(* ===== verification/HostMap.thy ===== *)
theory HostMap
  imports Json
begin

text \<open>
  The global state of \<open>server/stats.c\<close> (declared in \<open>server/stats.h\<close>) and the part of that file
  that maintains it from the RPCs of the monitored hosts: \<open>map_init\<close>, \<open>update_host_entry\<close> and
  \<open>update_host_map\<close>.

  \<open>host_map\<close> maps a host name to its entry, \<open>nid_map\<close> maps a Lustre network id to the
  \<^emph>\<open>same\<close> entry object: the two maps alias.  The invariant \<open>hosts_ok\<close> says that every nid
  refers to an entry of the host map and that distinct hosts have distinct entries; it is what makes
  a later job or user update of a host visible through all of its nids.
\<close>

record stats =
  hp :: heap
  host_map :: jval
  nid_map :: jval
  server_tag_rate_map :: jval
  group_tags :: jval
  screen_map :: jval

record filters =
  filter_user :: "string option"
  filter_server :: "string option"
  filter_client :: "string option"
  filter_job :: "string option"

section \<open>The code\<close>

definition map_init :: "heap \<Rightarrow> stats" where
  "map_init h0 =
    (let (hm, h1) = new_object h0;
         (nm, h2) = new_object h1;
         (rm, h3) = new_object h2;
         (gt, h4) = new_object h3;
         (sm, h5) = new_object h4
     in \<lparr>hp = h5, host_map = hm, nid_map = nm, server_tag_rate_map = rm,
         group_tags = gt, screen_map = sm\<rparr>)"

text \<open>The entry of a host seen for the first time.\<close>

definition init_host_entry :: "string \<Rightarrow> stats \<Rightarrow> stats option" where
  "init_host_entry hostname s =
    (let (entry_json, h1) = new_object (hp s) in do {
       h2 \<leftarrow> object_add entry_json ''jid'' (JString ''*'') h1;
       h3 \<leftarrow> object_add entry_json ''uid'' (JString ''*'') h2;
       h4 \<leftarrow> object_add (host_map s) hostname entry_json h3;
       Some (s\<lparr>hp := h4\<rparr>)
     })"

definition rpc_tags :: "(string \<times> string) list" where
  "rpc_tags = [(''time'', ''time''), (''hostname'', ''hid''), (''system'', ''system''),
    (''jid'', ''jid''), (''uid'', ''uid''), (''obdclass'', ''obdclass'')]"

text \<open>The update of the entry from the tags and the data of the RPC; an RPC without data that
  carries a nid registers the entry under it.\<close>

definition tag_host_entry :: "env \<Rightarrow> jval \<Rightarrow> jval \<Rightarrow> stats \<Rightarrow> stats option" where
  "tag_host_entry E rpc_json host_entry s = do {
     h \<leftarrow> copy_tags rpc_json rpc_tags host_entry (hp s);
     (case object_get_ex h rpc_json ''data'' of
        Some tag \<Rightarrow> do {
          h' \<leftarrow> object_add host_entry ''data'' tag h;
          Some (s\<lparr>hp := h'\<rparr>)
        }
      | None \<Rightarrow>
          (case object_get_ex h rpc_json ''nid'' of
             Some tag \<Rightarrow> do {
               nid \<leftarrow> get_string E h tag;
               h' \<leftarrow> object_add (nid_map s) nid host_entry h;
               Some (s\<lparr>hp := h'\<rparr>)
             }
           | None \<Rightarrow> Some (s\<lparr>hp := h\<rparr>)))
   }"

definition update_host_entry :: "env \<Rightarrow> jval \<Rightarrow> stats \<Rightarrow> (int \<times> stats) option" where
  "update_host_entry E rpc_json s =
    (case object_get_ex (hp s) rpc_json ''hostname'' of
       None \<Rightarrow> Some (-1, s)
     | Some hostname_tag \<Rightarrow> do {
         name \<leftarrow> get_string E (hp s) hostname_tag;
         let hostname = snprintf_s 64 name;
         s1 \<leftarrow> (case object_get_ex (hp s) (host_map s) hostname of
                 None \<Rightarrow> init_host_entry hostname s
               | Some hostname_entry \<Rightarrow> Some s);
         s2 \<leftarrow> (case object_get_ex (hp s1) (host_map s1) hostname of
                 None \<Rightarrow> Some s1
               | Some host_entry \<Rightarrow> tag_host_entry E rpc_json host_entry s1);
         Some (1, s2)
       })"

text \<open>The loop over an array of updates.\<close>

definition update_all :: "env \<Rightarrow> jval list \<Rightarrow> stats \<Rightarrow> stats option" where
  "update_all E vs = foldM (\<lambda>v t. map_option snd (update_host_entry E v t)) vs"

text \<open>One RPC: the text of one update, or of an array of updates.\<close>

definition update_host_map :: "env \<Rightarrow> string \<Rightarrow> stats \<Rightarrow> (int \<times> stats) option" where
  "update_host_map E rpc s =
    (case tokener_parse E rpc (hp s) of
       None \<Rightarrow> Some (-1, s)
     | Some (rpc_json, h) \<Rightarrow>
         (case arr_of h rpc_json of
            Some vs \<Rightarrow> do {
              s' \<leftarrow> update_all E vs (s\<lparr>hp := h\<rparr>);
              Some (1, s')
            }
          | None \<Rightarrow> do {
              (rc, s') \<leftarrow> update_host_entry E rpc_json (s\<lparr>hp := h\<rparr>);
              Some (1, s')
            }))"

section \<open>The invariant of the two maps\<close>

definition entry_of :: "stats \<Rightarrow> string \<Rightarrow> jval option" where
  "entry_of s host = object_get_ex (hp s) (host_map s) host"

definition nid_entry_of :: "stats \<Rightarrow> string \<Rightarrow> jval option" where
  "nid_entry_of s nid = object_get_ex (hp s) (nid_map s) nid"

definition is_obj :: "heap \<Rightarrow> jval \<Rightarrow> bool" where
  "is_obj h v \<longleftrightarrow> (\<exists>kvs. node_of h v = Some (Obj kvs))"

definition hosts_ok :: "stats \<Rightarrow> bool" where
  "hosts_ok s \<longleftrightarrow>
    is_obj (hp s) (host_map s) \<and> is_obj (hp s) (nid_map s) \<and> host_map s \<noteq> nid_map s \<and>
    (\<forall>kvs. node_of (hp s) (host_map s) = Some (Obj kvs) \<longrightarrow> distinct (keys kvs)) \<and>
    (\<forall>k v. entry_of s k = Some v \<longrightarrow>
       is_obj (hp s) v \<and> v \<noteq> host_map s \<and> v \<noteq> nid_map s) \<and>
    (\<forall>j k v. entry_of s j = Some v \<longrightarrow> entry_of s k = Some v \<longrightarrow> j = k) \<and>
    (\<forall>n v. nid_entry_of s n = Some v \<longrightarrow> (\<exists>k. entry_of s k = Some v))"

text \<open>A value outside of the maps: what a freshly parsed document is.\<close>

definition outside :: "stats \<Rightarrow> jval \<Rightarrow> bool" where
  "outside s v \<longleftrightarrow> v \<noteq> host_map s \<and> v \<noteq> nid_map s \<and> (\<forall>k. entry_of s k \<noteq> Some v)"

lemma is_objI [intro]: "node_of h v = Some (Obj kvs) \<Longrightarrow> is_obj h v"
  by (auto simp: is_obj_def)

lemma is_obj_store [simp]:
  "is_obj (store v (Obj kvs) h) w \<longleftrightarrow> (if w = v \<and> node_of h v \<noteq> None then True else is_obj h w)"
  by (auto simp: is_obj_def)

lemma map_init_ok: "hosts_ok (map_init h0)"
  by (auto simp: map_init_def new_object_def new_node_def hosts_ok_def entry_of_def nid_entry_of_def
      is_obj_def Let_def)

lemma hosts_okD:
  assumes "hosts_ok s"
  shows "\<exists>kvs. node_of (hp s) (host_map s) = Some (Obj kvs)"
    and "\<exists>kvs. node_of (hp s) (nid_map s) = Some (Obj kvs)"
    and "host_map s \<noteq> nid_map s"
    and "entry_of s k = Some v \<Longrightarrow> \<exists>kvs. node_of (hp s) v = Some (Obj kvs)"
    and "entry_of s k = Some v \<Longrightarrow> v \<noteq> host_map s \<and> v \<noteq> nid_map s"
    and "entry_of s j = Some v \<Longrightarrow> entry_of s k = Some v \<Longrightarrow> j = k"
    and "nid_entry_of s n = Some v \<Longrightarrow> \<exists>k. entry_of s k = Some v"
    and "node_of (hp s) (host_map s) = Some (Obj kvs) \<Longrightarrow> distinct (keys kvs)"
  using assms unfolding hosts_ok_def is_obj_def by blast+

text \<open>Writing to an entry leaves both maps, hence the invariant, alone.\<close>

lemma entry_write:
  assumes "hosts_ok s" "entry_of s k = Some e"
  shows "entry_of (s\<lparr>hp := store e (Obj kvs) (hp s)\<rparr>) = entry_of s"
    and "nid_entry_of (s\<lparr>hp := store e (Obj kvs) (hp s)\<rparr>) = nid_entry_of s"
    and "hosts_ok (s\<lparr>hp := store e (Obj kvs) (hp s)\<rparr>)"
proof -
  have ne: "e \<noteq> host_map s" "e \<noteq> nid_map s" using hosts_okD(5)[OF assms] by auto
  show 1: "entry_of (s\<lparr>hp := store e (Obj kvs) (hp s)\<rparr>) = entry_of s"
    and 2: "nid_entry_of (s\<lparr>hp := store e (Obj kvs) (hp s)\<rparr>) = nid_entry_of s"
    using ne by (auto simp: entry_of_def nid_entry_of_def)
  show "hosts_ok (s\<lparr>hp := store e (Obj kvs) (hp s)\<rparr>)"
    using assms(1) ne unfolding hosts_ok_def 1 2 by simp
qed

text \<open>Registering an existing entry under a nid.\<close>

lemma nid_write:
  fixes n :: string
  assumes "hosts_ok s" "entry_of s k = Some e" "node_of (hp s) (nid_map s) = Some (Obj nm)"
  defines "s' \<equiv> s\<lparr>hp := store (nid_map s) (Obj (AList.update n e nm)) (hp s)\<rparr>"
  shows "entry_of s' = entry_of s"
    and "nid_entry_of s' = (nid_entry_of s)(n \<mapsto> e)"
    and "hosts_ok s'"
proof -
  have ne: "host_map s \<noteq> nid_map s" by (rule hosts_okD(3)[OF assms(1)])
  show 1: "entry_of s' = entry_of s" using ne by (simp add: s'_def entry_of_def fun_eq_iff)
  show 2: "nid_entry_of s' = (nid_entry_of s)(n \<mapsto> e)"
    using assms(3) by (auto simp: s'_def nid_entry_of_def fun_eq_iff)
  have 3: "is_obj (hp s') v" if "is_obj (hp s) v" for v
    using that by (simp add: s'_def)
  have 4: "host_map s' = host_map s" "nid_map s' = nid_map s" by (simp_all add: s'_def)
  show "hosts_ok s'"
    using assms(1,2) 3 ne unfolding hosts_ok_def 1 2 4 by (auto simp: s'_def split: if_splits)
qed

text \<open>The entry of a new host is fresh, so it is distinct from every other entry.\<close>

lemma init_host_entry_eq:
  assumes "hosts_ok s" "node_of (hp s) (host_map s) = Some (Obj hm)"
  defines "e \<equiv> JRef (length (hp s))"
    and "h \<equiv> push (Obj [(''jid'', JString ''*''), (''uid'', JString ''*'')]) (hp s)"
  shows "init_host_entry host s =
    Some (s\<lparr>hp := store (host_map s) (Obj (AList.update host e hm)) h\<rparr>)"
proof -
  have "host_map s \<noteq> e" using assms(2) unfolding e_def by auto
  moreover have "store e m (push n (hp s)) = push m (hp s)" for m n
    by (simp add: e_def store_def push_def)
  ultimately show ?thesis
    using assms(2) unfolding init_host_entry_def new_object_def new_node_def
    by (simp add: Let_def h_def e_def[symmetric] del: store_store)
qed

lemma init_host_entry_ok:
  assumes "hosts_ok s" "entry_of s host = None"
  shows "ok (init_host_entry host s) (\<lambda>s'. hosts_ok s' \<and>
    entry_of s' = (entry_of s)(host \<mapsto> JRef (length (hp s))) \<and> nid_entry_of s' = nid_entry_of s \<and>
    node_of (hp s') (JRef (length (hp s))) =
      Some (Obj [(''jid'', JString ''*''), (''uid'', JString ''*'')]) \<and>
    host_map s' = host_map s \<and> nid_map s' = nid_map s \<and> keeps {host_map s} (hp s) (hp s'))"
proof -
  obtain hm where hm: "node_of (hp s) (host_map s) = Some (Obj hm)"
    using hosts_okD(1)[OF assms(1)] by blast
  obtain nm where nm: "node_of (hp s) (nid_map s) = Some (Obj nm)"
    using hosts_okD(2)[OF assms(1)] by blast
  define e where "e = JRef (length (hp s))"
  define h where "h = push (Obj [(''jid'', JString ''*''), (''uid'', JString ''*'')]) (hp s)"
  define s' where "s' = s\<lparr>hp := store (host_map s) (Obj (AList.update host e hm)) h\<rparr>"
  have eq: "init_host_entry host s = Some s'"
    using init_host_entry_eq[OF assms(1) hm] by (simp add: e_def h_def s'_def)
  have ne: "host_map s \<noteq> e" "nid_map s \<noteq> e" using hm nm by (auto simp: e_def)
  have 1: "entry_of s' = (entry_of s)(host \<mapsto> e)"
    using hm ne by (auto simp: s'_def h_def entry_of_def fun_eq_iff e_def)
  have 2: "nid_entry_of s' = nid_entry_of s"
    using nm ne hosts_okD(3)[OF assms(1)] by (auto simp: s'_def h_def nid_entry_of_def fun_eq_iff e_def)
  have 3: "is_obj (hp s') v" if "is_obj (hp s) v" for v
    using that by (auto simp: s'_def h_def is_obj_def)
  have 4: "is_obj (hp s') e" using ne by (auto simp: s'_def h_def is_obj_def e_def)
  have 5: "entry_of s k \<noteq> Some e" for k
    using hosts_okD(4)[OF assms(1), of k e] by (auto simp: e_def)
  have 6: "host_map s' = host_map s" "nid_map s' = nid_map s" by (simp_all add: s'_def)
  have 7: "\<exists>k. ((entry_of s)(host \<mapsto> e)) k = Some v" if "nid_entry_of s n = Some v" for n v
    using hosts_okD(7)[OF assms(1) that] assms(2) by (metis fun_upd_other option.distinct(1))
  have 8: "node_of (hp s') (host_map s) = Some (Obj kvs) \<Longrightarrow> distinct (keys kvs)" for kvs
    using hm ne(1) hosts_okD(8)[OF assms(1) hm] by (auto simp: s'_def h_def)
  have "hosts_ok s'"
    using assms 3 4 5 7 8 ne unfolding hosts_ok_def 1 2 6 by (auto split: if_splits)
  moreover have "node_of (hp s') e = Some (Obj [(''jid'', JString ''*''), (''uid'', JString ''*'')])"
    using ne by (simp add: s'_def h_def e_def)
  moreover have "keeps {host_map s} (hp s) (hp s')"
    using hm by (auto simp: s'_def h_def keeps_def)
  ultimately show ?thesis using eq 1 2 6 by (simp add: e_def)
qed

section \<open>What one update does\<close>

definition host_fields :: "(string \<Rightarrow> jval option) \<Rightarrow> (string \<times> jval) list \<Rightarrow> (string \<times> jval) list" where
  "host_fields get kvs =
    (let kvs' = copied get rpc_tags kvs
     in case get ''data'' of None \<Rightarrow> kvs' | Some d \<Rightarrow> AList.update ''data'' d kvs')"

lemma tag_host_entry_eq:
  assumes "hosts_ok s" "entry_of s k = Some e" "node_of (hp s) e = Some (Obj kvs)"
    and "node_of (hp s) (nid_map s) = Some (Obj nm)" and "rpc \<noteq> e"
  defines "h \<equiv> store e (Obj (host_fields (object_get_ex (hp s) rpc) kvs)) (hp s)"
  shows "tag_host_entry E rpc e s =
    (case (object_get_ex (hp s) rpc ''data'', object_get_ex (hp s) rpc ''nid'') of
       (None, Some t) \<Rightarrow>
         map_option (\<lambda>nid. s\<lparr>hp := store (nid_map s) (Obj (AList.update nid e nm)) h\<rparr>)
           (get_string E h t)
     | _ \<Rightarrow> Some (s\<lparr>hp := h\<rparr>))"
proof -
  have ne: "nid_map s \<noteq> e" using hosts_okD(5)[OF assms(1,2)] by auto
  show ?thesis
  proof (cases "object_get_ex (hp s) rpc ''data''")
    case None
    with assms ne show ?thesis
      by (auto simp: tag_host_entry_def copy_tags_obj host_fields_def Let_def map_conv_bind_option comp_def
          split: option.splits)
  next
    case (Some d)
    with assms ne show ?thesis
      by (auto simp: tag_host_entry_def copy_tags_obj host_fields_def Let_def split: option.splits)
  qed
qed

lemma tag_host_entry_spec:
  assumes "hosts_ok s" "entry_of s k = Some e" "node_of (hp s) e = Some (Obj kvs)" "rpc \<noteq> e"
  shows "whenever (tag_host_entry E rpc e s) (\<lambda>s'. hosts_ok s' \<and> entry_of s' = entry_of s \<and>
    node_of (hp s') e = Some (Obj (host_fields (object_get_ex (hp s) rpc) kvs)) \<and>
    (\<forall>n v. nid_entry_of s n = Some v \<longrightarrow> v = e \<longrightarrow> nid_entry_of s' n = Some e) \<and>
    host_map s' = host_map s \<and> nid_map s' = nid_map s \<and>
    keeps {e, nid_map s} (hp s) (hp s'))"
proof -
  obtain nm where nm: "node_of (hp s) (nid_map s) = Some (Obj nm)"
    using hosts_okD(2)[OF assms(1)] by blast
  have ne: "nid_map s \<noteq> e" using hosts_okD(5)[OF assms(1,2)] by auto
  define s1 where "s1 = s\<lparr>hp := store e (Obj (host_fields (object_get_ex (hp s) rpc) kvs)) (hp s)\<rparr>"
  note w = entry_write[OF assms(1,2), of "host_fields (object_get_ex (hp s) rpc) kvs", folded s1_def]
  have nm1: "node_of (hp s1) (nid_map s1) = Some (Obj nm)" using nm ne by (simp add: s1_def)
  have e1: "entry_of s1 k = Some e" using w(1) assms(2) by simp
  note n = nid_write[OF w(3) e1 nm1]
  have k1: "keeps {e, nid_map s} (hp s) (hp s1)"
    unfolding s1_def using assms(3) by (auto intro: keeps_store_obj)
  have k2: "keeps {e, nid_map s} (hp s1) (store (nid_map s) (Obj xs) (hp s1))" for xs
    by (rule keeps_store_obj[where kvs = nm]) (use nm1 in \<open>auto simp: s1_def\<close>)
  have eq: "store (nid_map s) (Obj xs) (store e (Obj (host_fields (object_get_ex (hp s) rpc) kvs)) (hp s))
      = store (nid_map s1) (Obj xs) (hp s1)" for xs
    by (simp add: s1_def)
  show ?thesis
    unfolding tag_host_entry_eq[OF assms(1-3) nm assms(4)] eq
    using w n k1 keeps_trans[OF k1 k2] assms(3) ne
    by (auto simp: whenever_def s1_def split: option.splits)
qed

text \<open>The entry a host is updated on, and its fields before the update.\<close>

definition old_fields :: "stats \<Rightarrow> string \<Rightarrow> (string \<times> jval) list" where
  "old_fields s host =
    (case entry_of s host of
       None \<Rightarrow> [(''jid'', JString ''*''), (''uid'', JString ''*'')]
     | Some e \<Rightarrow> (case obj_of (hp s) e of None \<Rightarrow> [] | Some kvs \<Rightarrow> kvs))"

definition old_value :: "heap \<Rightarrow> jval \<Rightarrow> bool" where
  "old_value h v \<longleftrightarrow> v \<noteq> JRef (length h)"

definition updated :: "stats \<Rightarrow> jval \<Rightarrow> string \<Rightarrow> stats \<Rightarrow> bool" where
  "updated s rpc host s' \<longleftrightarrow>
    (\<exists>e. entry_of s' = (entry_of s)(host \<mapsto> e) \<and>
      (case entry_of s host of None \<Rightarrow> e = JRef (length (hp s)) | Some e' \<Rightarrow> e = e') \<and>
      node_of (hp s') e = Some (Obj (host_fields (object_get_ex (hp s) rpc) (old_fields s host))) \<and>
      (\<forall>n. nid_entry_of s n = Some e \<longrightarrow> nid_entry_of s' n = Some e) \<and>
      keeps {e, host_map s, nid_map s} (hp s) (hp s') \<and>
      (\<forall>k v. entry_of s k = Some v \<longrightarrow> k \<noteq> host \<longrightarrow> node_of (hp s') v = node_of (hp s) v))"

lemma get_ex_keeps:
  "keeps S h h' \<Longrightarrow> node_of h v = Some n \<Longrightarrow> v \<notin> S \<Longrightarrow> object_get_ex h' v = object_get_ex h v"
  by (auto simp: fun_eq_iff intro: keeps_get_ex)

text \<open>The body of \<open>update_host_entry\<close> on a known host.\<close>

lemma update_known:
  assumes "hosts_ok s" "outside s rpc" "entry_of s host = Some e"
  shows "whenever (tag_host_entry E rpc e s)
    (\<lambda>s'. hosts_ok s' \<and> updated s rpc host s' \<and> host_map s' = host_map s \<and> nid_map s' = nid_map s)"
proof -
  obtain kvs where kvs: "node_of (hp s) e = Some (Obj kvs)"
    using hosts_okD(4)[OF assms(1,3)] by blast
  have "rpc \<noteq> e" using assms(2,3) by (auto simp: outside_def)
  note spec = tag_host_entry_spec[OF assms(1,3) kvs this]
  have "node_of (hp s') v = node_of (hp s) v"
    if "keeps {e, nid_map s} (hp s) (hp s')" "entry_of s k = Some v" "k \<noteq> host" for s' k v
  proof -
    have "v \<noteq> e" "v \<noteq> nid_map s"
      using that hosts_okD(6)[OF assms(1)] hosts_okD(5)[OF assms(1)] assms(3) by blast+
    then show ?thesis
      using that(1) hosts_okD(4)[OF assms(1) that(2)] by (auto intro: keeps_node)
  qed
  then show ?thesis
    using assms(3) kvs by (intro whenever_mono[OF spec])
      (auto simp: updated_def old_fields_def fun_upd_idem intro: keeps_mono)
qed

lemma update_host_entry_spec:
  assumes "hosts_ok s" "outside s rpc" "object_get_ex (hp s) rpc ''hostname'' = Some tag"
    and "get_string E (hp s) tag = Some name"
  defines "host \<equiv> snprintf_s 64 name"
  shows "whenever (update_host_entry E rpc s) (\<lambda>(rc, s'). rc = 1 \<and> hosts_ok s' \<and>
    updated s rpc host s' \<and> host_map s' = host_map s \<and> nid_map s' = nid_map s)"
proof (cases "entry_of s host")
  case (Some e)
  have "update_host_entry E rpc s = map_option (\<lambda>s'. (1, s')) (tag_host_entry E rpc e s)"
    using assms(3,4) Some
    by (simp add: update_host_entry_def host_def[symmetric] entry_of_def
        map_conv_bind_option comp_def)
  with update_known[OF assms(1,2) Some] show ?thesis by (auto simp: whenever_def)
next
  case None
  let ?e = "JRef (length (hp s))"
  obtain fs where fs: "node_of (hp s) rpc = Some (Obj fs)"
    using object_get_ex_SomeD[OF assms(3)] by blast
  obtain s1 where s1: "init_host_entry host s = Some s1" "hosts_ok s1"
    "entry_of s1 = (entry_of s)(host \<mapsto> ?e)" "nid_entry_of s1 = nid_entry_of s"
    "node_of (hp s1) ?e = Some (Obj [(''jid'', JString ''*''), (''uid'', JString ''*'')])"
    "host_map s1 = host_map s" "nid_map s1 = nid_map s" "keeps {host_map s} (hp s) (hp s1)"
    using init_host_entry_ok[OF assms(1) None] by (auto elim: okE)
  have rpc: "rpc \<noteq> host_map s" "rpc \<noteq> ?e"
    using assms(2) fs by (auto simp: outside_def)
  have out: "outside s1 rpc"
    using assms(2) rpc s1 by (auto simp: outside_def)
  have get: "object_get_ex (hp s1) rpc = object_get_ex (hp s) rpc"
    by (rule get_ex_keeps[OF s1(8) fs]) (use rpc in auto)
  have e1: "entry_of s1 host = Some ?e" using s1(3) by simp
  have eq: "update_host_entry E rpc s = map_option (\<lambda>s'. (1, s')) (tag_host_entry E rpc ?e s1)"
    using assms(3,4) None s1(1) e1[unfolded entry_of_def]
    by (simp add: update_host_entry_def host_def[symmetric] entry_of_def
        map_conv_bind_option comp_def)
  have frame: "node_of (hp s') v = node_of (hp s) v"
    if "\<forall>k v. entry_of s1 k = Some v \<longrightarrow> k \<noteq> host \<longrightarrow> node_of (hp s') v = node_of (hp s1) v"
      "entry_of s k = Some v" "k \<noteq> host" for s' k v
    using that s1(3,8) hosts_okD(4,5)[OF assms(1) that(2)] by (force dest: keeps_node)
  have nid: "nid_entry_of s n \<noteq> Some ?e" for n
    using hosts_okD(4,7)[OF assms(1)] by fastforce
  have tr: "keeps {?e, host_map s, nid_map s} (hp s) (hp s')"
    if "keeps {?e, host_map s, nid_map s} (hp s1) (hp s')" for s'
    by (rule keeps_trans[OF keeps_mono[OF s1(8)] that]) auto
  have "whenever (tag_host_entry E rpc ?e s1)
    (\<lambda>s'. hosts_ok s' \<and> updated s rpc host s' \<and> host_map s' = host_map s \<and> nid_map s' = nid_map s)"
  proof (rule whenever_mono[OF update_known[OF s1(2) out, of host ?e E]])
    show "entry_of s1 host = Some ?e" by (rule e1)
  next
    fix s'
    assume *: "hosts_ok s' \<and> updated s1 rpc host s' \<and> host_map s' = host_map s1 \<and> nid_map s' = nid_map s1"
    then obtain e where e: "entry_of s' = (entry_of s1)(host \<mapsto> e)" "entry_of s1 host = Some e"
      "node_of (hp s') e = Some (Obj (host_fields (object_get_ex (hp s1) rpc) (old_fields s1 host)))"
      "keeps {e, host_map s1, nid_map s1} (hp s1) (hp s')"
      "\<forall>k v. entry_of s1 k = Some v \<longrightarrow> k \<noteq> host \<longrightarrow> node_of (hp s') v = node_of (hp s1) v"
      unfolding updated_def using e1 by auto
    have "e = ?e" using e(2) e1 by simp
    moreover have "old_fields s1 host = old_fields s host"
      using s1(5) e1 None by (simp add: old_fields_def)
    ultimately have "updated s rpc host s'"
      unfolding updated_def using e s1(3,6,7) None nid get tr[of s'] frame[of s', OF e(5)]
      by (intro exI[of _ ?e]) auto
    with * s1 show "hosts_ok s' \<and> updated s rpc host s' \<and> host_map s' = host_map s \<and> nid_map s' = nid_map s"
      by simp
  qed
  with eq show ?thesis by (auto simp: whenever_def)
qed

section \<open>Whole RPCs\<close>

text \<open>An update never changes which store values are the maps, and new entries are fresh, so a value
  of the RPC stays outside of the maps while the array of updates is processed.\<close>

definition settled :: "heap \<Rightarrow> jval \<Rightarrow> bool" where
  "settled h v \<longleftrightarrow> (\<forall>a. v = JRef a \<longrightarrow> a < length h)"

lemma settled_mono: "settled h v \<Longrightarrow> length h \<le> length h' \<Longrightarrow> settled h' v"
  by (auto simp: settled_def)

lemma outside_updated:
  assumes "updated s rpc host s'" "outside s v" "settled (hp s) v"
    and "host_map s' = host_map s" "nid_map s' = nid_map s"
  shows "outside s' v"
proof -
  obtain e where e: "entry_of s' = (entry_of s)(host \<mapsto> e)"
    "case entry_of s host of None \<Rightarrow> e = JRef (length (hp s)) | Some e' \<Rightarrow> e = e'"
    using assms(1) unfolding updated_def by blast
  then have "v \<noteq> e" using assms(2,3) by (auto simp: outside_def settled_def split: option.splits)
  with e(1) assms(2,4,5) show ?thesis by (auto simp: outside_def)
qed

lemma updated_length: "updated s rpc host s' \<Longrightarrow> length (hp s) \<le> length (hp s')"
  by (auto simp: updated_def dest: keeps_length)

lemma updated_get:
  assumes "updated s rpc host s'" "outside s v" "settled (hp s) v"
  shows "object_get_ex (hp s') v = object_get_ex (hp s) v"
proof (cases "node_of (hp s) v")
  case None
  then have "\<forall>a. v \<noteq> JRef a" using assms(3) by (auto simp: settled_def node_of_def)
  then have "node_of h v = None" for h by (cases v) auto
  then show ?thesis by (simp add: fun_eq_iff)
next
  case (Some n)
  obtain e where e: "case entry_of s host of None \<Rightarrow> e = JRef (length (hp s)) | Some e' \<Rightarrow> e = e'"
    "keeps {e, host_map s, nid_map s} (hp s) (hp s')"
    using assms(1) unfolding updated_def by blast
  have "v \<noteq> e" using e(1) assms(2,3) by (auto simp: outside_def settled_def split: option.splits)
  then show ?thesis using assms(2) by (intro get_ex_keeps[OF e(2) Some]) (auto simp: outside_def)
qed

text \<open>One update keeps the invariant, and keeps the rest of the RPC outside of the maps.\<close>

lemma update_host_entry_step:
  assumes "hosts_ok s" "outside s rpc"
  shows "whenever (update_host_entry E rpc s)
    (\<lambda>(rc, s'). hosts_ok s' \<and> length (hp s) \<le> length (hp s') \<and>
      (\<forall>v. outside s v \<longrightarrow> settled (hp s) v \<longrightarrow>
        outside s' v \<and> object_get_ex (hp s') v = object_get_ex (hp s) v))"
proof (cases "object_get_ex (hp s) rpc ''hostname''")
  case None
  with assms(1) show ?thesis by (simp add: update_host_entry_def)
next
  case (Some tag)
  show ?thesis
  proof (cases "get_string E (hp s) tag")
    case None
    with Some show ?thesis by (simp add: update_host_entry_def)
  next
    case (Some name)
    show ?thesis
      by (rule whenever_mono[OF update_host_entry_spec[OF assms \<open>_ = Some tag\<close> Some]])
        (auto dest: updated_length updated_get intro: outside_updated)
  qed
qed

lemma build_outside:
  assumes "hosts_ok s" "build t (hp s) = (v, h)"
  shows "hosts_ok (s\<lparr>hp := h\<rparr>)" and "newer (hp s) h w \<Longrightarrow> outside (s\<lparr>hp := h\<rparr>) w \<and> settled h w"
    and "entry_of (s\<lparr>hp := h\<rparr>) = entry_of s" and "nid_entry_of (s\<lparr>hp := h\<rparr>) = nid_entry_of s"
proof -
  have k: "keeps {} (hp s) h" using build_frame(1)[OF assms(2)] by simp
  obtain hm nm where maps: "node_of (hp s) (host_map s) = Some (Obj hm)"
    "node_of (hp s) (nid_map s) = Some (Obj nm)"
    using hosts_okD(1,2)[OF assms(1)] by blast
  show 1: "entry_of (s\<lparr>hp := h\<rparr>) = entry_of s" and 2: "nid_entry_of (s\<lparr>hp := h\<rparr>) = nid_entry_of s"
    using maps keeps_get_ex[OF k] by (auto simp: entry_of_def nid_entry_of_def fun_eq_iff)
  have obj: "is_obj h v" if "is_obj (hp s) v" for v
    using that k by (auto simp: is_obj_def keeps_def)
  have "node_of h (host_map s) = Some (Obj hm)" using keeps_node[OF k maps(1)] by simp
  then show "hosts_ok (s\<lparr>hp := h\<rparr>)"
    using assms(1) obj maps(1) unfolding hosts_ok_def 1 2 by simp
  assume new: "newer (hp s) h w"
  have "w \<noteq> v" if "node_of (hp s) v = Some n" for v n
    using new that by (auto simp: newer_def dest: node_of_ref)
  moreover have "entry_of s k \<noteq> Some w" for k
    using calculation hosts_okD(4)[OF assms(1)] by blast
  ultimately show "outside (s\<lparr>hp := h\<rparr>) w \<and> settled h w"
    using maps 1 new by (auto simp: outside_def settled_def newer_def)
qed

lemma build_elements:
  assumes "build t h = (v, h')" "node_of h' v = Some (Arr vs)"
  shows "\<forall>x \<in> set vs. newer h h' x"
proof -
  obtain ts where t: "t = TArray ts"
    using assms by (cases t) (auto simp: new_node_def Let_def split: prod.splits)
  obtain vs1 h1 where 1: "build_list ts h = (vs1, h1)" by fastforce
  then have "vs = vs1" "length h' = Suc (length h1)" using assms t by (auto simp: new_node_def)
  with build_frame(2)[OF 1] show ?thesis by (auto simp: newer_def)
qed

lemma update_host_entry_defined:
  assumes "hosts_ok s" "outside s rpc"
    and "object_get_ex (hp s) rpc ''hostname'' \<noteq> Some JNull"
    and "object_get_ex (hp s) rpc ''nid'' \<noteq> Some JNull"
  shows "update_host_entry E rpc s \<noteq> None"
proof (cases "object_get_ex (hp s) rpc ''hostname''")
  case None
  then show ?thesis by (simp add: update_host_entry_def)
next
  case (Some tag)
  have gs: "\<exists>n. get_string E h v = Some n" if "v \<noteq> JNull" for h v
    using that by (cases v) (auto simp: get_string_def)
  obtain name where name: "get_string E (hp s) tag = Some name" using gs[of tag "hp s"] Some assms(3) by auto
  define host where "host = snprintf_s 64 name"
  have tag: "tag_host_entry E rpc e t \<noteq> None"
    if t: "hosts_ok t" "entry_of t host = Some e" "rpc \<noteq> e"
      "object_get_ex (hp t) rpc ''nid'' \<noteq> Some JNull" for t e
  proof -
    obtain kvs nm where "node_of (hp t) e = Some (Obj kvs)" "node_of (hp t) (nid_map t) = Some (Obj nm)"
      using hosts_okD(2)[OF t(1)] hosts_okD(4)[OF t(1,2)] by blast
    then show ?thesis
      using gs t(4) tag_host_entry_eq[OF t(1,2) _ _ t(3), of kvs nm E]
      by (fastforce split: option.splits)
  qed
  show ?thesis
  proof (cases "entry_of s host")
    case (Some e)
    then have "rpc \<noteq> e" using assms(2) by (auto simp: outside_def)
    with tag[OF assms(1) Some] show ?thesis
      using \<open>_ = Some tag\<close> name assms(4) Some
      by (auto simp: update_host_entry_def host_def[symmetric] entry_of_def split: option.splits)
  next
    case None
    obtain fs where fs: "node_of (hp s) rpc = Some (Obj fs)"
      using object_get_ex_SomeD[OF Some] by blast
    obtain s1 where s1: "init_host_entry host s = Some s1" "hosts_ok s1"
      "entry_of s1 = (entry_of s)(host \<mapsto> JRef (length (hp s)))"
      "host_map s1 = host_map s" "keeps {host_map s} (hp s) (hp s1)"
      using init_host_entry_ok[OF assms(1) None] by (auto elim: okE)
    have "object_get_ex (hp s1) rpc = object_get_ex (hp s) rpc"
      by (rule get_ex_keeps[OF s1(5) fs]) (use assms(2) in \<open>auto simp: outside_def\<close>)
    moreover have e1: "entry_of s1 host = Some (JRef (length (hp s)))" using s1(3) by simp
    moreover have "rpc \<noteq> JRef (length (hp s))" using fs by auto
    ultimately have "tag_host_entry E rpc (JRef (length (hp s))) s1 \<noteq> None"
      using tag[OF s1(2)] assms(4) by auto
    then show ?thesis
      using Some name None s1(1) e1[unfolded entry_of_def]
      by (auto simp: update_host_entry_def host_def[symmetric] entry_of_def)
  qed
qed

text \<open>The documents whose host names and nids are not json nulls.\<close>

definition update_safe :: "json \<Rightarrow> bool" where
  "update_safe t \<longleftrightarrow> (case t of
     TObject fs \<Rightarrow> map_of fs ''hostname'' \<noteq> Some TNull \<and> map_of fs ''nid'' \<noteq> Some TNull
   | _ \<Rightarrow> True)"

definition rpc_safe :: "json \<Rightarrow> bool" where
  "rpc_safe t \<longleftrightarrow> (case t of TArray ts \<Rightarrow> (\<forall>u \<in> set ts. update_safe u) | _ \<Rightarrow> update_safe t)"

definition keys_not_null :: "heap \<Rightarrow> jval \<Rightarrow> bool" where
  "keys_not_null h v \<longleftrightarrow>
    object_get_ex h v ''hostname'' \<noteq> Some JNull \<and> object_get_ex h v ''nid'' \<noteq> Some JNull"

lemma rep_update_safe: "rep h v t \<Longrightarrow> update_safe t \<Longrightarrow> keys_not_null h v"
  by (cases t) (auto simp: keys_not_null_def update_safe_def object_get_ex_def
      split: option.splits node.splits dest: rep_fields_map_of')

lemma rep_list_update_safe:
  "rep_list h vs ts \<Longrightarrow> \<forall>u \<in> set ts. update_safe u \<Longrightarrow> \<forall>v \<in> set vs. keys_not_null h v"
  by (induction ts arbitrary: vs) (auto split: list.splits intro: rep_update_safe)

lemma update_all_inv:
  assumes "hosts_ok s" "\<forall>v \<in> set vs. outside s v \<and> settled (hp s) v"
  shows "whenever (update_all E vs s) hosts_ok"
  using assms
proof (induction vs arbitrary: s)
  case Nil
  then show ?case by (simp add: update_all_def)
next
  case (Cons v vs)
  show ?case
  proof (cases "update_host_entry E v s")
    case None
    then show ?thesis by (simp add: update_all_def)
  next
    case (Some p)
    obtain rc t where p: "p = (rc, t)" by (cases p)
    have "hosts_ok t \<and> length (hp s) \<le> length (hp t) \<and>
        (\<forall>w. outside s w \<longrightarrow> settled (hp s) w \<longrightarrow> outside t w)"
      using update_host_entry_step[OF Cons.prems(1), of v E] Cons.prems(2) Some p by auto
    with Cons.prems(2) have "whenever (update_all E vs t) hosts_ok"
      by (intro Cons.IH) (auto intro: settled_mono)
    with Some p show ?thesis by (simp add: update_all_def)
  qed
qed

lemma update_all_defined:
  assumes "hosts_ok s" "\<forall>v \<in> set vs. outside s v \<and> settled (hp s) v \<and> keys_not_null (hp s) v"
  shows "update_all E vs s \<noteq> None"
  using assms
proof (induction vs arbitrary: s)
  case Nil
  then show ?case by (simp add: update_all_def)
next
  case (Cons v vs)
  obtain rc t where t: "update_host_entry E v s = Some (rc, t)"
    using update_host_entry_defined[OF Cons.prems(1), of v E] Cons.prems(2)
    by (fastforce simp: keys_not_null_def)
  have "hosts_ok t \<and> length (hp s) \<le> length (hp t) \<and> (\<forall>w. outside s w \<longrightarrow> settled (hp s) w \<longrightarrow>
      outside t w \<and> object_get_ex (hp t) w = object_get_ex (hp s) w)"
    using update_host_entry_step[OF Cons.prems(1), of v E] Cons.prems(2) t by auto
  with Cons.prems(2) have "update_all E vs t \<noteq> None"
    by (intro Cons.IH) (auto simp: keys_not_null_def intro: settled_mono)
  with t show ?case by (simp add: update_all_def)
qed

lemma rpc_tags_targets: "distinct (map snd rpc_tags)" "''data'' \<notin> snd ` set rpc_tags"
  by (simp_all add: rpc_tags_def)

lemma host_fields_tag:
  assumes "(k, k') \<in> set rpc_tags"
  shows "map_of (host_fields get kvs) k' =
    (case get k of None \<Rightarrow> map_of kvs k' | Some x \<Rightarrow> Some x)"
proof -
  have "k' \<noteq> ''data''" using assms rpc_tags_targets(2) by (metis image_eqI snd_conv)
  then show ?thesis
    using map_of_copied[OF assms rpc_tags_targets(1)]
    by (auto simp: host_fields_def Let_def split: option.splits)
qed

lemma host_fields_data:
  "map_of (host_fields get kvs) ''data'' =
    (case get ''data'' of None \<Rightarrow> map_of kvs ''data'' | Some x \<Rightarrow> Some x)"
  using map_of_copied_other[OF rpc_tags_targets(2)]
  by (auto simp: host_fields_def Let_def split: option.splits)

lemma outside_init:
  assumes "settled h0 v"
  shows "outside (map_init h0) v"
proof -
  have "entry_of (map_init h0) k = None" for k
    by (simp add: map_init_def new_object_def new_node_def entry_of_def Let_def)
  then show ?thesis
    using assms by (auto simp: outside_def settled_def map_init_def new_object_def new_node_def Let_def)
qed

text \<open>Two updates of one host, for the witnesses: the second carries no nid.\<close>

definition sample_rpcs :: heap where
  "sample_rpcs =
    [Obj [(''hostname'', JString ''c1''), (''jid'', JString ''101''), (''nid'', JString ''1@o2ib'')],
     Obj [(''hostname'', JString ''c1''), (''jid'', JString ''102'')]]"

definition sample_hosts :: stats where
  "sample_hosts = \<lparr>
    hp = sample_rpcs @ [Obj [(''c1'', JRef 7)], Obj [(''1@o2ib'', JRef 7)], Obj [], Obj [], Obj [],
      Obj [(''jid'', JString ''101''), (''uid'', JString ''*''), (''hid'', JString ''c1'')]],
    host_map = JRef 2, nid_map = JRef 3, server_tag_rate_map = JRef 4, group_tags = JRef 5,
    screen_map = JRef 6\<rparr>"

lemma sample_hosts_eq:
  "update_host_entry plain_env (JRef 0) (map_init sample_rpcs) = Some (1, sample_hosts)"
  by code_simp

lemma sample_hosts_ok: "hosts_ok sample_hosts" "outside sample_hosts (JRef 1)"
proof -
  have "outside (map_init sample_rpcs) (JRef 0)" "outside (map_init sample_rpcs) (JRef 1)"
    by (rule outside_init, simp add: settled_def sample_rpcs_def)+
  moreover have "settled (hp (map_init sample_rpcs)) (JRef 1)"
    by (simp add: settled_def map_init_def new_object_def new_node_def sample_rpcs_def Let_def)
  ultimately show "hosts_ok sample_hosts" "outside sample_hosts (JRef 1)"
    using update_host_entry_step[OF map_init_ok, of sample_rpcs "JRef 0" plain_env]
    by (simp_all add: sample_hosts_eq)
qed

section \<open>One RPC\<close>

lemma update_host_map_keeps:
  assumes "hosts_ok s" and "update_host_map E rpc s = Some (rc, s')"
  shows "hosts_ok s'"
proof (cases "of_json E rpc")
  case None
  with assms show ?thesis by (simp add: update_host_map_def tokener_parse_def)
next
  case (Some t)
  obtain v h where b: "build t (hp s) = (v, h)" by fastforce
  let ?s = "s\<lparr>hp := h\<rparr>"
  have s1: "hosts_ok ?s" by (rule build_outside(1)[OF assms(1) b])
  note out = build_outside(2)[OF assms(1) b]
  have eq: "tokener_parse E rpc (hp s) = Some (v, h)" using Some b by (simp add: tokener_parse_def)
  show ?thesis
  proof (cases "arr_of h v")
    case None
    have "outside ?s v" using out build_frame(1)[OF b] by blast
    from update_host_entry_step[OF s1 this, of E] assms(2) eq None show ?thesis
      by (auto simp: update_host_map_def bind_eq_Some_conv)
  next
    case (Some vs)
    then have "\<forall>w \<in> set vs. outside ?s w \<and> settled h w"
      using build_elements[OF b] out by auto
    from update_all_inv[OF s1, of vs E] this assms(2) eq Some show ?thesis
      by (auto simp: update_host_map_def bind_eq_Some_conv)
  qed
qed

lemma update_host_map_safe:
  assumes "hosts_ok s" and "of_json E rpc = Some t" and "canon t" and "rpc_safe t"
  shows "\<exists>s'. update_host_map E rpc s = Some (1, s') \<and> hosts_ok s'"
proof -
  obtain v h where b: "build t (hp s) = (v, h)" by fastforce
  let ?s = "s\<lparr>hp := h\<rparr>"
  have s1: "hosts_ok ?s" by (rule build_outside(1)[OF assms(1) b])
  note out = build_outside(2)[OF assms(1) b]
  have rep: "rep h v t" by (rule build_rep(1)[OF b assms(3)])
  have eq: "tokener_parse E rpc (hp s) = Some (v, h)" using assms(2) b by (simp add: tokener_parse_def)
  have "\<exists>s'. update_host_map E rpc s = Some (1, s')"
  proof (cases "arr_of h v")
    case None
    have v: "outside ?s v" using out build_frame(1)[OF b] by blast
    have "update_safe t" using assms(4) rep None
      by (cases t) (auto simp: rpc_safe_def split: option.splits node.splits)
    then have "keys_not_null h v" by (rule rep_update_safe[OF rep])
    then obtain p where "update_host_entry E v ?s = Some p"
      using update_host_entry_defined[OF s1 v, of E] by (auto simp: keys_not_null_def)
    with eq None show ?thesis by (auto simp: update_host_map_def split: prod.splits)
  next
    case (Some vs)
    then obtain ts where "t = TArray ts" "rep_list h vs ts"
      using rep by (cases t) (auto split: option.splits node.splits)
    then have "\<forall>w \<in> set vs. keys_not_null h w"
      using assms(4) rep_list_update_safe[of h vs ts] by (auto simp: rpc_safe_def)
    moreover have "\<forall>w \<in> set vs. outside ?s w \<and> settled h w"
      using Some build_elements[OF b] out by auto
    ultimately obtain s' where "update_all E vs ?s = Some s'"
      using update_all_defined[OF s1, of vs E] by auto
    with eq Some show ?thesis by (auto simp: update_host_map_def)
  qed
  then show ?thesis using update_host_map_keeps[OF assms(1)] by blast
qed

section \<open>Properties\<close>

text \<open>Every RPC, whatever its text, keeps the invariant of the two host maps: the entries of distinct
  hosts are distinct objects and every registered nid refers to the entry of a host.\<close>

theorem update_host_map_invariant:
  assumes "hosts_ok s" and "update_host_map E rpc s = Some (rc, s')"
  shows "hosts_ok s'"
  using update_host_map_keeps[OF assms] .

theorem update_host_map_invariant_witness:
  "\<exists>s'. update_host_map (plain_env\<lparr>of_json := (\<lambda>_. Some (TObject [(''hostname'', TString ''c1''),
      (''nid'', TString ''1@o2ib'')]))\<rparr>) ''rpc'' (map_init []) = Some (1, s') \<and> hosts_ok s'"
proof -
  let ?E = "plain_env\<lparr>of_json := (\<lambda>_. Some (TObject [(''hostname'', TString ''c1''),
      (''nid'', TString ''1@o2ib'')]))\<rparr>"
  have "map_option fst (update_host_map ?E ''rpc'' (map_init [])) = Some 1" by code_simp
  then obtain s' where s': "update_host_map ?E ''rpc'' (map_init []) = Some (1, s')" by auto
  from update_host_map_invariant[OF map_init_ok this] s' show ?thesis by blast
qed

text \<open>C6. No RPC whose host names and nids are present as anything but a json null can crash the server:
  processing it is defined, reports success and keeps the invariant.\<close>

theorem update_host_map_defined:
  assumes "hosts_ok s" and "of_json E rpc = Some t" and "canon t" and "rpc_safe t"
  shows "\<exists>s'. update_host_map E rpc s = Some (1, s') \<and> hosts_ok s'"
  using update_host_map_safe[OF assms] .

theorem update_host_map_defined_witness:
  "\<exists>s'. update_host_map (plain_env\<lparr>of_json := (\<lambda>_. Some (TArray [TObject [(''hostname'', TString ''c1'')],
      TObject [(''jid'', TString ''7'')]]))\<rparr>) ''rpc'' (map_init []) = Some (1, s') \<and> hosts_ok s'"
proof -
  let ?t = "TArray [TObject [(''hostname'', TString ''c1'')], TObject [(''jid'', TString ''7'')]]"
  let ?E = "plain_env\<lparr>of_json := (\<lambda>_. Some ?t)\<rparr>"
  have "of_json ?E ''rpc'' = Some ?t" "canon ?t" "rpc_safe ?t"
    by (simp_all add: rpc_safe_def update_safe_def)
  from update_host_map_defined[OF map_init_ok this] show ?thesis .
qed

text \<open>C11. What an accepted update does to the entry of its host: every tag of the RPC is stored under its
  key (the host name as hid), the tags the RPC does not carry keep their value (a new host starts
  with the wildcard user and job), data are replaced when present, and no other host is touched.\<close>

theorem update_host_entry_fields:
  assumes "hosts_ok s" and "outside s rpc"
    and "object_get_ex (hp s) rpc ''hostname'' = Some tag" and "get_string E (hp s) tag = Some name"
    and "update_host_entry E rpc s = Some (rc, s')"
  shows "\<exists>e. entry_of s' (snprintf_s 64 name) = Some e \<and>
    (\<forall>(k, k') \<in> set rpc_tags. object_get_ex (hp s') e k' =
      (case object_get_ex (hp s) rpc k of
         None \<Rightarrow> map_of (old_fields s (snprintf_s 64 name)) k' | Some x \<Rightarrow> Some x)) \<and>
    object_get_ex (hp s') e ''data'' =
      (case object_get_ex (hp s) rpc ''data'' of
         None \<Rightarrow> map_of (old_fields s (snprintf_s 64 name)) ''data'' | Some d \<Rightarrow> Some d) \<and>
    (\<forall>k v. k \<noteq> snprintf_s 64 name \<longrightarrow> entry_of s k = Some v \<longrightarrow>
      entry_of s' k = Some v \<and> object_get_ex (hp s') v = object_get_ex (hp s) v)"
proof -
  let ?host = "snprintf_s 64 name" and ?get = "object_get_ex (hp s) rpc"
  have "updated s rpc ?host s'"
    using update_host_entry_spec[OF assms(1-4)] assms(5) by auto
  then obtain e where e: "entry_of s' = (entry_of s)(?host \<mapsto> e)"
    "node_of (hp s') e = Some (Obj (host_fields ?get (old_fields s ?host)))"
    "\<forall>k v. entry_of s k = Some v \<longrightarrow> k \<noteq> ?host \<longrightarrow> node_of (hp s') v = node_of (hp s) v"
    unfolding updated_def by blast
  have "object_get_ex (hp s') v = object_get_ex (hp s) v"
    if "entry_of s k = Some v" "k \<noteq> ?host" for k v
    using e(3) that by (auto simp: object_get_ex_def obj_of_def fun_eq_iff)
  with e show ?thesis by (intro exI[of _ e]) (auto simp: host_fields_tag host_fields_data)
qed

theorem update_host_entry_fields_witness:
  "update_host_entry plain_env (JRef 0) (map_init sample_rpcs) = Some (1, sample_hosts) \<and>
    (\<exists>e. entry_of sample_hosts ''c1'' = Some e \<and>
      object_get_ex (hp sample_hosts) e ''jid'' = Some (JString ''101''))"
proof -
  have o: "outside (map_init sample_rpcs) (JRef 0)"
    by (rule outside_init) (simp add: settled_def sample_rpcs_def)
  have t: "object_get_ex (hp (map_init sample_rpcs)) (JRef 0) ''hostname'' = Some (JString ''c1'')"
    by code_simp
  have j: "object_get_ex (hp (map_init sample_rpcs)) (JRef 0) ''jid'' = Some (JString ''101'')"
    by code_simp
  have g: "get_string plain_env (hp (map_init sample_rpcs)) (JString ''c1'') = Some ''c1''"
    by (simp add: get_string_def)
  have m: "(''jid'', ''jid'') \<in> set rpc_tags" by (simp add: rpc_tags_def)
  from update_host_entry_fields[OF map_init_ok o t g sample_hosts_eq] obtain e where
    e: "entry_of sample_hosts (snprintf_s 64 ''c1'') = Some e"
    "\<forall>(k, k') \<in> set rpc_tags. object_get_ex (hp sample_hosts) e k' =
      (case object_get_ex (hp (map_init sample_rpcs)) (JRef 0) k of
        None \<Rightarrow> map_of (old_fields (map_init sample_rpcs) (snprintf_s 64 ''c1'')) k' | Some x \<Rightarrow> Some x)"
    by blast
  from bspec[OF e(2) m] j have "object_get_ex (hp sample_hosts) e ''jid'' = Some (JString ''101'')"
    by simp
  with e(1) sample_hosts_eq show ?thesis by simp
qed

text \<open>C25. Aliasing of the two maps: when an update changes the job or the user of a known host, every nid
  registered for that host reports the new value, although the update need not name the nid.\<close>

theorem nid_sees_host_update:
  assumes "hosts_ok s" and "outside s rpc"
    and "object_get_ex (hp s) rpc ''hostname'' = Some tag" and "get_string E (hp s) tag = Some name"
    and "entry_of s (snprintf_s 64 name) = Some e" and "nid_entry_of s nid = Some e"
    and "(k, k') \<in> set rpc_tags" and "object_get_ex (hp s) rpc k = Some x"
    and "update_host_entry E rpc s = Some (rc, s')"
  shows "\<exists>v. nid_entry_of s' nid = Some v \<and> object_get_ex (hp s') v k' = Some x"
proof -
  let ?host = "snprintf_s 64 name" and ?get = "object_get_ex (hp s) rpc"
  have "updated s rpc ?host s'"
    using update_host_entry_spec[OF assms(1-4)] assms(9) by auto
  then have e: "node_of (hp s') e = Some (Obj (host_fields ?get (old_fields s ?host)))"
    "\<forall>n. nid_entry_of s n = Some e \<longrightarrow> nid_entry_of s' n = Some e"
    unfolding updated_def using assms(5) by auto
  with assms(6-8) show ?thesis by (auto simp: host_fields_tag)
qed

theorem nid_sees_host_update_witness:
  "\<exists>s' v. update_host_entry plain_env (JRef 1) sample_hosts = Some (1, s') \<and>
    nid_entry_of s' ''1@o2ib'' = Some v \<and> object_get_ex (hp s') v ''jid'' = Some (JString ''102'')"
proof -
  have "map_option fst (update_host_entry plain_env (JRef 1) sample_hosts) = Some 1" by code_simp
  then obtain s' where s': "update_host_entry plain_env (JRef 1) sample_hosts = Some (1, s')" by auto
  have t: "object_get_ex (hp sample_hosts) (JRef 1) ''hostname'' = Some (JString ''c1'')" by code_simp
  have g: "get_string plain_env (hp sample_hosts) (JString ''c1'') = Some ''c1''"
    by (simp add: get_string_def)
  have e: "entry_of sample_hosts (snprintf_s 64 ''c1'') = Some (JRef 7)" by code_simp
  have n: "nid_entry_of sample_hosts ''1@o2ib'' = Some (JRef 7)" by code_simp
  have m: "(''jid'', ''jid'') \<in> set rpc_tags" by (simp add: rpc_tags_def)
  have j: "object_get_ex (hp sample_hosts) (JRef 1) ''jid'' = Some (JString ''102'')" by code_simp
  from nid_sees_host_update[OF sample_hosts_ok t g e n m j s'] s' show ?thesis by blast
qed

text \<open>The crash the previous safety property excludes exists: an update whose host name is a json null
  makes the server hand a NULL pointer to snprintf, and one whose nid is null a NULL key to json-c.\<close>

theorem null_hostname_undefined:
  assumes "of_json E rpc = Some (TObject [(''hostname'', TNull)])"
  shows "update_host_map E rpc s = None"
proof -
  have "tokener_parse E rpc (hp s) =
      Some (JRef (length (hp s)), push (Obj [(''hostname'', JNull)]) (hp s))"
    using assms by (simp add: tokener_parse_def new_node_def)
  then show ?thesis
    by (simp add: update_host_map_def update_host_entry_def get_string_def)
qed

theorem null_hostname_undefined_witness:
  "update_host_map (plain_env\<lparr>of_json := (\<lambda>_. Some (TObject [(''hostname'', TNull)]))\<rparr>)
    ''rpc'' (map_init []) = None"
  by (rule null_hostname_undefined) simp

end
