(* ===== verification/TagStats.thy ===== *)
theory TagStats
  imports HostMap
begin

text \<open>
  \<open>tag_stats\<close> of \<open>server/stats.c\<close>: the exports that the Lustre servers report are tagged with the
  server, the client, its system, job and user (looked up through \<open>nid_map\<close>), and the name of the file
  system, which is the target's name without its eight-character suffix.

  \<open>data_ok\<close> is the well-typedness of the reported data that the code relies on without
  checking it; \<open>tag_stats_tags\<close> says that under it the pass is defined and what every entry
  is afterwards.
\<close>

section \<open>The code\<close>

text \<open>\<open>char *p = target + strlen(target) - 8; *p = 0\<close> writes before the buffer when the name is
  shorter than eight characters.\<close>

definition strip_suffix8 :: "string \<Rightarrow> string option" where
  "strip_suffix8 target =
    (if length target < 8 then None else Some (take (length target - 8) target))"

definition nid_tags :: "(string \<times> string) list" where
  "nid_tags = [(''hid'', ''client''), (''system'', ''system''), (''jid'', ''jid''), (''uid'', ''uid'')]"

definition tag_data_entry :: "env \<Rightarrow> jval \<Rightarrow> string \<Rightarrow> jval \<Rightarrow> heap \<Rightarrow> heap option" where
  "tag_data_entry E nm server data_entry h0 = do {
     h1 \<leftarrow> object_add data_entry ''server'' (JString server) h0;
     (case object_get_ex h1 data_entry ''client_nid'' of
        None \<Rightarrow> Some h1
      | Some tag \<Rightarrow> do {
          h2 \<leftarrow> object_add data_entry ''client'' tag h1;
          h3 \<leftarrow> object_add data_entry ''system'' (JString ''*'') h2;
          h4 \<leftarrow> object_add data_entry ''jid'' (JString ''*'') h3;
          h5 \<leftarrow> object_add data_entry ''uid'' (JString ''*'') h4;
          h6 \<leftarrow> object_add data_entry ''fid'' (JString ''*'') h5;
          nid \<leftarrow> get_string E h6 tag;
          h7 \<leftarrow> (case object_get_ex h6 nm nid of
                  None \<Rightarrow> Some h6
                | Some nid_entry \<Rightarrow> copy_tags nid_entry nid_tags data_entry h6);
          (case object_get_ex h7 data_entry ''target'' of
             None \<Rightarrow> Some h7
           | Some tag \<Rightarrow> do {
               t \<leftarrow> get_string E h7 tag;
               target \<leftarrow> strip_suffix8 (snprintf_s 32 t);
               object_add data_entry ''fid'' (JString target) h7
             })
        })
   }"

definition tag_host :: "env \<Rightarrow> jval \<Rightarrow> string \<times> jval \<Rightarrow> heap \<Rightarrow> heap option" where
  "tag_host E nm = (\<lambda>(key, host_entry) h.
     (case object_get_ex h host_entry ''data'' of
        None \<Rightarrow> Some h
      | Some data_array \<Rightarrow> do {
          arraylen \<leftarrow> array_length h data_array;
          foldM (\<lambda>j h. do {
              data_entry \<leftarrow> array_get_idx h data_array j;
              tag_data_entry E nm key data_entry h
            }) [0..<arraylen] h
        }))"

definition tag_stats :: "env \<Rightarrow> stats \<Rightarrow> stats option" where
  "tag_stats E s = do {
     hosts \<leftarrow> object_foreach (hp s) (host_map s);
     h \<leftarrow> foldM (tag_host E (nid_map s)) hosts (hp s);
     Some (s\<lparr>hp := h\<rparr>)
   }"

section \<open>What tagging makes of an entry\<close>

definition wildcards :: "jval \<Rightarrow> (string \<times> jval) list \<Rightarrow> (string \<times> jval) list" where
  "wildcards tag kvs = AList.update ''fid'' (JString ''*'') (AList.update ''uid'' (JString ''*'')
    (AList.update ''jid'' (JString ''*'') (AList.update ''system'' (JString ''*'')
      (AList.update ''client'' tag kvs))))"

definition tagged :: "(string \<Rightarrow> (string \<Rightarrow> jval option) option) \<Rightarrow> string \<Rightarrow>
    (string \<times> jval) list \<Rightarrow> (string \<times> jval) list" where
  "tagged nids server kvs =
    (let kvs1 = AList.update ''server'' (JString server) kvs
     in case map_of kvs1 ''client_nid'' of
          Some (JString nid) \<Rightarrow>
            (let kvs2 = wildcards (JString nid) kvs1;
                 kvs3 = (case nids nid of None \<Rightarrow> kvs2 | Some get \<Rightarrow> copied get nid_tags kvs2)
             in case map_of kvs3 ''target'' of
                  Some (JString t) \<Rightarrow>
                    AList.update ''fid'' (JString (take (min 31 (length t) - 8) t)) kvs3
                | _ \<Rightarrow> kvs3)
        | _ \<Rightarrow> kvs1)"

text \<open>Well-typed entries: an export names its client by a string, and its target by a string that
  has the eight-character suffix.\<close>

definition entry_ok :: "(string \<times> jval) list \<Rightarrow> bool" where
  "entry_ok kvs \<longleftrightarrow> (case map_of kvs ''client_nid'' of
     None \<Rightarrow> True
   | Some (JString _) \<Rightarrow>
       (case map_of kvs ''target'' of None \<Rightarrow> True | Some (JString t) \<Rightarrow> 8 \<le> length t | Some _ \<Rightarrow> False)
   | Some _ \<Rightarrow> False)"

definition nid_lookup :: "heap \<Rightarrow> jval \<Rightarrow> string \<Rightarrow> (string \<Rightarrow> jval option) option" where
  "nid_lookup h nm nid = map_option (object_get_ex h) (object_get_ex h nm nid)"

lemma map_of_wildcards_other:
  "k \<notin> {''fid'', ''uid'', ''jid'', ''system'', ''client''} \<Longrightarrow> map_of (wildcards tag kvs) k = map_of kvs k"
  by (simp add: wildcards_def)

lemma target_not_nid_tag: "''target'' \<notin> snd ` set nid_tags" "''client_nid'' \<notin> snd ` set nid_tags"
  by (simp_all add: nid_tags_def)

lemma tag_data_entry_eq:
  assumes "node_of h v = Some (Obj kvs)" "entry_ok kvs" "v \<noteq> nm"
    and "\<And>n w. object_get_ex h nm n = Some w \<Longrightarrow> w \<noteq> v"
  shows "tag_data_entry E nm server v h =
    Some (store v (Obj (tagged (nid_lookup h nm) server kvs)) h)"
proof -
  let ?kvs1 = "AList.update ''server'' (JString server) kvs"
  show ?thesis
  proof (cases "map_of kvs ''client_nid''")
    case None
    with assms(1) show ?thesis by (simp add: tag_data_entry_def tagged_def)
  next
    case (Some tag)
    with assms(2) obtain nid where nid: "map_of kvs ''client_nid'' = Some (JString nid)"
      by (auto simp: entry_ok_def split: jval.splits)
    let ?kvs2 = "wildcards (JString nid) ?kvs1"
    let ?kvs3 = "case nid_lookup h nm nid of None \<Rightarrow> ?kvs2 | Some get \<Rightarrow> copied get nid_tags ?kvs2"
    have look: "object_get_ex (store v (Obj x) h) nm = object_get_ex h nm" for x
      using assms(3) by simp
    have copy: "(case object_get_ex (store v (Obj ?kvs2) h) nm nid of
          None \<Rightarrow> Some (store v (Obj ?kvs2) h)
        | Some w \<Rightarrow> copy_tags w nid_tags v (store v (Obj ?kvs2) h)) = Some (store v (Obj ?kvs3) h)"
    proof (cases "object_get_ex h nm nid")
      case None
      then show ?thesis using look by (simp add: nid_lookup_def)
    next
      case (Some w)
      then have "w \<noteq> v" by (rule assms(4))
      then show ?thesis
        using Some look assms(1) copy_tags_obj[of "store v (Obj ?kvs2) h" v ?kvs2 w nid_tags]
        by (simp add: nid_lookup_def)
    qed
    have t3: "map_of ?kvs3 ''target'' = map_of kvs ''target''"
      by (simp add: map_of_copied_other[OF target_not_nid_tag(1)] map_of_wildcards_other
          split: option.splits)
    have n3: "node_of (store v (Obj ?kvs3) h) v = Some (Obj ?kvs3)" using assms(1) by simp
    have fin: "(case object_get_ex (store v (Obj ?kvs3) h) v ''target'' of
          None \<Rightarrow> Some (store v (Obj ?kvs3) h)
        | Some tag \<Rightarrow> do {
            t \<leftarrow> get_string E (store v (Obj ?kvs3) h) tag;
            target \<leftarrow> strip_suffix8 (snprintf_s 32 t);
            object_add v ''fid'' (JString target) (store v (Obj ?kvs3) h)
          }) = Some (store v (Obj (tagged (nid_lookup h nm) server kvs)) h)"
    proof (cases "map_of kvs ''target''")
      case None
      then show ?thesis
        unfolding object_get_ex_obj[OF n3] t3 using nid t3
        by (simp add: tagged_def Let_def)
    next
      case (Some tg)
      then obtain t where t: "tg = JString t" "8 \<le> length t"
        using assms(2) nid by (auto simp: entry_ok_def split: jval.splits)
      then have "strip_suffix8 (snprintf_s 32 t) = Some (take (min 31 (length t) - 8) t)"
        by (auto simp: strip_suffix8_def snprintf_s_def min_def)
      then show ?thesis
        unfolding object_get_ex_obj[OF n3] t3 using nid t3 Some t assms(1)
        by (simp add: tagged_def Let_def get_string_def)
    qed
    show ?thesis
      using assms(1) nid copy fin
      by (simp add: tag_data_entry_def get_string_def wildcards_def[symmetric])
  qed
qed

section \<open>The pass over all hosts\<close>

definition elems :: "heap \<Rightarrow> jval \<Rightarrow> jval list" where
  "elems h e = (case object_get_ex h e ''data'' of
     None \<Rightarrow> [] | Some d \<Rightarrow> (case arr_of h d of None \<Rightarrow> [] | Some vs \<Rightarrow> vs))"

definition fields_at :: "heap \<Rightarrow> jval \<Rightarrow> (string \<times> jval) list" where
  "fields_at h v = (case obj_of h v of None \<Rightarrow> [] | Some kvs \<Rightarrow> kvs)"

definition data_ok :: "stats \<Rightarrow> bool" where
  "data_ok s \<longleftrightarrow>
    (\<forall>k e d. entry_of s k = Some e \<longrightarrow> object_get_ex (hp s) e ''data'' = Some d \<longrightarrow>
      (\<exists>vs. node_of (hp s) d = Some (Arr vs) \<and> distinct vs \<and>
        (\<forall>v \<in> set vs. outside s v \<and> is_obj (hp s) v \<and> entry_ok (fields_at (hp s) v)))) \<and>
    (\<forall>j k e e'. entry_of s j = Some e \<longrightarrow> entry_of s k = Some e' \<longrightarrow> j \<noteq> k \<longrightarrow>
      set (elems (hp s) e) \<inter> set (elems (hp s) e') = {})"

lemma fields_at_obj [simp]: "node_of h v = Some (Obj kvs) \<Longrightarrow> fields_at h v = kvs"
  by (simp add: fields_at_def)

lemma nid_lookup_rewrote:
  assumes "rewrote A G h h'" "nm \<notin> A" "\<And>n w. object_get_ex h nm n = Some w \<Longrightarrow> w \<notin> A"
  shows "nid_lookup h' nm = nid_lookup h nm"
proof
  fix n
  show "nid_lookup h' nm n = nid_lookup h nm n"
    using assms(3)[of n] rewrote_get_ex[OF assms(1)] assms(2)
    by (cases "object_get_ex h nm n") (auto simp: nid_lookup_def)
qed

lemma tag_array:
  fixes key :: string
  assumes "node_of h d = Some (Arr vs)" "distinct vs" "nm \<notin> set vs"
    and "\<And>n w. object_get_ex h nm n = Some w \<Longrightarrow> w \<notin> set vs"
    and "\<And>v. v \<in> set vs \<Longrightarrow> is_obj h v \<and> entry_ok (fields_at h v)"
  defines "G \<equiv> (\<lambda>v. Obj (tagged (nid_lookup h nm) key (fields_at h v)))"
  shows "ok (foldM (\<lambda>j h. do {
      data_entry \<leftarrow> array_get_idx h d j;
      tag_data_entry E nm key data_entry h
    }) [0..<length vs] h) (rewrote (set vs) G h)"
proof -
  have im: "(!) vs ` set [0..<length vs] = set vs" by (force simp: in_set_conv_nth)
  have "ok (foldM (\<lambda>j h. do {
      data_entry \<leftarrow> array_get_idx h d j;
      tag_data_entry E nm key data_entry h
    }) [0..<length vs] h) (rewrote ((!) vs ` set [0..<length vs]) G h)"
  proof (rule foldM_rewrote)
    show "distinct (map ((!) vs) [0..<length vs])" using assms(2) by (simp add: map_nth)
  next
    fix j h'
    assume j: "j \<in> set [0..<length vs]"
      and "\<exists>ys. set ys \<subseteq> set [0..<length vs] \<and> j \<notin> set ys \<and> rewrote ((!) vs ` set ys) G h h'"
      and same: "node_of h' (vs ! j) = node_of h (vs ! j)"
    then obtain ys where ys: "set ys \<subseteq> set [0..<length vs]" "rewrote ((!) vs ` set ys) G h h'" by blast
    let ?A = "(!) vs ` set ys"
    have A: "?A \<subseteq> set vs" using ys(1) by auto
    have v: "vs ! j \<in> set vs" using j by simp
    then obtain kvs where kvs: "node_of h (vs ! j) = Some (Obj kvs)" "entry_ok kvs"
      using assms(5) by (force simp: is_obj_def)
    have "d \<notin> ?A" using A assms(1,5) by (force simp: is_obj_def)
    then have d: "node_of h' d = Some (Arr vs)" using ys(2) assms(1) by (simp add: rewrote_def)
    have nm: "nm \<notin> ?A" using A assms(3) by auto
    have look: "nid_lookup h' nm = nid_lookup h nm"
      by (rule nid_lookup_rewrote[OF ys(2) nm]) (use assms(4) A in blast)
    have "tag_data_entry E nm key (vs ! j) h' =
        Some (store (vs ! j) (Obj (tagged (nid_lookup h' nm) key kvs)) h')"
    proof (rule tag_data_entry_eq)
      show "node_of h' (vs ! j) = Some (Obj kvs)" using same kvs(1) by simp
      show "vs ! j \<noteq> nm" using v assms(3) by auto
      show "w \<noteq> vs ! j" if "object_get_ex h' nm n = Some w" for n w
        using that assms(4) v rewrote_get_ex[OF ys(2) nm] by auto
    qed (rule kvs(2))
    then show "ok (array_get_idx h' d j \<bind> (\<lambda>data_entry. tag_data_entry E nm key data_entry h'))
        (rewrote {vs ! j} G h')"
      using d j kvs same look by (auto simp: G_def rewrote_def)
  qed
  then show ?thesis unfolding im .
qed

text \<open>The state after the hosts of \<open>ys\<close> have been tagged.\<close>

definition tagged_upto :: "stats \<Rightarrow> (string \<times> jval) list \<Rightarrow> heap \<Rightarrow> bool" where
  "tagged_upto s ys h \<longleftrightarrow> length h = length (hp s) \<and>
    (\<forall>(k, e) \<in> set ys. \<forall>v \<in> set (elems (hp s) e).
      node_of h v = Some (Obj (tagged (nid_lookup (hp s) (nid_map s)) k (fields_at (hp s) v)))) \<and>
    (\<forall>v. (\<forall>(k, e) \<in> set ys. v \<notin> set (elems (hp s) e)) \<longrightarrow> node_of h v = node_of (hp s) v)"


lemma data_okD:
  assumes "data_ok s" "entry_of s k = Some e"
  shows "object_get_ex (hp s) e ''data'' = Some d \<Longrightarrow> \<exists>vs. node_of (hp s) d = Some (Arr vs)"
    and "distinct (elems (hp s) e)"
    and "v \<in> set (elems (hp s) e) \<Longrightarrow> outside s v \<and> is_obj (hp s) v \<and> entry_ok (fields_at (hp s) v)"
    and "entry_of s j = Some e' \<Longrightarrow> j \<noteq> k \<Longrightarrow> set (elems (hp s) e') \<inter> set (elems (hp s) e) = {}"
proof -
  have 1: "\<exists>vs. node_of (hp s) d = Some (Arr vs) \<and> distinct vs \<and>
      (\<forall>v \<in> set vs. outside s v \<and> is_obj (hp s) v \<and> entry_ok (fields_at (hp s) v))"
    if "object_get_ex (hp s) e ''data'' = Some d" for d
    using assms that unfolding data_ok_def by blast
  show "object_get_ex (hp s) e ''data'' = Some d \<Longrightarrow> \<exists>vs. node_of (hp s) d = Some (Arr vs)"
    using 1 by blast
  have 2: "distinct (elems (hp s) e) \<and>
      (\<forall>v \<in> set (elems (hp s) e). outside s v \<and> is_obj (hp s) v \<and> entry_ok (fields_at (hp s) v))"
  proof (cases "object_get_ex (hp s) e ''data''")
    case None
    then show ?thesis by (simp add: elems_def)
  next
    case (Some d)
    with 1 show ?thesis by (fastforce simp: elems_def)
  qed
  then show "distinct (elems (hp s) e)" by simp
  show "outside s v \<and> is_obj (hp s) v \<and> entry_ok (fields_at (hp s) v)" if "v \<in> set (elems (hp s) e)"
    using 2 that by blast
  show "entry_of s j = Some e' \<Longrightarrow> j \<noteq> k \<Longrightarrow> set (elems (hp s) e') \<inter> set (elems (hp s) e) = {}"
    using assms unfolding data_ok_def by blast
qed

lemma tag_host_step:
  assumes s: "hosts_ok s" "data_ok s" and hm: "node_of (hp s) (host_map s) = Some (Obj hosts)"
    and split: "hosts = ys @ (k, e) # zs" and I: "tagged_upto s ys h"
  shows "ok (tag_host E (nid_map s) (k, e) h) (tagged_upto s (ys @ [(k, e)]))"
proof -
  let ?T = "\<lambda>k v. Obj (tagged (nid_lookup (hp s) (nid_map s)) k (fields_at (hp s) v))"
  have dist: "distinct (keys hosts)" by (rule hosts_okD(8)[OF s(1) hm])
  have ent: "entry_of s j = Some e'" if "(j, e') \<in> set hosts" for j e'
    using that dist hm by (simp add: entry_of_def)
  have ek: "entry_of s k = Some e" and eys: "\<And>j e'. (j, e') \<in> set ys \<Longrightarrow> entry_of s j = Some e' \<and> j \<noteq> k"
    using ent split dist by force+
  define A where "A = (\<Union>(j, e') \<in> set ys. set (elems (hp s) e'))"
  have notA: "node_of h v = node_of (hp s) v" if "v \<notin> A" for v
    using I that unfolding tagged_upto_def A_def by fastforce
  have A: "\<exists>j e'. (j, e') \<in> set ys \<and> v \<in> set (elems (hp s) e')" if "v \<in> A" for v
    using that unfolding A_def by auto
  have outA: "outside s v \<and> is_obj (hp s) v" if "v \<in> A" for v
    using A[OF that] eys data_okD(3)[OF s(2)] by blast
  have e_notA: "w \<notin> A" if "entry_of s j = Some w" for w j
    using that outA[of w] by (auto simp: outside_def)
  have nm_notA: "nid_map s \<notin> A" using outA by (auto simp: outside_def)
  have get: "object_get_ex h v = object_get_ex (hp s) v" if "v \<notin> A" for v
    using notA[OF that] by (simp add: object_get_ex_def obj_of_def fun_eq_iff)
  have nids: "\<exists>j. entry_of s j = Some w" if "object_get_ex (hp s) (nid_map s) n = Some w" for n w
    using that hosts_okD(7)[OF s(1)] by (auto simp: nid_entry_of_def)
  have look: "nid_lookup h (nid_map s) = nid_lookup (hp s) (nid_map s)"
    using get[OF nm_notA] get[OF e_notA] nids
    by (fastforce simp: nid_lookup_def fun_eq_iff map_option_case split: option.splits)
  have I': "tagged_upto s (ys @ [(k, e)]) h'"
    if r: "rewrote (set (elems (hp s) e)) (?T k) h h'" for h'
  proof -
    have dj: "v \<notin> set (elems (hp s) e)" if "(j, e') \<in> set ys" "v \<in> set (elems (hp s) e')" for j e' v
      using that eys data_okD(4)[OF s(2) ek] by blast
    show ?thesis
      using I r dj unfolding tagged_upto_def rewrote_def
      by (auto split: prod.splits)
  qed
  show ?thesis
  proof (cases "object_get_ex (hp s) e ''data''")
    case None
    then have "elems (hp s) e = []" by (simp add: elems_def)
    then have "tagged_upto s (ys @ [(k, e)]) h" by (intro I') (simp add: rewrote_def)
    with None show ?thesis using get[OF e_notA[OF ek]] by (simp add: tag_host_def)
  next
    case (Some d)
    then obtain vs where vs: "node_of (hp s) d = Some (Arr vs)"
      using data_okD(1)[OF s(2) ek] by blast
    then have el: "elems (hp s) e = vs" using Some by (simp add: elems_def)
    have "d \<notin> A" using outA[of d] vs by (auto simp: is_obj_def)
    then have d: "node_of h d = Some (Arr vs)" using notA vs by simp
    have vsA: "v \<notin> A" if "v \<in> set vs" for v
      using that A[of v] eys el data_okD(4)[OF s(2) ek] by blast
    have sameN: "node_of h v = node_of (hp s) v" if "v \<in> set vs" for v
      using notA vsA that by blast
    have f: "fields_at h v = fields_at (hp s) v" if "v \<in> set vs" for v
      using sameN[OF that] by (simp add: fields_at_def obj_of_def)
    note vok = data_okD(3)[OF s(2) ek, unfolded el]
    have "ok (foldM (\<lambda>j h. do {
        data_entry \<leftarrow> array_get_idx h d j;
        tag_data_entry E (nid_map s) k data_entry h
      }) [0..<length vs] h)
      (rewrote (set vs) (\<lambda>v. Obj (tagged (nid_lookup h (nid_map s)) k (fields_at h v))) h)"
    proof (rule tag_array[OF d])
      show "distinct vs" using data_okD(2)[OF s(2) ek] el by simp
      show "nid_map s \<notin> set vs" using vok by (auto simp: outside_def)
      show "w \<notin> set vs" if "object_get_ex h (nid_map s) n = Some w" for n w
        using that get[OF nm_notA] nids vok by (fastforce simp: outside_def)
      show "is_obj h v \<and> entry_ok (fields_at h v)" if "v \<in> set vs" for v
        using vok[OF that] sameN[OF that] f[OF that] by (simp add: is_obj_def)
    qed
    then have "ok (tag_host E (nid_map s) (k, e) h)
      (rewrote (set vs) (\<lambda>v. Obj (tagged (nid_lookup h (nid_map s)) k (fields_at h v))) h)"
      using Some get[OF e_notA[OF ek]] d by (simp add: tag_host_def)
    then show ?thesis
    proof (rule ok_mono)
      fix h' assume "rewrote (set vs) (\<lambda>v. Obj (tagged (nid_lookup h (nid_map s)) k (fields_at h v))) h h'"
      then have "rewrote (set vs) (?T k) h h'"
        by (rule rewrote_cong) (simp add: look f)
      then show "tagged_upto s (ys @ [(k, e)]) h'" by (intro I') (simp add: el)
    qed
  qed
qed

lemma tag_stats_spec:
  assumes "hosts_ok s" "data_ok s" "node_of (hp s) (host_map s) = Some (Obj hosts)"
  shows "ok (tag_stats E s) (\<lambda>s'. \<exists>h. s' = s\<lparr>hp := h\<rparr> \<and> tagged_upto s hosts h)"
proof -
  have "ok (foldM (tag_host E (nid_map s)) hosts (hp s)) (tagged_upto s hosts)"
  proof (rule ok_foldM)
    show "tagged_upto s [] (hp s)" by (simp add: tagged_upto_def)
    fix ys x zs h assume *: "hosts = ys @ x # zs" "tagged_upto s ys h"
    obtain k e where x: "x = (k, e)" by (cases x)
    show "ok (tag_host E (nid_map s) x h) (tagged_upto s (ys @ [x]))"
      using tag_host_step[OF assms, of ys k e zs h E] * x by simp
  qed
  then show ?thesis using assms(3) by (auto simp: tag_stats_def elim!: okE)
qed
text \<open>A server with one export of a registered client, for the witnesses.\<close>

definition sample_export :: "(string \<times> jval) list" where
  "sample_export = [(''stats_type'', JString ''oss''), (''target'', JString ''work-OST0000''),
    (''client_nid'', JString ''1@o2ib''), (''stats'', JRef 7)]"

definition sample_tagging :: stats where
  "sample_tagging = \<lparr>
    hp = [Obj [(''oss0'', JRef 5), (''c1'', JRef 6)], Obj [(''1@o2ib'', JRef 6)], Obj [], Obj [], Obj [],
      Obj [(''hid'', JString ''oss0''), (''data'', JRef 9)],
      Obj [(''hid'', JString ''c1''), (''jid'', JString ''101'')],
      Obj [(''read'', JInt 3)], Obj sample_export, Arr [JRef 8]],
    host_map = JRef 0, nid_map = JRef 1, server_tag_rate_map = JRef 2, group_tags = JRef 3,
    screen_map = JRef 4\<rparr>"

lemma sample_tagging_entries:
  "entry_of sample_tagging k = (if k = ''oss0'' then Some (JRef 5) else if k = ''c1'' then Some (JRef 6) else None)"
  "nid_entry_of sample_tagging k = (if k = ''1@o2ib'' then Some (JRef 6) else None)"
  by (simp_all add: entry_of_def nid_entry_of_def sample_tagging_def object_get_ex_def obj_of_def node_of_def)

lemma sample_tagging_nodes:
  "object_get_ex (hp sample_tagging) (JRef 5) ''data'' = Some (JRef 9)"
  "object_get_ex (hp sample_tagging) (JRef 6) ''data'' = None"
  "node_of (hp sample_tagging) (JRef 9) = Some (Arr [JRef 8])"
  "node_of (hp sample_tagging) (JRef 8) = Some (Obj sample_export)"
  "elems (hp sample_tagging) (JRef 5) = [JRef 8]" "elems (hp sample_tagging) (JRef 6) = []"
  by (simp_all add: sample_tagging_def object_get_ex_def obj_of_def node_of_def elems_def arr_of_def)

lemma sample_tagging_ok: "hosts_ok sample_tagging" "data_ok sample_tagging"
proof -
  show "hosts_ok sample_tagging"
    unfolding hosts_ok_def sample_tagging_entries
    by (auto simp: sample_tagging_def is_obj_def node_of_def split: if_splits)
  have "entry_ok sample_export" by (simp add: entry_ok_def sample_export_def)
  then show "data_ok sample_tagging"
    unfolding data_ok_def sample_tagging_entries
    by (auto simp: sample_tagging_nodes is_obj_def outside_def sample_tagging_entries
        split: if_splits) (simp_all add: sample_tagging_def)
qed



section \<open>Properties\<close>

text \<open>The value a registered nid gives to a tag, with the default of an unregistered one.\<close>

definition nid_tag :: "stats \<Rightarrow> string \<Rightarrow> string \<Rightarrow> jval \<Rightarrow> jval" where
  "nid_tag s nid k dflt =
    (case nid_entry_of s nid of
       None \<Rightarrow> dflt
     | Some w \<Rightarrow> (case object_get_ex (hp s) w k of None \<Rightarrow> dflt | Some x \<Rightarrow> x))"

definition tag_default :: "string \<Rightarrow> string \<Rightarrow> jval" where
  "tag_default nid k' = (if k' = ''client'' then JString nid else JString ''*'')"

lemma map_of_tagged_other:
  assumes "k \<notin> {''server'', ''client'', ''system'', ''jid'', ''uid'', ''fid''}"
  shows "map_of (tagged nids server kvs) k = map_of kvs k"
proof -
  have "k \<notin> snd ` set nid_tags" using assms by (auto simp: nid_tags_def)
  with assms show ?thesis
    by (auto simp: tagged_def Let_def map_of_copied_other map_of_wildcards_other
        split: option.splits jval.splits)
qed

lemma map_of_tagged_server: "map_of (tagged nids server kvs) ''server'' = Some (JString server)"
proof -
  have "''server'' \<notin> snd ` set nid_tags" by (simp add: nid_tags_def)
  then show ?thesis
    by (auto simp: tagged_def Let_def map_of_copied_other map_of_wildcards_other
        split: option.splits jval.splits)
qed

lemma map_of_wildcards_tag:
  "(k, k') \<in> set nid_tags \<Longrightarrow> map_of (wildcards (JString nid) kvs) k' = Some (tag_default nid k')"
  by (auto simp: nid_tags_def wildcards_def tag_default_def)

lemma nid_tags_targets: "(k, k') \<in> set nid_tags \<Longrightarrow> k' \<noteq> ''fid''" "distinct (map snd nid_tags)"
  by (auto simp: nid_tags_def)

lemma map_of_tagged_tag:
  assumes "(k, k') \<in> set nid_tags" "map_of kvs ''client_nid'' = Some (JString nid)"
  shows "map_of (tagged nids server kvs) k' = Some (case nids nid of
    None \<Rightarrow> tag_default nid k'
  | Some get \<Rightarrow> (case get k of None \<Rightarrow> tag_default nid k' | Some x \<Rightarrow> x))"
  using assms nid_tags_targets(1)[OF assms(1)]
  by (auto simp: tagged_def Let_def map_of_wildcards_tag map_of_copied[OF assms(1) nid_tags_targets(2)]
      split: option.splits jval.splits)

lemma map_of_tagged_fid:
  assumes "map_of kvs ''client_nid'' = Some (JString nid)" "map_of kvs ''target'' = Some (JString t)"
  shows "map_of (tagged nids server kvs) ''fid'' = Some (JString (take (min 31 (length t) - 8) t))"
proof -
  have "''target'' \<notin> snd ` set nid_tags" by (simp add: nid_tags_def)
  then show ?thesis
    using assms by (auto simp: tagged_def Let_def map_of_copied_other map_of_wildcards_other
        split: option.splits)
qed

lemma entry_ok_tagged: "entry_ok kvs \<Longrightarrow> entry_ok (tagged nids server kvs)"
proof -
  have eq: "map_of (tagged nids server kvs) ''client_nid'' = map_of kvs ''client_nid''"
    "map_of (tagged nids server kvs) ''target'' = map_of kvs ''target''"
    by (simp_all add: map_of_tagged_other)
  show "entry_ok kvs \<Longrightarrow> entry_ok (tagged nids server kvs)" unfolding entry_ok_def eq .
qed

lemma nid_lookup_tag:
  "(case nid_lookup (hp s) (nid_map s) nid of
      None \<Rightarrow> dflt | Some get \<Rightarrow> (case get k of None \<Rightarrow> dflt | Some x \<Rightarrow> x)) = nid_tag s nid k dflt"
  by (simp add: nid_lookup_def nid_tag_def nid_entry_of_def split: option.splits)

lemma tagged_upto_unfold:
  assumes "hosts_ok s" "node_of (hp s) (host_map s) = Some (Obj hosts)" "tagged_upto s hosts h"
  shows "entry_of s k = Some e \<Longrightarrow> v \<in> set (elems (hp s) e) \<Longrightarrow>
      node_of h v = Some (Obj (tagged (nid_lookup (hp s) (nid_map s)) k (fields_at (hp s) v)))"
    and "(\<And>k e. entry_of s k = Some e \<Longrightarrow> v \<notin> set (elems (hp s) e)) \<Longrightarrow> node_of h v = node_of (hp s) v"
proof -
  have ent: "entry_of s k = Some e \<longleftrightarrow> (k, e) \<in> set hosts" for k e
    using hosts_okD(8)[OF assms(1,2)] assms(2) by (simp add: entry_of_def)
  show "entry_of s k = Some e \<Longrightarrow> v \<in> set (elems (hp s) e) \<Longrightarrow>
      node_of h v = Some (Obj (tagged (nid_lookup (hp s) (nid_map s)) k (fields_at (hp s) v)))"
    using assms(3) ent unfolding tagged_upto_def by blast
  show "(\<And>k e. entry_of s k = Some e \<Longrightarrow> v \<notin> set (elems (hp s) e)) \<Longrightarrow> node_of h v = node_of (hp s) v"
    using assms(3) ent unfolding tagged_upto_def by blast
qed

text \<open>C12. The tagging pass is defined on well-typed data, and afterwards every export of every server
  carries the server, and the client, system, job and user of its nid (or the nid itself and
  wildcards when the nid is not registered); its file system is the target's name less its
  eight-character suffix (of the first 31 characters).\<close>

theorem tag_stats_tags:
  assumes "hosts_ok s" and "data_ok s"
  shows "\<exists>s'. tag_stats E s = Some s' \<and>
    (\<forall>k e v. entry_of s k = Some e \<longrightarrow> v \<in> set (elems (hp s) e) \<longrightarrow>
      object_get_ex (hp s') v ''server'' = Some (JString k) \<and>
      (\<forall>nid. object_get_ex (hp s) v ''client_nid'' = Some (JString nid) \<longrightarrow>
        (\<forall>(j, j') \<in> set nid_tags.
          object_get_ex (hp s') v j' = Some (nid_tag s nid j (tag_default nid j'))) \<and>
        (\<forall>t. object_get_ex (hp s) v ''target'' = Some (JString t) \<longrightarrow>
          object_get_ex (hp s') v ''fid'' = Some (JString (take (min 31 (length t) - 8) t)))))"
proof -
  obtain hosts where hm: "node_of (hp s) (host_map s) = Some (Obj hosts)"
    using hosts_okD(1)[OF assms(1)] by blast
  obtain h where h: "tag_stats E s = Some (s\<lparr>hp := h\<rparr>)" "tagged_upto s hosts h"
    using tag_stats_spec[OF assms hm, of E] by (auto elim: okE)
  note unf = tagged_upto_unfold(1)[OF assms(1) hm h(2)]
  have kvs: "\<exists>kvs. node_of (hp s) v = Some (Obj kvs)" if "entry_of s k = Some e" "v \<in> set (elems (hp s) e)" for k e v
    using data_okD(3)[OF assms(2) that] by (auto simp: is_obj_def)
  show ?thesis
    by (rule exI[of _ "s\<lparr>hp := h\<rparr>"])
      (use h unf kvs in \<open>fastforce simp: map_of_tagged_server map_of_tagged_tag map_of_tagged_fid nid_lookup_tag\<close>)
qed

theorem tag_stats_tags_witness:
  "\<exists>s'. tag_stats plain_env sample_tagging = Some s' \<and>
    object_get_ex (hp s') (JRef 8) ''jid'' = Some (JString ''101'') \<and>
    object_get_ex (hp s') (JRef 8) ''fid'' = Some (JString ''work'')"
proof -
  have e: "entry_of sample_tagging ''oss0'' = Some (JRef 5)" by (simp add: sample_tagging_entries)
  have v: "JRef 8 \<in> set (elems (hp sample_tagging) (JRef 5))" by (simp add: sample_tagging_nodes)
  have n: "object_get_ex (hp sample_tagging) (JRef 8) ''client_nid'' = Some (JString ''1@o2ib'')"
    "object_get_ex (hp sample_tagging) (JRef 8) ''target'' = Some (JString ''work-OST0000'')"
    by (simp_all add: sample_tagging_nodes sample_export_def)
  have j: "(''jid'', ''jid'') \<in> set nid_tags" by (simp add: nid_tags_def)
  have d: "nid_tag sample_tagging ''1@o2ib'' ''jid'' x = JString ''101''" for x
    by (simp add: nid_tag_def sample_tagging_entries) (simp add: sample_tagging_def object_get_ex_def obj_of_def node_of_def)
  from tag_stats_tags[OF sample_tagging_ok, of plain_env] e v n obtain s' where
    "tag_stats plain_env sample_tagging = Some s'"
    "\<forall>(j, j') \<in> set nid_tags. object_get_ex (hp s') (JRef 8) j' =
      Some (nid_tag sample_tagging ''1@o2ib'' j (tag_default ''1@o2ib'' j'))"
    "object_get_ex (hp s') (JRef 8) ''fid'' =
      Some (JString (take (min 31 (length ''work-OST0000'') - 8) ''work-OST0000''))"
    by blast
  with j d show ?thesis by fastforce
qed

text \<open>Tagging is confined to the reported data: the maps, the host entries and every other object are
  untouched, the counters of an entry are untouched, and the invariants the pass relies on
  hold again, so it can run at every tick of the timer.\<close>

theorem tag_stats_frame:
  assumes "hosts_ok s" and "data_ok s" and "tag_stats E s = Some s'"
  shows "hosts_ok s' \<and> data_ok s' \<and> entry_of s' = entry_of s \<and> nid_entry_of s' = nid_entry_of s \<and>
    (\<forall>v. (\<forall>k e. entry_of s k = Some e \<longrightarrow> v \<notin> set (elems (hp s) e)) \<longrightarrow>
      node_of (hp s') v = node_of (hp s) v) \<and>
    (\<forall>v. object_get_ex (hp s') v ''stats'' = object_get_ex (hp s) v ''stats'')"
proof -
  obtain hosts where hm: "node_of (hp s) (host_map s) = Some (Obj hosts)"
    using hosts_okD(1)[OF assms(1)] by blast
  obtain h where s': "s' = s\<lparr>hp := h\<rparr>" "tagged_upto s hosts h"
    using tag_stats_spec[OF assms(1,2) hm, of E] assms(3) by (auto elim: okE)
  note tg = tagged_upto_unfold(1)[OF assms(1) hm s'(2)] and same = tagged_upto_unfold(2)[OF assms(1) hm s'(2)]
  have same': "node_of h v = node_of (hp s) v" if "\<not> outside s v" for v
    by (rule same) (use that data_okD(3)[OF assms(2)] in blast)
  have get': "object_get_ex h v = object_get_ex (hp s) v" if "\<not> outside s v" for v
    using same'[OF that] by (simp add: object_get_ex_def obj_of_def fun_eq_iff)
  have 1: "entry_of s' = entry_of s" and 2: "nid_entry_of s' = nid_entry_of s"
    using get' by (auto simp: s'(1) entry_of_def nid_entry_of_def outside_def)
  have kind: "(\<exists>kvs. node_of h v = Some (Obj kvs)) \<longleftrightarrow> (\<exists>kvs. node_of (hp s) v = Some (Obj kvs))"
    and arr: "node_of h v = Some (Arr vs) \<longleftrightarrow> node_of (hp s) v = Some (Arr vs)" for v vs
  proof -
    consider (el) k e where "entry_of s k = Some e" "v \<in> set (elems (hp s) e)"
      | (no) "\<And>k e. entry_of s k = Some e \<Longrightarrow> v \<notin> set (elems (hp s) e)" by blast
    then have "((\<exists>kvs. node_of h v = Some (Obj kvs)) \<longleftrightarrow> (\<exists>kvs. node_of (hp s) v = Some (Obj kvs))) \<and>
        (node_of h v = Some (Arr vs) \<longleftrightarrow> node_of (hp s) v = Some (Arr vs))"
    proof cases
      case el
      with tg[OF el] data_okD(3)[OF assms(2) el] show ?thesis by (auto simp: is_obj_def)
    next
      case no
      with same show ?thesis by simp
    qed
    then show "(\<exists>kvs. node_of h v = Some (Obj kvs)) \<longleftrightarrow> (\<exists>kvs. node_of (hp s) v = Some (Obj kvs))"
      and "node_of h v = Some (Arr vs) \<longleftrightarrow> node_of (hp s) v = Some (Arr vs)" by auto
  qed
  have obj: "is_obj (hp s') v = is_obj (hp s) v" for v using kind by (simp add: is_obj_def s'(1))
  have maps: "host_map s' = host_map s" "nid_map s' = nid_map s" by (simp_all add: s'(1))
  have out: "outside s' v = outside s v" for v by (simp add: outside_def 1 maps)
  have hm': "node_of (hp s') (host_map s) = node_of (hp s) (host_map s)"
    using same'[of "host_map s"] by (simp add: outside_def s'(1))
  have ok': "hosts_ok s'"
    using assms(1) unfolding hosts_ok_def 1 2 maps obj hm' by simp
  have el': "elems (hp s') e = elems (hp s) e" if "entry_of s k = Some e" for k e
  proof -
    have "\<not> outside s e" using that by (auto simp: outside_def)
    then have "object_get_ex h e = object_get_ex (hp s) e" by (rule get')
    moreover have "arr_of h d = arr_of (hp s) d" for d
      using arr[of d] by (metis arr_of_iff not_None_eq)
    ultimately show ?thesis by (simp add: elems_def s'(1) split: option.split)
  qed
  have fld: "entry_ok (fields_at (hp s') v)" if "entry_of s k = Some e" "v \<in> set (elems (hp s) e)" for k e v
    using tg[OF that] data_okD(3)[OF assms(2) that] by (simp add: s'(1) entry_ok_tagged)
  have "\<exists>vs. node_of (hp s') d = Some (Arr vs) \<and> distinct vs \<and>
      (\<forall>v \<in> set vs. outside s' v \<and> is_obj (hp s') v \<and> entry_ok (fields_at (hp s') v))"
    if e: "entry_of s k = Some e" and d: "object_get_ex (hp s') e ''data'' = Some d" for k e d
  proof -
    have "\<not> outside s e" using e by (auto simp: outside_def)
    then have d0: "object_get_ex (hp s) e ''data'' = Some d" using get' d by (simp add: s'(1))
    then obtain vs where vs: "node_of (hp s) d = Some (Arr vs)" using data_okD(1)[OF assms(2) e] by blast
    with d0 have "elems (hp s) e = vs" by (simp add: elems_def)
    moreover have "node_of (hp s') d = Some (Arr vs)" using vs arr[of d vs] by (simp add: s'(1))
    ultimately show ?thesis using data_okD(2,3)[OF assms(2) e] fld[OF e] by (auto simp: out obj)
  qed
  moreover have "set (elems (hp s') e) \<inter> set (elems (hp s') e') = {}"
    if "entry_of s j = Some e" "entry_of s k = Some e'" "j \<noteq> k" for j k e e'
    using data_okD(4)[OF assms(2) that(2,1,3)] el'[OF that(1)] el'[OF that(2)] by simp
  ultimately have "data_ok s'" unfolding data_ok_def 1 by blast
  moreover have "object_get_ex h v ''stats'' = object_get_ex (hp s) v ''stats''" for v
  proof -
    consider (el) k e where "entry_of s k = Some e" "v \<in> set (elems (hp s) e)"
      | (no) "\<And>k e. entry_of s k = Some e \<Longrightarrow> v \<notin> set (elems (hp s) e)" by blast
    then show ?thesis
    proof cases
      case el
      with tg[OF el] data_okD(3)[OF assms(2) el] show ?thesis
        by (auto simp: is_obj_def map_of_tagged_other)
    next
      case no
      with same[of v] show ?thesis by (simp add: object_get_ex_def obj_of_def)
    qed
  qed
  ultimately show ?thesis using ok' 1 2 same by (simp add: s'(1))
qed

theorem tag_stats_frame_witness:
  "\<exists>s'. tag_stats plain_env sample_tagging = Some s' \<and> hosts_ok s' \<and> data_ok s'"
proof -
  have "tag_stats plain_env sample_tagging \<noteq> None" by code_simp
  then obtain s' where "tag_stats plain_env sample_tagging = Some s'" by blast
  with tag_stats_frame[OF sample_tagging_ok this] show ?thesis by blast
qed

text \<open>The suffix of the target name is cut without looking at its length: tagging an export whose
  target name is shorter than eight characters writes before the buffer.\<close>

theorem short_target_undefined:
  assumes "node_of h v = Some (Obj kvs)" and "v \<noteq> nm"
    and "\<And>n w. object_get_ex h nm n = Some w \<Longrightarrow> w \<noteq> v"
    and "map_of kvs ''client_nid'' = Some (JString nid)"
    and "map_of kvs ''target'' = Some (JString t)" and "length t < 8"
  shows "tag_data_entry E nm server v h = None"
proof -
  let ?kvs2 = "wildcards (JString nid) (AList.update ''server'' (JString server) kvs)"
  let ?h = "store v (Obj ?kvs2) h"
  have tgt: "map_of (copied get nid_tags ?kvs2) ''target'' = Some (JString t)" for get
    using assms(5) target_not_nid_tag(1) by (simp add: map_of_copied_other map_of_wildcards_other)
  have cut: "strip_suffix8 (snprintf_s 32 t) = None"
    using assms(6) by (simp add: strip_suffix8_def)
  show ?thesis
  proof (cases "object_get_ex h nm nid")
    case None
    then show ?thesis
      using assms(1,2,4,5) cut
      by (simp add: tag_data_entry_def get_string_def wildcards_def[symmetric] map_of_wildcards_other)
  next
    case (Some w)
    then have "w \<noteq> v" by (rule assms(3))
    then have "copy_tags w nid_tags v ?h =
        Some (store v (Obj (copied (object_get_ex ?h w) nid_tags ?kvs2)) ?h)"
      using assms(1) by (intro copy_tags_obj) simp_all
    with Some show ?thesis
      using assms(1,2,4) cut tgt
      by (simp add: tag_data_entry_def get_string_def wildcards_def[symmetric])
  qed
qed

theorem short_target_undefined_witness:
  "tag_data_entry plain_env (JRef 0) ''oss0'' (JRef 1)
    [Obj [], Obj [(''client_nid'', JString ''n''), (''target'', JString ''T0'')]] = None"
  by (rule short_target_undefined[where t = "''T0''" and nid = "''n''"])
    (auto simp: node_of_def object_get_ex_def obj_of_def)

end
