(* ===== verification/Rates.thy ===== *)
theory Rates
  imports TagStats
begin

text \<open>
  \<open>calc_rates\<close> of \<open>server/stats.c\<close>: from the counters of two successive reports of a server to
  rates.  Entries are matched by nid, target and type of statistics (or as the cpu entry of the server);
  an event's rate is its increase over the interval, zero if the counter went back or was not
  reported before.

  \<open>calc_rates_spec\<close> is the functional specification: the rate array holds, in the order of the new
  report, one entry per matched entry, made of fresh objects only.
\<close>

section \<open>The code\<close>

definition client_tags :: "(string \<times> string) list" where
  "client_tags = [(''client_nid'', ''client_nid''), (''client'', ''client''), (''system'', ''system''),
    (''jid'', ''jid''), (''uid'', ''uid''), (''fid'', ''fid'')]"

text \<open>The key of the map of old values: nid, target and type, cut to 255 characters.\<close>

definition stat_key :: "string \<Rightarrow> string \<Rightarrow> string \<Rightarrow> string" where
  "stat_key nid target ty = snprintf_s 256 (nid @ ''_'' @ target @ ''_'' @ ty)"

definition add_old_entry :: "env \<Rightarrow> jval \<Rightarrow> jval \<Rightarrow> heap \<Rightarrow> heap option" where
  "add_old_entry E omap ode h =
    (case object_get_ex h ode ''stats_type'' of
       None \<Rightarrow> Some h
     | Some ostats_type \<Rightarrow>
         (case object_get_ex h ode ''stats'' of
            None \<Rightarrow> Some h
          | Some ostats \<Rightarrow> do {
              ty \<leftarrow> get_string E h ostats_type;
              if ty = ''cpu'' then object_add omap ''cpu'' ostats h
              else
                (case object_get_ex h ode ''client_nid'' of
                   None \<Rightarrow> Some h
                 | Some onid \<Rightarrow>
                     (case object_get_ex h ode ''target'' of
                        None \<Rightarrow> Some h
                      | Some otarget \<Rightarrow> do {
                          n \<leftarrow> get_string E h onid;
                          t \<leftarrow> get_string E h otarget;
                          object_add omap (stat_key n t ty) ostats h
                        }))
            }))"

text \<open>The old values of a new entry; \<open>Some None\<close> is a \<open>continue\<close> of the loop.\<close>

definition find_old :: "env \<Rightarrow> jval \<Rightarrow> jval \<Rightarrow> string \<Rightarrow> heap \<Rightarrow> jval option option" where
  "find_old E omap nde ty h =
    (if ty = ''cpu'' then Some (object_get_ex h omap ''cpu'')
     else
       (case object_get_ex h nde ''client_nid'' of
          None \<Rightarrow> Some None
        | Some nnid \<Rightarrow>
            (case object_get_ex h nde ''target'' of
               None \<Rightarrow> Some None
             | Some ntarget \<Rightarrow> do {
                 n \<leftarrow> get_string E h nnid;
                 t \<leftarrow> get_string E h ntarget;
                 Some (object_get_ex h omap (stat_key n t ty))
               })))"

text \<open>The difference of two counters is taken in 64-bit arithmetic and then converted.\<close>

definition event_rate :: "env \<Rightarrow> double \<Rightarrow> jval \<Rightarrow> jval option \<Rightarrow> double" where
  "event_rate E idt nvalue ovalue =
    (let delta = (case ovalue of
         None \<Rightarrow> 0
       | Some ov \<Rightarrow> fl E (rat_of_int (sint (get_int64 E nvalue - get_int64 E ov))));
       delta' = (if delta < 0 then 0 else delta)
     in fl E (delta' * idt))"

definition add_rate_entry :: "env \<Rightarrow> jval \<Rightarrow> double \<Rightarrow> jval \<Rightarrow> jval \<Rightarrow> heap \<Rightarrow> heap option" where
  "add_rate_entry E omap idt rate_array nde h =
    (case object_get_ex h nde ''stats_type'' of
       None \<Rightarrow> Some h
     | Some nstats_type \<Rightarrow> do {
         ty \<leftarrow> get_string E h nstats_type;
         old \<leftarrow> find_old E omap nde ty h;
         (case old of
            None \<Rightarrow> Some h
          | Some ostats \<Rightarrow>
              (case object_get_ex h nde ''stats'' of
                 None \<Rightarrow> Some h
               | Some nstats \<Rightarrow>
                   (let (rates, h1) = new_object h in do {
                      events \<leftarrow> object_foreach h1 nstats;
                      h2 \<leftarrow> foldM (\<lambda>(event, nvalue) h.
                          object_add rates event
                            (JDouble (event_rate E idt nvalue (object_get_ex h ostats event))) h) events h1;
                      let (rate_de, h3) = new_object h2;
                      h4 \<leftarrow> object_add rate_de ''stats'' rates h3;
                      h5 \<leftarrow> object_add rate_de ''stats_type'' nstats_type h4;
                      h6 \<leftarrow> copy_tags nde [(''server'', ''server'')] rate_de h5;
                      h7 \<leftarrow> (if ty \<noteq> ''cpu'' then copy_tags nde client_tags rate_de h6 else Some h6);
                      array_add rate_array rate_de h7
                    })))
       })"

definition calc_rates :: "env \<Rightarrow> jval \<Rightarrow> jval \<Rightarrow> jval \<Rightarrow> double \<Rightarrow> heap \<Rightarrow> heap option" where
  "calc_rates E rate_array nda oda idt h = do {
     nlen \<leftarrow> array_length h nda;
     olen \<leftarrow> array_length h oda;
     let (omap, h1) = new_object h;
     h2 \<leftarrow> foldM (\<lambda>j h. do {
         ode \<leftarrow> array_get_idx h oda j;
         add_old_entry E omap ode h
       }) [0..<olen] h1;
     foldM (\<lambda>i h. do {
         nde \<leftarrow> array_get_idx h nda i;
         add_rate_entry E omap idt rate_array nde h
       }) [0..<nlen] h2
   }"

section \<open>The specification\<close>

text \<open>Well-typed entries: type, nid and target are strings, and statistics are an object.\<close>

definition stat_entry_ok :: "heap \<Rightarrow> jval \<Rightarrow> bool" where
  "stat_entry_ok h v \<longleftrightarrow>
    (\<forall>k \<in> {''stats_type'', ''client_nid'', ''target''}. \<forall>x.
      object_get_ex h v k = Some x \<longrightarrow> (\<exists>s. x = JString s)) \<and>
    (\<forall>x. object_get_ex h v ''stats'' = Some x \<longrightarrow> is_obj h x) \<and> settled h v"

definition entry_key :: "heap \<Rightarrow> jval \<Rightarrow> string option" where
  "entry_key h v =
    (case object_get_ex h v ''stats_type'' of
       Some (JString ty) \<Rightarrow>
         if ty = ''cpu'' then Some ''cpu''
         else (case (object_get_ex h v ''client_nid'', object_get_ex h v ''target'') of
                 (Some (JString n), Some (JString t)) \<Rightarrow> Some (stat_key n t ty)
               | _ \<Rightarrow> None)
     | _ \<Rightarrow> None)"

definition old_step :: "heap \<Rightarrow> jval \<Rightarrow> (string \<times> jval) list \<Rightarrow> (string \<times> jval) list" where
  "old_step h ode m =
    (case (entry_key h ode, object_get_ex h ode ''stats'') of
       (Some k, Some st) \<Rightarrow> AList.update k st m
     | _ \<Rightarrow> m)"

definition old_map :: "heap \<Rightarrow> jval list \<Rightarrow> (string \<times> jval) list" where
  "old_map h odes = fold (old_step h) odes []"

definition event_rates ::
    "env \<Rightarrow> double \<Rightarrow> (string \<Rightarrow> jval option) \<Rightarrow> (string \<times> jval) list \<Rightarrow> (string \<times> jval) list \<Rightarrow> (string \<times> jval) list" where
  "event_rates E idt old events kvs =
    fold (\<lambda>(event, nvalue). AList.update event (JDouble (event_rate E idt nvalue (old event)))) events kvs"

definition rate_tags :: "heap \<Rightarrow> jval \<Rightarrow> (string \<times> jval) list" where
  "rate_tags h nde =
    (case object_get_ex h nde ''stats_type'' of
       None \<Rightarrow> []
     | Some ty \<Rightarrow>
         (let tg = copied (object_get_ex h nde) [(''server'', ''server'')] [(''stats_type'', ty)]
          in if ty = JString ''cpu'' then tg else copied (object_get_ex h nde) client_tags tg))"

definition rate_spec :: "env \<Rightarrow> double \<Rightarrow> heap \<Rightarrow> (string \<times> jval) list \<Rightarrow> jval \<Rightarrow>
    ((string \<times> jval) list \<times> (string \<times> jval) list) option" where
  "rate_spec E idt h om nde =
    (case entry_key h nde of
       None \<Rightarrow> None
     | Some k \<Rightarrow>
         (case (map_of om k, object_get_ex h nde ''stats'') of
            (Some ostats, Some nstats) \<Rightarrow>
              Some (rate_tags h nde,
                event_rates E idt (object_get_ex h ostats) (fields_at h nstats) [])
          | _ \<Rightarrow> None))"

lemma event_rates_distinct:
  assumes "distinct (keys (kvs @ events))"
  shows "event_rates E idt old events kvs =
    kvs @ map (\<lambda>(event, nvalue). (event, JDouble (event_rate E idt nvalue (old event)))) events"
  using assms
proof (induction events arbitrary: kvs)
  case Nil
  then show ?case by (simp add: event_rates_def)
next
  case (Cons p events)
  obtain event nvalue where p: "p = (event, nvalue)" by (cases p)
  have "event \<notin> set (keys kvs)" using Cons.prems p by auto
  then have "event_rates E idt old (p # events) kvs =
      event_rates E idt old events (kvs @ [(event, JDouble (event_rate E idt nvalue (old event)))])"
    by (simp add: event_rates_def p)
  also have "\<dots> = kvs @ map (\<lambda>(event, nvalue). (event, JDouble (event_rate E idt nvalue (old event)))) (p # events)"
    using Cons.IH[of "kvs @ [(event, JDouble (event_rate E idt nvalue (old event)))]"] Cons.prems p by simp
  finally show ?case .
qed

section \<open>The loop over the old report\<close>

lemma get_string_JString [simp]: "get_string E h (JString s) = Some s"
  by (simp add: get_string_def)

lemma add_old_entry_eq:
  assumes "node_of h omap = Some (Obj m)" "stat_entry_ok h ode"
  shows "add_old_entry E omap ode h = Some (store omap (Obj (old_step h ode m)) h)"
proof -
  have str: "\<exists>s. x = JString s" if "object_get_ex h ode k = Some x"
    "k \<in> {''stats_type'', ''client_nid'', ''target''}" for k x
    using assms(2) that by (auto simp: stat_entry_ok_def)
  have same: "store omap (Obj m) h = h" by (rule store_same[OF assms(1)])
  show ?thesis
  proof (cases "object_get_ex h ode ''stats_type''")
    case None
    with same show ?thesis by (simp add: add_old_entry_def old_step_def entry_key_def)
  next
    case (Some x)
    then obtain ty where ty: "object_get_ex h ode ''stats_type'' = Some (JString ty)" using str by blast
    show ?thesis
    proof (cases "object_get_ex h ode ''stats''")
      case None
      with ty same show ?thesis
        by (simp add: add_old_entry_def old_step_def split: option.split)
    next
      case (Some st)
      show ?thesis
      proof (cases "ty = ''cpu''")
        case True
        with ty Some assms(1) show ?thesis by (simp add: add_old_entry_def old_step_def entry_key_def)
      next
        case False
        show ?thesis
        proof (cases "object_get_ex h ode ''client_nid''")
          case None
          with ty Some False same show ?thesis by (simp add: add_old_entry_def old_step_def entry_key_def)
        next
          case n: (Some x)
          then obtain n where n: "object_get_ex h ode ''client_nid'' = Some (JString n)" using str by blast
          show ?thesis
          proof (cases "object_get_ex h ode ''target''")
            case None
            with ty Some False n same show ?thesis
              by (simp add: add_old_entry_def old_step_def entry_key_def)
          next
            case (Some y)
            then obtain t where t: "object_get_ex h ode ''target'' = Some (JString t)" using str by blast
            with ty \<open>_ = Some st\<close> False n assms(1) show ?thesis
              by (simp add: add_old_entry_def old_step_def entry_key_def)
          qed
        qed
      qed
    qed
  qed
qed

section \<open>The loop over the new report\<close>

lemma settled_not_fresh: "settled h v \<Longrightarrow> v \<noteq> JRef (length h)"
  by (auto simp: settled_def)

lemma is_obj_settled: "is_obj h v \<Longrightarrow> settled h v"
  by (auto simp: is_obj_def settled_def dest: node_of_ref)

lemma is_obj_not_arr: "is_obj h v \<Longrightarrow> node_of h w = Some (Arr vs) \<Longrightarrow> v \<noteq> w"
  by (auto simp: is_obj_def)

lemma stat_entry_push:
  assumes "stat_entry_ok h v"
  shows "stat_entry_ok (push n h) v" "entry_key (push n h) v = entry_key h v"
    "object_get_ex (push n h) v = object_get_ex h v"
proof -
  have "v \<noteq> JRef (length h)" using assms settled_not_fresh unfolding stat_entry_ok_def by blast
  then show get: "object_get_ex (push n h) v = object_get_ex h v" by simp
  have ob: "is_obj h x \<Longrightarrow> is_obj (push n h) x" for x by (auto simp: is_obj_def)
  have "settled (push n h) v" if "settled h v" using that by (auto simp: settled_def)
  with assms ob show "stat_entry_ok (push n h) v" unfolding stat_entry_ok_def get by blast
  show "entry_key (push n h) v = entry_key h v" unfolding entry_key_def get by (rule refl)
qed

lemma old_entry_push:
  assumes "stat_entry_ok h v"
  shows "add_old_entry E (JRef (length h)) v (push (Obj m) h) = Some (push (Obj (old_step h v m)) h)"
proof -
  have "old_step (push (Obj m) h) v m = old_step h v m"
    by (simp add: old_step_def stat_entry_push[OF assms])
  moreover have "add_old_entry E (JRef (length h)) v (push (Obj m) h) =
      Some (store (JRef (length h)) (Obj (old_step (push (Obj m) h) v m)) (push (Obj m) h))"
    by (rule add_old_entry_eq) (simp_all add: stat_entry_push[OF assms])
  ultimately show ?thesis by simp
qed

lemma old_loop:
  assumes "\<And>v. v \<in> set odes \<Longrightarrow> stat_entry_ok h v"
  shows "foldM (add_old_entry E (JRef (length h))) odes (push (Obj m) h) =
    Some (push (Obj (fold (old_step h) odes m)) h)"
  using assms by (induction odes arbitrary: m) (simp_all add: old_entry_push)

lemma event_loop:
  assumes "ostats \<noteq> JRef (length h)"
  shows "foldM (\<lambda>(event, nvalue) g. object_add (JRef (length h)) event
      (JDouble (event_rate E idt nvalue (object_get_ex g ostats event))) g) events (push (Obj kvs) h) =
    Some (push (Obj (event_rates E idt (object_get_ex h ostats) events kvs)) h)"
proof (induction events arbitrary: kvs)
  case Nil
  then show ?case by (simp add: event_rates_def)
next
  case (Cons p events)
  obtain event nvalue where p: "p = (event, nvalue)" by (cases p)
  show ?case using Cons.IH assms by (simp add: p event_rates_def)
qed

text \<open>One entry of the new report: nothing, or two fresh objects at the end of the store.\<close>

definition rate_nodes :: "(string \<times> jval) list \<times> (string \<times> jval) list \<Rightarrow> heap \<Rightarrow> heap" where
  "rate_nodes = (\<lambda>(tg, st) h. push (Obj ((''stats'', JRef (length h)) # tg)) (push (Obj st) h))"

lemma find_old_eq:
  assumes nde: "stat_entry_ok h nde" and ty: "object_get_ex h nde ''stats_type'' = Some (JString ty)"
    and om: "node_of h omap = Some (Obj m)"
  shows "find_old E omap nde ty h = Some (Option.bind (entry_key h nde) (map_of m))"
proof (cases "ty = ''cpu''")
  case True
  with ty om show ?thesis by (simp add: find_old_def entry_key_def)
next
  case False
  show ?thesis
  proof (cases "object_get_ex h nde ''client_nid''")
    case None
    with False ty show ?thesis by (simp add: find_old_def entry_key_def)
  next
    case (Some y)
    then obtain n where n: "object_get_ex h nde ''client_nid'' = Some (JString n)" using nde unfolding stat_entry_ok_def by blast
    show ?thesis
    proof (cases "object_get_ex h nde ''target''")
      case None
      with False ty n show ?thesis by (simp add: find_old_def entry_key_def)
    next
      case (Some z)
      then obtain t where "object_get_ex h nde ''target'' = Some (JString t)" using nde unfolding stat_entry_ok_def by blast
      with False ty n om show ?thesis by (simp add: find_old_def entry_key_def)
    qed
  qed
qed

text \<open>An entry with a predecessor: the object of its rates is built, tagged and appended.\<close>

lemma add_rate_entry_built:
  assumes nde: "stat_entry_ok h nde" and ty: "object_get_ex h nde ''stats_type'' = Some (JString ty)"
    and old: "find_old E omap nde ty h = Some (Some ostats)"
    and k: "entry_key h nde = Some k" "map_of m k = Some ostats" "is_obj h ostats"
    and Some: "object_get_ex h nde ''stats'' = Some nstats" and ev: "node_of h nstats = Some (Obj events)"
    and arr: "node_of h arr = Some (Arr vs)"
  shows "add_rate_entry E omap idt arr nde h =
    Some (case rate_spec E idt h m nde of
        None \<Rightarrow> h
      | Some p \<Rightarrow> store arr (Arr (vs @ [JRef (Suc (length h))])) (rate_nodes p h))"
proof -
  have ne: "ostats \<noteq> JRef (length h)" "nde \<noteq> JRef (length h)" "nde \<noteq> JRef (Suc (length h))"
    using k(3) nde by (auto simp: is_obj_def stat_entry_ok_def settled_def)
  let ?st = "event_rates E idt (object_get_ex h ostats) events []"
  let ?h2 = "push (Obj ?st) h"
  have spec: "rate_spec E idt h m nde = Some (rate_tags h nde, ?st)"
    using k Some ev by (simp add: rate_spec_def)
  have len: "JRef (Suc (length h)) = JRef (length ?h2)" by simp
  have get: "object_get_ex ?h2 nde = object_get_ex h nde" using ne by simp
  have cp: "copy_tags nde ps (JRef (Suc (length h))) (push (Obj kvs) ?h2) =
      Some (push (Obj (copied (object_get_ex h nde) ps kvs)) ?h2)" for ps kvs
    unfolding len using copy_tags_newest[of nde ?h2 ps kvs] ne get by simp
  have st: "store (JRef (Suc (length h))) n (push n' ?h2) = push n ?h2" for n n'
    unfolding len by (rule store_newest)
  have nd: "node_of (push n ?h2) (JRef (Suc (length h))) = Some n" for n
    unfolding len by (simp del: length_push)
  have loop: "foldM (\<lambda>(event, nvalue) g. object_add (JRef (length h)) event
      (JDouble (event_rate E idt nvalue (object_get_ex g ostats event))) g) events (push (Obj []) h) = Some ?h2"
    by (rule event_loop[OF ne(1)])
  have ne2: "nstats \<noteq> JRef (length h)" "arr \<noteq> JRef (length h)" "arr \<noteq> JRef (Suc (length h))"
    using ev arr by (auto simp: node_of_def)
  have fin: "array_add arr (JRef (Suc (length h))) (push (Obj kvs) ?h2) =
      Some (store arr (Arr (vs @ [JRef (Suc (length h))])) (push (Obj kvs) ?h2))" for kvs
    using ne2 arr by (intro array_add_arr) simp
  have tg: "rate_tags h nde =
      (if JString ty = JString ''cpu'' then copied (object_get_ex h nde) [(''server'', ''server'')] [(''stats_type'', JString ty)]
       else copied (object_get_ex h nde) client_tags
         (copied (object_get_ex h nde) [(''server'', ''server'')] [(''stats_type'', JString ty)]))"
    unfolding rate_tags_def ty by (simp only: option.case Let_def)
  have hd: "copied get [(''server'', ''server'')] ((''stats'', r) # kvs) =
      (''stats'', r) # copied get [(''server'', ''server'')] kvs"
    "copied get client_tags ((''stats'', r) # kvs) = (''stats'', r) # copied get client_tags kvs"
    for get r kvs
    by (rule copied_Cons_other, simp add: client_tags_def)+
  have new: "new_object h = (JRef (length h), push (Obj []) h)"
    "new_object ?h2 = (JRef (Suc (length h)), push (Obj []) ?h2)"
    by (simp_all add: new_object_def new_node_def)
  have add: "object_add (JRef (Suc (length h))) k v (push (Obj kvs) ?h2) =
      Some (push (Obj (AList.update k v kvs)) ?h2)" for k v kvs
    using object_add_obj[OF nd] st by simp
  have ev1: "object_foreach (push (Obj []) h) nstats = Some events"
    using ev ne2 by (intro object_foreach_obj) simp
  show ?thesis
    unfolding add_rate_entry_def ty option.case get_string_JString Option.bind.bind_lunit old Some
      new prod.case Let_def ev1 loop add cp hd spec rate_nodes_def tg
    using fin by (cases "ty = ''cpu''") (simp_all add: cp hd del: copied_Cons copied_Nil)
qed

lemma add_rate_entry_eq:
  assumes nde: "stat_entry_ok h nde"
    and om: "node_of h omap = Some (Obj m)" "\<And>k v. map_of m k = Some v \<Longrightarrow> is_obj h v"
    and arr: "node_of h arr = Some (Arr vs)"
  shows "add_rate_entry E omap idt arr nde h =
    Some (case rate_spec E idt h m nde of
        None \<Rightarrow> h
      | Some p \<Rightarrow> store arr (Arr (vs @ [JRef (Suc (length h))])) (rate_nodes p h))"
proof (cases "object_get_ex h nde ''stats_type''")
  case None
  then show ?thesis by (simp add: add_rate_entry_def rate_spec_def entry_key_def)
next
  case (Some x)
  have str: "\<exists>s. x = JString s" if "object_get_ex h nde k = Some x"
    "k \<in> {''stats_type'', ''client_nid'', ''target''}" for k x
    using nde that unfolding stat_entry_ok_def by blast
  with Some obtain ty where ty: "object_get_ex h nde ''stats_type'' = Some (JString ty)" by blast
  note old = find_old_eq[OF nde ty om(1), of E]
  show ?thesis
  proof (cases "Option.bind (entry_key h nde) (map_of m)")
    case None
    then have "rate_spec E idt h m nde = None" by (auto simp: rate_spec_def split: option.splits)
    with None old ty show ?thesis by (simp add: add_rate_entry_def)
  next
    case o: (Some ostats)
    then obtain k where k: "entry_key h nde = Some k" "map_of m k = Some ostats"
      by (auto simp: bind_eq_Some_conv)
    show ?thesis
    proof (cases "object_get_ex h nde ''stats''")
      case None
      with o old ty k show ?thesis by (simp add: add_rate_entry_def rate_spec_def)
    next
      case (Some nstats)
      then have "is_obj h nstats" using nde unfolding stat_entry_ok_def by blast
      then obtain events where ev: "node_of h nstats = Some (Obj events)" by (auto simp: is_obj_def)
      show ?thesis by (rule add_rate_entry_built[OF nde ty old[unfolded o] k om(2)[OF k(2)] Some ev arr])
    qed
  qed
qed

section \<open>The new rate entries\<close>

text \<open>\<open>rates_at h drs specs\<close>: the pairs \<open>drs\<close> of a rate entry and its statistics hold what
  the specification says, and all of these objects are distinct.\<close>

definition rate_at :: "heap \<Rightarrow> jval \<times> jval \<Rightarrow> (string \<times> jval) list \<times> (string \<times> jval) list \<Rightarrow> bool" where
  "rate_at h = (\<lambda>(d, r) (tg, st).
     node_of h d = Some (Obj ((''stats'', r) # tg)) \<and> node_of h r = Some (Obj st))"

definition rates_at :: "heap \<Rightarrow> (jval \<times> jval) list \<Rightarrow>
    ((string \<times> jval) list \<times> (string \<times> jval) list) list \<Rightarrow> bool" where
  "rates_at h drs specs \<longleftrightarrow> list_all2 (rate_at h) drs specs \<and> distinct (map fst drs @ map snd drs)"

definition fresh_from :: "heap \<Rightarrow> jval \<Rightarrow> bool" where
  "fresh_from h v \<longleftrightarrow> (\<exists>a. v = JRef a \<and> length h \<le> a)"

lemma settled_not_fresh_from: "settled h v \<Longrightarrow> \<not> fresh_from h v"
  by (auto simp: settled_def fresh_from_def)

lemma rate_at_keeps:
  assumes "keeps {arr} h h'" "node_of h arr = Some (Arr vs)" "rate_at h p q"
  shows "rate_at h' p q"
proof -
  obtain d r tg st where pq: "p = (d, r)" "q = (tg, st)" by (cases p, cases q)
  with assms have "d \<noteq> arr" "r \<noteq> arr" by (auto simp: rate_at_def)
  with assms pq show ?thesis by (auto simp: rate_at_def dest: keeps_node)
qed

lemma get_ex_keeps_arr:
  assumes "keeps {arr} h h'" "node_of h arr = Some (Arr vs)" "settled h v"
  shows "object_get_ex h' v = object_get_ex h v"
proof (cases "node_of h v")
  case None
  then have "\<forall>a. v \<noteq> JRef a" using assms(3) by (auto simp: settled_def node_of_def)
  then have "node_of g v = None" for g by (cases v) auto
  then show ?thesis by (simp add: fun_eq_iff)
next
  case (Some n)
  show ?thesis
  proof (cases "v = arr")
    case True
    obtain vs' where "node_of h' arr = Some (Arr vs')" using keeps_arr[OF assms(1,2)] by blast
    with True assms(2) show ?thesis by (simp add: object_get_ex_def obj_of_def fun_eq_iff)
  next
    case False
    then have "node_of h' v = Some n" using keeps_node[OF assms(1) Some] by simp
    with Some show ?thesis by (simp add: object_get_ex_def obj_of_def fun_eq_iff)
  qed
qed

lemma is_obj_keeps_arr: "keeps S h h' \<Longrightarrow> is_obj h v \<Longrightarrow> is_obj h' v"
  by (auto simp: is_obj_def dest: keeps_obj)

lemma fields_at_keeps_arr:
  assumes "keeps {arr} h h'" "node_of h arr = Some (Arr vs)" "is_obj h v"
  shows "fields_at h' v = fields_at h v"
proof -
  obtain kvs where n: "node_of h v = Some (Obj kvs)" using assms(3) by (auto simp: is_obj_def)
  then have "v \<noteq> arr" using assms(2) by auto
  with keeps_node[OF assms(1) n] n show ?thesis by simp
qed

lemma stat_entry_keeps:
  assumes "keeps {arr} h h'" "node_of h arr = Some (Arr vs)" "stat_entry_ok h v"
    and "\<And>k w. map_of m k = Some w \<Longrightarrow> is_obj h w"
  shows "stat_entry_ok h' v" "rate_spec E idt h' m v = rate_spec E idt h m v"
proof -
  have sv: "settled h v" using assms(3) unfolding stat_entry_ok_def by blast
  note get = get_ex_keeps_arr[OF assms(1,2) sv]
  have "settled h' v" using sv assms(1) by (auto intro: settled_mono dest: keeps_length)
  then show "stat_entry_ok h' v"
    using assms(3) is_obj_keeps_arr[OF assms(1)] unfolding stat_entry_ok_def get by blast
  have ow: "object_get_ex h' w = object_get_ex h w" if "map_of m k = Some w" for k w
    by (rule get_ex_keeps_arr[OF assms(1,2) is_obj_settled[OF assms(4)[OF that]]])
  have s: "fields_at h' w = fields_at h w" if "object_get_ex h v ''stats'' = Some w" for w
    using assms(3) that unfolding stat_entry_ok_def by (intro fields_at_keeps_arr[OF assms(1,2)]) blast
  have t: "rate_tags h' v = rate_tags h v" unfolding rate_tags_def get by (rule refl)
  have k: "entry_key h' v = entry_key h v" unfolding entry_key_def get by (rule refl)
  show "rate_spec E idt h' m v = rate_spec E idt h m v"
    unfolding rate_spec_def k get t by (auto simp: ow s split: option.splits)
qed

lemma rate_nodes_frame:
  fixes p :: "(string \<times> jval) list \<times> (string \<times> jval) list"
  assumes "node_of h arr = Some (Arr vs)"
  defines "d \<equiv> JRef (Suc (length h))" and "r \<equiv> JRef (length h)"
  defines "h' \<equiv> store arr (Arr (vs @ [d])) (rate_nodes p h)"
  shows "keeps {arr} h h'" "node_of h' arr = Some (Arr (vs @ [d]))" "rate_at h' (d, r) p"
    "fresh_from h d" "fresh_from h r" "length h' = Suc (Suc (length h))"
proof -
  obtain tg st where p: "p = (tg, st)" by (cases p)
  have ne: "arr \<noteq> r" "arr \<noteq> d" using assms(1) by (auto simp: node_of_def r_def d_def)
  have push_d: "node_of (push n (push m h)) v =
      (if v = d then Some n else if v = r then Some m else node_of h v)" for n m v
    by (simp add: d_def r_def)
  show "keeps {arr} h h'"
    using assms(1) ne unfolding keeps_def h'_def p rate_nodes_def prod.case node_of_store push_d
    by (auto simp: d_def r_def node_of_def)
  show "node_of h' arr = Some (Arr (vs @ [d]))"
    using assms(1) ne unfolding h'_def p rate_nodes_def prod.case node_of_store push_d by simp
  show "rate_at h' (d, r) p"
    using ne unfolding h'_def p rate_at_def rate_nodes_def prod.case node_of_store push_d
    by (auto simp: d_def r_def)
  show "fresh_from h d" "fresh_from h r" by (simp_all add: fresh_from_def d_def r_def)
  show "length h' = Suc (Suc (length h))" by (simp add: h'_def p rate_nodes_def)
qed

lemma rates_at_snoc:
  assumes "rates_at h drs specs" "keeps {arr} h h'" "node_of h arr = Some (Arr vs)"
    and "rate_at h' (d, r) p" "fresh_from h d" "fresh_from h r" "d \<noteq> r"
  shows "rates_at h' (drs @ [(d, r)]) (specs @ [p])"
proof -
  have old: "\<not> fresh_from h x" if "x \<in> set (map fst drs @ map snd drs)" for x
  proof -
    from that obtain q where q: "q \<in> set drs" "x = fst q \<or> x = snd q" by auto
    then obtain i where i: "i < length drs" "q = drs ! i" by (auto simp: in_set_conv_nth)
    then have "rate_at h q (specs ! i)"
      using assms(1) by (simp add: rates_at_def list_all2_conv_all_nth)
    then obtain sp where "rate_at h q sp" ..
    then have "is_obj h x" using q(2) by (cases q; cases sp) (auto simp: rate_at_def)
    then show ?thesis by (intro settled_not_fresh_from is_obj_settled)
  qed
  have "d \<notin> set (map fst drs @ map snd drs)" "r \<notin> set (map fst drs @ map snd drs)"
    using old assms(5,6) by blast+
  moreover have "list_all2 (rate_at h') drs specs"
    using assms(1) rate_at_keeps[OF assms(2,3)] unfolding rates_at_def by (auto elim: list_all2_mono)
  ultimately show ?thesis using assms(1,4,7) by (auto simp: rates_at_def list_all2_appendI)
qed

lemma map_filter_snoc:
  "List.map_filter f (ys @ [x]) = List.map_filter f ys @ (case f x of None \<Rightarrow> [] | Some p \<Rightarrow> [p])"
  by (simp add: List.map_filter_def split: option.split)

lemma new_loop:
  assumes nde: "\<And>v. v \<in> set ndes \<Longrightarrow> stat_entry_ok h v"
    and om: "node_of h omap = Some (Obj m)" "\<And>k v. map_of m k = Some v \<Longrightarrow> is_obj h v"
    and arr: "node_of h arr = Some (Arr vs)"
  shows "ok (foldM (add_rate_entry E omap idt arr) ndes h) (\<lambda>h'. \<exists>drs.
    node_of h' arr = Some (Arr (vs @ map fst drs)) \<and>
    rates_at h' drs (List.map_filter (rate_spec E idt h m) ndes) \<and>
    (\<forall>(d, r) \<in> set drs. fresh_from h d \<and> fresh_from h r) \<and> keeps {arr} h h')"
proof -
  define I where "I = (\<lambda>ys h'. \<exists>drs. node_of h' arr = Some (Arr (vs @ map fst drs)) \<and>
    rates_at h' drs (List.map_filter (rate_spec E idt h m) ys) \<and>
    (\<forall>(d, r) \<in> set drs. fresh_from h d \<and> fresh_from h r) \<and> keeps {arr} h h')"
  have "ok (foldM (add_rate_entry E omap idt arr) ndes h) (I ndes)"
  proof (rule ok_foldM)
    show "I [] h" using arr
      by (auto simp: I_def rates_at_def map_filter_simps intro!: exI[of _ "[]"])
  next
    fix ys x zs h'
    assume xs: "ndes = ys @ x # zs" and "I ys h'"
    then obtain drs where I: "node_of h' arr = Some (Arr (vs @ map fst drs))"
      "rates_at h' drs (List.map_filter (rate_spec E idt h m) ys)"
      "\<forall>(d, r) \<in> set drs. fresh_from h d \<and> fresh_from h r" "keeps {arr} h h'"
      by (auto simp: I_def)
    have x: "stat_entry_ok h x" using nde xs by simp
    note st = stat_entry_keeps(1)[OF I(4) arr x om(2)]
      stat_entry_keeps(2)[OF I(4) arr x om(2), where E = E and idt = idt]
    have "omap \<noteq> arr" using om(1) arr by auto
    then have om': "node_of h' omap = Some (Obj m)" using keeps_node[OF I(4) om(1)] by simp
    have eq: "add_rate_entry E omap idt arr x h' = Some (case rate_spec E idt h m x of
        None \<Rightarrow> h'
      | Some p \<Rightarrow> store arr (Arr ((vs @ map fst drs) @ [JRef (Suc (length h'))])) (rate_nodes p h'))"
      using add_rate_entry_eq[OF st(1) om' is_obj_keeps_arr[OF I(4) om(2)] I(1), where E = E and idt = idt]
      by (simp add: st(2))
    show "ok (add_rate_entry E omap idt arr x h') (I (ys @ [x]))"
    proof (cases "rate_spec E idt h m x")
      case None
      with I show ?thesis unfolding eq by (auto simp: I_def map_filter_snoc)
    next
      case (Some p)
      note fr = rate_nodes_frame(1-3)[OF I(1), where p = p] rate_nodes_frame(4-5)[OF I(1)]
      have len: "length h \<le> length h'" using I(4) by (rule keeps_length)
      have "rates_at (store arr (Arr ((vs @ map fst drs) @ [JRef (Suc (length h'))])) (rate_nodes p h'))
          (drs @ [(JRef (Suc (length h')), JRef (length h'))])
          (List.map_filter (rate_spec E idt h m) ys @ [p])"
        by (rule rates_at_snoc[OF I(2) fr(1) I(1) fr(3-5)]) simp
      then show ?thesis
        using fr I(3) len Some keeps_trans[OF I(4) fr(1)] unfolding eq I_def
        by (auto simp: map_filter_snoc fresh_from_def
            intro!: exI[of _ "drs @ [(JRef (Suc (length h')), JRef (length h'))]"])
    qed
  qed
  then show ?thesis by (simp add: I_def)
qed

lemma old_map_objects:
  assumes "\<And>v. v \<in> set odes \<Longrightarrow> stat_entry_ok h v" "map_of (old_map h odes) k = Some w"
  shows "is_obj h w"
proof -
  have "map_of (fold (old_step h) odes m) k = Some w \<Longrightarrow> (\<And>j x. map_of m j = Some x \<Longrightarrow> is_obj h x) \<Longrightarrow>
      is_obj h w" for m
    using assms(1)
  proof (induction odes arbitrary: m)
    case Nil
    then show ?case by simp
  next
    case (Cons v odes)
    have "is_obj h x" if "map_of (old_step h v m) j = Some x" for j x
      using that Cons.prems(2) Cons.prems(3)[of v]
      by (auto simp: old_step_def stat_entry_ok_def split: option.splits if_splits)
    with Cons show ?case by simp
  qed
  from this[of "[]"] assms(2) show ?thesis by (simp add: old_map_def)
qed

lemma calc_rates_spec:
  assumes nda: "node_of h nda = Some (Arr ndes)" and oda: "node_of h oda = Some (Arr odes)"
    and arr: "node_of h arr = Some (Arr vs)" "arr \<noteq> nda"
    and ok: "\<And>v. v \<in> set ndes \<union> set odes \<Longrightarrow> stat_entry_ok h v"
  shows "ok (calc_rates E arr nda oda idt h) (\<lambda>h'. \<exists>drs.
    node_of h' arr = Some (Arr (vs @ map fst drs)) \<and>
    rates_at h' drs (List.map_filter (rate_spec E idt h (old_map h odes)) ndes) \<and>
    (\<forall>(d, r) \<in> set drs. fresh_from h d \<and> fresh_from h r) \<and> keeps {arr} h h')"
proof -
  let ?o = "JRef (length h)" and ?m = "old_map h odes"
  let ?h2 = "push (Obj ?m) h"
  have new: "new_object h = (?o, push (Obj []) h)" by (simp add: new_object_def new_node_def)
  have ne: "oda \<noteq> ?o" "nda \<noteq> ?o" "arr \<noteq> ?o" using oda nda arr by auto
  have ol: "foldM (add_old_entry E ?o) odes (push (Obj []) h) = Some ?h2"
    unfolding old_map_def by (rule old_loop) (use ok in auto)
  have old: "foldM (\<lambda>j h. do { ode \<leftarrow> array_get_idx h oda j; add_old_entry E ?o ode h })
      [0..<length odes] (push (Obj []) h) = Some ?h2"
    unfolding ol[symmetric]
  proof (rule foldM_array[where I = "\<lambda>g. \<exists>m. g = push (Obj m) h"])
    show "\<exists>m. push (Obj []) h = push (Obj m) h" by blast
  next
    fix g assume "\<exists>m. g = push (Obj m) h"
    then show "node_of g oda = Some (Arr odes)" using oda ne by auto
  next
    fix x g g'
    assume "x \<in> set odes" "\<exists>m. g = push (Obj m) h" "add_old_entry E ?o x g = Some g'"
    then show "\<exists>m. g' = push (Obj m) h" using old_entry_push[OF ok] by auto
  qed
  have km: "keeps {arr} h ?h2" by (auto simp: keeps_def)
  have arr2: "node_of ?h2 arr = Some (Arr vs)" using arr ne by simp
  have nda2: "node_of ?h2 nda = Some (Arr ndes)" using nda ne by simp
  have omk: "is_obj h w" if "map_of ?m k = Some w" for k w
    using old_map_objects[OF _ that] ok by blast
  have st: "stat_entry_ok ?h2 v" "rate_spec E idt ?h2 ?m v = rate_spec E idt h ?m v" if "v \<in> set ndes" for v
  proof -
    have v: "stat_entry_ok h v" using ok that by blast
    show "stat_entry_ok ?h2 v" by (rule stat_entry_keeps(1)[OF km arr(1) v omk])
    show "rate_spec E idt ?h2 ?m v = rate_spec E idt h ?m v"
      by (rule stat_entry_keeps(2)[OF km arr(1) v omk])
  qed
  have mf: "List.map_filter (rate_spec E idt ?h2 ?m) ndes = List.map_filter (rate_spec E idt h ?m) ndes"
    using st(2) by (auto simp: List.map_filter_def intro!: map_cong filter_cong)
  have "ok (foldM (add_rate_entry E ?o idt arr) ndes ?h2) (\<lambda>h'. \<exists>drs.
      node_of h' arr = Some (Arr (vs @ map fst drs)) \<and>
      rates_at h' drs (List.map_filter (rate_spec E idt ?h2 ?m) ndes) \<and>
      (\<forall>(d, r) \<in> set drs. fresh_from ?h2 d \<and> fresh_from ?h2 r) \<and> keeps {arr} ?h2 h')"
    by (rule new_loop[OF st(1) _ _ arr2]) (use omk in \<open>auto intro: is_obj_keeps_arr[OF km]\<close>)
  then obtain h' drs where fin: "foldM (add_rate_entry E ?o idt arr) ndes ?h2 = Some h'"
    "node_of h' arr = Some (Arr (vs @ map fst drs))"
    "rates_at h' drs (List.map_filter (rate_spec E idt h ?m) ndes)"
    "\<forall>(d, r) \<in> set drs. fresh_from ?h2 d \<and> fresh_from ?h2 r" "keeps {arr} ?h2 h'"
    unfolding mf by (auto elim!: okE)
  have nl: "foldM (\<lambda>i h. do { nde \<leftarrow> array_get_idx h nda i; add_rate_entry E ?o idt arr nde h })
      [0..<length ndes] ?h2 = Some h'"
    unfolding fin(1)[symmetric]
  proof (rule foldM_array[where I = "\<lambda>g. keeps {arr} ?h2 g \<and> (\<exists>vs. node_of g arr = Some (Arr vs))"])
    show "keeps {arr} ?h2 ?h2 \<and> (\<exists>vs. node_of ?h2 arr = Some (Arr vs))" using arr2 by simp
  next
    fix g assume "keeps {arr} ?h2 g \<and> (\<exists>vs. node_of g arr = Some (Arr vs))"
    then show "node_of g nda = Some (Arr ndes)" using arr(2) by (auto intro: keeps_node[OF _ nda2])
  next
    fix x g g'
    assume x: "x \<in> set ndes" and "keeps {arr} ?h2 g \<and> (\<exists>vs. node_of g arr = Some (Arr vs))"
      and g: "add_rate_entry E ?o idt arr x g = Some g'"
    then obtain us where I: "keeps {arr} ?h2 g" "node_of g arr = Some (Arr us)" by blast
    have kg: "keeps {arr} h g" by (rule keeps_trans[OF km I(1)])
    have og: "node_of g ?o = Some (Obj ?m)" using ne by (intro keeps_node[OF I(1)]) auto
    have xo: "stat_entry_ok h x" using ok x by blast
    have x': "stat_entry_ok g x" by (rule stat_entry_keeps(1)[OF kg arr(1) xo omk])
    have "Some g' = Some (case rate_spec E idt g ?m x of
        None \<Rightarrow> g
      | Some p \<Rightarrow> store arr (Arr (us @ [JRef (Suc (length g))])) (rate_nodes p g))"
      using add_rate_entry_eq[OF x' og is_obj_keeps_arr[OF kg omk] I(2)] g by simp
    then show "keeps {arr} ?h2 g' \<and> (\<exists>vs. node_of g' arr = Some (Arr vs))"
      using I rate_nodes_frame(1,2)[OF I(2)] keeps_trans[OF I(1)] by (cases "rate_spec E idt g ?m x") auto
  qed
  have eq: "calc_rates E arr nda oda idt h = Some h'"
    using nda oda old nl by (simp add: calc_rates_def new)
  have "fresh_from ?h2 v \<Longrightarrow> fresh_from h v" for v by (auto simp: fresh_from_def)
  then show ?thesis unfolding eq using fin(2-4) keeps_trans[OF km fin(5)] by fastforce
qed

section \<open>Rates of a counter\<close>

lemma map_of_event_rates:
  assumes "distinct (keys events)"
  shows "map_of (event_rates E idt old events []) e =
    map_option (\<lambda>nv. JDouble (event_rate E idt nv (old e))) (map_of events e)"
proof -
  have "map_of (map (\<lambda>(event, nv). (event, JDouble (event_rate E idt nv (old event)))) events) e =
      map_option (\<lambda>nv. JDouble (event_rate E idt nv (old e))) (map_of events e)"
    by (induction events) auto
  then show ?thesis using event_rates_distinct[of "[]" events E idt old] assms by simp
qed

lemma sint_diff:
  fixes a b :: int64
  assumes "- (2 ^ 63) \<le> sint a - sint b" "sint a - sint b < 2 ^ 63"
  shows "sint (a - b) = sint a - sint b"
proof -
  have "sint (a - b) = signed_take_bit 63 (sint a - sint b)"
    using sint_word_ariths(2)[of a b] by simp
  also have "\<dots> = sint a - sint b"
    by (rule signed_take_bit_int_eq_self[OF assms])
  finally show ?thesis .
qed

lemma clamp:
  fixes x :: rat
  shows "0 \<le> x \<Longrightarrow> (if x < 0 then 0 else x) = x" "x \<le> 0 \<Longrightarrow> (if x < 0 then 0 else x) = 0"
    "0 \<le> (if x < 0 then 0 else x)"
  by simp_all

lemma event_rate_nonneg:
  "rounding (fl E) \<Longrightarrow> 0 \<le> idt \<Longrightarrow> 0 \<le> event_rate E idt nv ov"
  unfolding event_rate_def Let_def by (rule rounding_nonneg, assumption) (rule mult_nonneg_nonneg[OF clamp(3)])

lemma event_rate_absent: "rounding (fl E) \<Longrightarrow> event_rate E idt nv None = 0"
  by (simp add: event_rate_def rounding_zero)

lemma event_rate_counter:
  assumes "rounding (fl E)" "sint (get_int64 E ov) \<le> sint (get_int64 E nv)"
    and "sint (get_int64 E nv) - sint (get_int64 E ov) \<le> 2 ^ 53"
  shows "event_rate E idt nv (Some ov) =
    fl E (rat_of_int (sint (get_int64 E nv) - sint (get_int64 E ov)) * idt)"
proof -
  let ?d = "sint (get_int64 E nv) - sint (get_int64 E ov)"
  have "sint (get_int64 E nv - get_int64 E ov) = ?d" using assms(2,3) by (intro sint_diff) auto
  moreover have "fl E (rat_of_int ?d) = rat_of_int ?d" using assms by (intro rounding_exact) auto
  moreover have "0 \<le> rat_of_int ?d" unfolding of_int_0_le_iff using assms(2) by linarith
  ultimately show ?thesis unfolding event_rate_def option.case by (simp only: Let_def clamp(1))
qed

lemma event_rate_reset:
  assumes "rounding (fl E)" "sint (get_int64 E nv) < sint (get_int64 E ov)"
    and "sint (get_int64 E ov) - sint (get_int64 E nv) \<le> 2 ^ 63"
  shows "event_rate E idt nv (Some ov) = 0"
proof -
  have s: "sint (get_int64 E nv - get_int64 E ov) = sint (get_int64 E nv) - sint (get_int64 E ov)"
    using assms(2,3) by (intro sint_diff) auto
  have "rat_of_int (sint (get_int64 E nv - get_int64 E ov)) \<le> 0"
    unfolding s of_int_le_0_iff using assms(2) by linarith
  then have "fl E (rat_of_int (sint (get_int64 E nv - get_int64 E ov))) \<le> fl E 0"
    using assms(1) by (auto simp only: rounding_def dest: monoD)
  then have "fl E (rat_of_int (sint (get_int64 E nv - get_int64 E ov))) \<le> 0"
    by (simp only: rounding_zero[OF assms(1)])
  then show ?thesis
    unfolding event_rate_def option.case Let_def by (simp only: clamp(2) mult_zero_left rounding_zero[OF assms(1)])
qed

text \<open>What the rate of a counter is, given its new and its old value.\<close>

definition counter_rate :: "env \<Rightarrow> double \<Rightarrow> jval \<Rightarrow> jval option \<Rightarrow> double \<Rightarrow> bool" where
  "counter_rate E idt nv ov x \<longleftrightarrow> 0 \<le> x \<and>
    (case ov of
       None \<Rightarrow> x = 0
     | Some w \<Rightarrow>
         (let new = sint (get_int64 E nv); old = sint (get_int64 E w)
          in (old \<le> new \<and> new - old \<le> 2 ^ 53 \<longrightarrow> x = fl E (rat_of_int (new - old) * idt)) \<and>
             (new < old \<and> old - new \<le> 2 ^ 63 \<longrightarrow> x = 0)))"

lemma counter_rate_event_rate:
  assumes "rounding (fl E)" "0 \<le> idt"
  shows "counter_rate E idt nv ov (event_rate E idt nv ov)"
proof (cases ov)
  case None
  then show ?thesis using event_rate_absent[OF assms(1)] by (simp add: counter_rate_def)
next
  case (Some w)
  show ?thesis unfolding Some counter_rate_def option.case Let_def
    using event_rate_nonneg[OF assms] event_rate_counter[OF assms(1), of w nv idt]
      event_rate_reset[OF assms(1), of nv w idt] by blast
qed

text \<open>The entry an old report contributes for a key: the last one with that key.\<close>

definition matches :: "heap \<Rightarrow> string \<Rightarrow> jval \<Rightarrow> bool" where
  "matches h k v \<longleftrightarrow> entry_key h v = Some k \<and> object_get_ex h v ''stats'' \<noteq> None"

lemma map_of_old_map:
  "map_of (old_map h odes) k =
    (case filter (matches h k) (rev odes) of [] \<Rightarrow> None | v # _ \<Rightarrow> object_get_ex h v ''stats'')"
proof (induction odes rule: rev_induct)
  case Nil
  then show ?case by (simp add: old_map_def)
next
  case (snoc v odes)
  have "map_of (old_map h (odes @ [v])) k =
      (if matches h k v then object_get_ex h v ''stats'' else map_of (old_map h odes) k)"
    by (auto simp: old_map_def old_step_def matches_def split: option.splits)
  with snoc show ?case by simp
qed

definition has_rate :: "heap \<Rightarrow> jval list \<Rightarrow> jval \<Rightarrow> bool" where
  "has_rate h odes v \<longleftrightarrow> (\<exists>k. matches h k v \<and> (\<exists>w \<in> set odes. matches h k w))"

lemma rate_spec_defined: "rate_spec E idt h (old_map h odes) v \<noteq> None \<longleftrightarrow> has_rate h odes v"
proof -
  have "(map_of (old_map h odes) k \<noteq> None) = (\<exists>w \<in> set odes. matches h k w)" for k
  proof (cases "filter (matches h k) (rev odes)")
    case Nil
    then have "\<forall>w \<in> set odes. \<not> matches h k w" by (simp add: filter_empty_conv)
    with Nil show ?thesis by (simp add: map_of_old_map)
  next
    case (Cons w ws)
    then have "w \<in> set (filter (matches h k) (rev odes))" by simp
    then have "w \<in> set odes \<and> matches h k w" by simp
    with Cons show ?thesis by (auto simp: map_of_old_map matches_def)
  qed
  note old = this
  show ?thesis
  proof (cases "entry_key h v")
    case None
    then show ?thesis by (simp add: rate_spec_def has_rate_def matches_def)
  next
    case (Some k)
    then have "has_rate h odes v \<longleftrightarrow>
        object_get_ex h v ''stats'' \<noteq> None \<and> map_of (old_map h odes) k \<noteq> None"
      unfolding old by (auto simp: has_rate_def matches_def[of h _ v])
    with Some show ?thesis by (auto simp: rate_spec_def split: option.split)
  qed
qed

lemma map_filter_filter:
  "List.map_filter f xs = map (the \<circ> f) (filter (\<lambda>x. f x \<noteq> None) xs)"
  by (simp add: List.map_filter_def)

lemma map_of_rate_tags:
  assumes "object_get_ex h nde ''stats_type'' \<noteq> None"
    and "k = ''stats_type'' \<or> k = ''server'' \<or>
      (object_get_ex h nde ''stats_type'' \<noteq> Some (JString ''cpu'') \<and> k \<in> fst ` set client_tags)"
  shows "map_of (rate_tags h nde) k = object_get_ex h nde k"
proof -
  obtain ty where ty: "object_get_ex h nde ''stats_type'' = Some ty" using assms(1) by blast
  let ?tg = "copied (object_get_ex h nde) [(''server'', ''server'')] [(''stats_type'', ty)]"
  have tg: "map_of ?tg k = (if k = ''stats_type'' \<or> k = ''server'' then object_get_ex h nde k else None)" for k
    using ty by (auto split: option.split)
  have d: "distinct (map snd client_tags)" "(j, j') \<in> set client_tags \<Longrightarrow> j = j'" for j j'
    by (auto simp: client_tags_def)
  show ?thesis
  proof (cases "k \<in> fst ` set client_tags")
    case True
    then have k: "(k, k) \<in> set client_tags" using d(2) by force
    then have "k \<noteq> ''stats_type''" "k \<noteq> ''server''" by (auto simp: client_tags_def)
    with assms(2) True ty have "ty \<noteq> JString ''cpu''" by auto
    then have "map_of (rate_tags h nde) k = map_of (copied (object_get_ex h nde) client_tags ?tg) k"
      using ty by (simp add: rate_tags_def Let_def)
    also have "\<dots> = (case object_get_ex h nde k of None \<Rightarrow> map_of ?tg k | Some x \<Rightarrow> Some x)"
      by (rule map_of_copied[OF k d(1)])
    finally show ?thesis using tg[of k] \<open>k \<noteq> ''stats_type''\<close> \<open>k \<noteq> ''server''\<close> by (auto split: option.splits)
  next
    case False
    then have "k \<notin> snd ` set client_tags" using d(2) by force
    then have "map_of (rate_tags h nde) k = map_of ?tg k"
      using ty by (simp add: rate_tags_def Let_def map_of_copied_other)
    with False assms(2) tg[of k] show ?thesis by auto
  qed
qed

definition entry_tags :: "heap \<Rightarrow> jval \<Rightarrow> string set" where
  "entry_tags h v = {''stats_type'', ''server''} \<union>
    (if object_get_ex h v ''stats_type'' = Some (JString ''cpu'') then {} else fst ` set client_tags)"

lemma rate_at_entry:
  assumes "rate_at h' (d, r) p" "rate_spec E idt h om nde = Some p" "k \<in> entry_tags h nde"
  shows "object_get_ex h' d k = object_get_ex h nde k"
proof -
  obtain tg st where p: "p = (tg, st)" by (cases p)
  have tg: "tg = rate_tags h nde" and k: "entry_key h nde \<noteq> None"
    using assms(2) p by (auto simp: rate_spec_def split: option.splits)
  have "object_get_ex h nde ''stats_type'' \<noteq> None"
    using k unfolding entry_key_def by (cases "object_get_ex h nde ''stats_type''") simp_all
  then have "map_of (rate_tags h nde) k = object_get_ex h nde k"
    using assms(3) by (intro map_of_rate_tags) (auto simp: entry_tags_def split: if_splits)
  moreover have "k \<noteq> ''stats''" using assms(3) by (auto simp: entry_tags_def client_tags_def split: if_splits)
  ultimately show ?thesis using assms(1) p tg by (simp add: rate_at_def)
qed

lemma rate_specs_filter:
  "List.map_filter (rate_spec E idt h (old_map h odes)) ndes =
    map (the \<circ> rate_spec E idt h (old_map h odes)) (filter (has_rate h odes) ndes)"
  by (simp only: map_filter_filter rate_spec_defined)

text \<open>Two reports of a metadata server, with one export each, and an empty rate array.\<close>

definition sample_export_fields :: "jval \<Rightarrow> (string \<times> jval) list" where
  "sample_export_fields st = [(''stats_type'', JString ''mdt''), (''client_nid'', JString ''10.0.0.7@o2ib''),
    (''target'', JString ''scratch-MDT0000''), (''server'', JString ''mds1''), (''client'', JString ''c101''),
    (''jid'', JString ''4711''), (''stats'', st)]"

definition sample_reports :: heap where
  "sample_reports = [Arr [JRef 1], Obj (sample_export_fields (JRef 2)),
    Obj [(''open'', JInt 30), (''close'', JInt 4), (''mkdir'', JInt 2)],
    Arr [JRef 4], Obj (sample_export_fields (JRef 5)), Obj [(''open'', JInt 10), (''close'', JInt 9)],
    Arr []]"

lemma sample_reports_ok:
  "node_of sample_reports (JRef 0) = Some (Arr [JRef 1])"
  "node_of sample_reports (JRef 3) = Some (Arr [JRef 4])"
  "node_of sample_reports (JRef 6) = Some (Arr [])"
  "v \<in> set [JRef 1] \<union> set [JRef 4] \<Longrightarrow> stat_entry_ok sample_reports v"
  by (auto simp: sample_reports_def sample_export_fields_def stat_entry_ok_def node_of_def settled_def
      is_obj_def object_get_ex_def obj_of_def)

lemma sample_reports_get:
  "object_get_ex sample_reports (JRef 1) = map_of (sample_export_fields (JRef 2))"
  "object_get_ex sample_reports (JRef 4) = map_of (sample_export_fields (JRef 5))"
  "object_get_ex sample_reports (JRef 2) = map_of [(''open'', JInt 30), (''close'', JInt 4), (''mkdir'', JInt 2)]"
  "object_get_ex sample_reports (JRef 5) = map_of [(''open'', JInt 10), (''close'', JInt 9)]"
  by (simp_all add: sample_reports_def object_get_ex_def obj_of_def node_of_def fun_eq_iff)

lemma sample_reports_key:
  "entry_key sample_reports (JRef 1) = Some ''10.0.0.7@o2ib_scratch-MDT0000_mdt''"
  "entry_key sample_reports (JRef 4) = Some ''10.0.0.7@o2ib_scratch-MDT0000_mdt''"
  unfolding entry_key_def sample_reports_get sample_export_fields_def
  by (simp_all add: stat_key_def snprintf_s_def)

lemma sample_reports_rate: "has_rate sample_reports [JRef 4] (JRef 1)"
  unfolding has_rate_def matches_def
  by (simp add: sample_reports_key sample_reports_get sample_export_fields_def del: One_nat_def)

section \<open>Properties\<close>

text \<open>C13. The rate computation is defined on well-typed reports and appends to the rate array, in the order
  of the new report, exactly one new entry for each of its entries that has a counterpart in the
  old one; the entry carries the type, the server and (unless it is the processor's) the client,
  job, user and file system of the new report, and no existing object but the array is written.\<close>

theorem calc_rates_entries:
  assumes "node_of h nda = Some (Arr ndes)" "node_of h oda = Some (Arr odes)"
    and "node_of h arr = Some (Arr vs)" "arr \<noteq> nda"
    and "\<And>v. v \<in> set ndes \<union> set odes \<Longrightarrow> stat_entry_ok h v"
  shows "ok (calc_rates E arr nda oda idt h) (\<lambda>h'. \<exists>ds. node_of h' arr = Some (Arr (vs @ ds)) \<and>
    distinct ds \<and> (\<forall>d \<in> set ds. fresh_from h d) \<and>
    list_all2 (\<lambda>d nde. \<forall>k \<in> entry_tags h nde. object_get_ex h' d k = object_get_ex h nde k)
      ds (filter (has_rate h odes) ndes) \<and>
    keeps {arr} h h')"
proof (rule ok_mono[OF calc_rates_spec[OF assms]], assumption)
  fix h'
  let ?spec = "rate_spec E idt h (old_map h odes)"
  assume "\<exists>drs. node_of h' arr = Some (Arr (vs @ map fst drs)) \<and>
    rates_at h' drs (List.map_filter ?spec ndes) \<and>
    (\<forall>(d, r) \<in> set drs. fresh_from h d \<and> fresh_from h r) \<and> keeps {arr} h h'"
  then obtain drs where drs: "node_of h' arr = Some (Arr (vs @ map fst drs))"
    "rates_at h' drs (List.map_filter ?spec ndes)"
    "\<forall>(d, r) \<in> set drs. fresh_from h d \<and> fresh_from h r" "keeps {arr} h h'" by blast
  let ?nds = "filter (has_rate h odes) ndes"
  have all: "list_all2 (\<lambda>p nde. rate_at h' p (the (?spec nde))) drs ?nds"
    using drs(2) by (simp add: rates_at_def rate_specs_filter list_all2_map2)
  have each: "\<forall>k \<in> entry_tags h nde. object_get_ex h' (fst p) k = object_get_ex h nde k"
    if p: "rate_at h' p (the (?spec nde))" and nde: "nde \<in> set ?nds" for p nde
  proof -
    have "?spec nde = Some (the (?spec nde))" using nde rate_spec_defined[of E idt h odes nde] by simp
    then show ?thesis using rate_at_entry[of h' "fst p" "snd p"] p by (metis prod.collapse)
  qed
  have "list_all2 (\<lambda>d nde. \<forall>k \<in> entry_tags h nde. object_get_ex h' d k = object_get_ex h nde k)
      (map fst drs) ?nds"
    unfolding list_all2_map1 using all
  proof (rule list.rel_mono_strong)
    fix p nde assume "nde \<in> set ?nds" "rate_at h' p (the (?spec nde))"
    then show "\<forall>k \<in> entry_tags h nde. object_get_ex h' (fst p) k = object_get_ex h nde k"
      by (intro each)
  qed
  moreover have "distinct (map fst drs)" using drs(2) by (simp add: rates_at_def)
  ultimately show "\<exists>ds. node_of h' arr = Some (Arr (vs @ ds)) \<and> distinct ds \<and> (\<forall>d \<in> set ds. fresh_from h d) \<and>
    list_all2 (\<lambda>d nde. \<forall>k \<in> entry_tags h nde. object_get_ex h' d k = object_get_ex h nde k) ds ?nds \<and>
    keeps {arr} h h'"
    using drs by (intro exI[of _ "map fst drs"]) auto
qed

theorem calc_rates_entries_witness:
  "ok (calc_rates plain_env (JRef 6) (JRef 0) (JRef 3) (1/10) sample_reports)
    (\<lambda>h'. \<exists>d. node_of h' (JRef 6) = Some (Arr [d]) \<and> object_get_ex h' d ''jid'' = Some (JString ''4711''))"
proof -
  have "ok (calc_rates plain_env (JRef 6) (JRef 0) (JRef 3) (1/10) sample_reports)
    (\<lambda>h'. \<exists>ds. node_of h' (JRef 6) = Some (Arr ([] @ ds)) \<and>
      distinct ds \<and> (\<forall>d \<in> set ds. fresh_from sample_reports d) \<and>
      list_all2 (\<lambda>d nde. \<forall>k \<in> entry_tags sample_reports nde. object_get_ex h' d k = object_get_ex sample_reports nde k)
        ds (filter (has_rate sample_reports [JRef 4]) [JRef 1]) \<and>
      keeps {JRef 6} sample_reports h')"
    by (rule calc_rates_entries) (use sample_reports_ok in auto)
  then show ?thesis
  proof (rule ok_mono)
    fix h'
    assume "\<exists>ds. node_of h' (JRef 6) = Some (Arr ([] @ ds)) \<and>
      distinct ds \<and> (\<forall>d \<in> set ds. fresh_from sample_reports d) \<and>
      list_all2 (\<lambda>d nde. \<forall>k \<in> entry_tags sample_reports nde. object_get_ex h' d k = object_get_ex sample_reports nde k)
        ds (filter (has_rate sample_reports [JRef 4]) [JRef 1]) \<and>
      keeps {JRef 6} sample_reports h'"
    then obtain d where d: "node_of h' (JRef 6) = Some (Arr [d])"
      "\<forall>k \<in> entry_tags sample_reports (JRef 1). object_get_ex h' d k = object_get_ex sample_reports (JRef 1) k"
      using sample_reports_rate by (auto simp: list_all2_Cons2 simp del: One_nat_def)
    moreover have "''jid'' \<in> entry_tags sample_reports (JRef 1)"
      by (simp add: entry_tags_def sample_reports_get client_tags_def sample_export_fields_def del: One_nat_def)
    ultimately show "\<exists>d. node_of h' (JRef 6) = Some (Arr [d]) \<and> object_get_ex h' d ''jid'' = Some (JString ''4711'')"
      by (auto simp: sample_reports_get sample_export_fields_def simp del: One_nat_def)
  qed
qed

text \<open>C7. The rate of every event: never negative; the increase of the counter over the interval (correct up
  to the one rounding of the product) when the counter has grown; zero when it went back, and zero for an
  event the old report did not have.\<close>

theorem calc_rates_counters:
  assumes "node_of h nda = Some (Arr ndes)" "node_of h oda = Some (Arr odes)"
    and "node_of h arr = Some (Arr vs)" "arr \<noteq> nda"
    and "\<And>v. v \<in> set ndes \<union> set odes \<Longrightarrow> stat_entry_ok h v"
    and "rounding (fl E)" "0 \<le> idt"
    and new: "nde \<in> set ndes" "matches h k nde" "object_get_ex h nde ''stats'' = Some nst"
    and dist: "distinct (keys (fields_at h nst))"
    and old: "ode \<in> set odes" "matches h k ode" "object_get_ex h ode ''stats'' = Some ost"
    and uniq: "\<And>v. v \<in> set odes \<Longrightarrow> matches h k v \<Longrightarrow> v = ode"
  shows "ok (calc_rates E arr nda oda idt h) (\<lambda>h'. \<exists>ds d r. node_of h' arr = Some (Arr (vs @ ds)) \<and>
    d \<in> set ds \<and> (\<forall>t \<in> entry_tags h nde. object_get_ex h' d t = object_get_ex h nde t) \<and>
    object_get_ex h' d ''stats'' = Some r \<and>
    (\<forall>e nv. object_get_ex h nst e = Some nv \<longrightarrow> (\<exists>x. object_get_ex h' r e = Some (JDouble x) \<and>
      counter_rate E idt nv (object_get_ex h ost e) x)))"
proof (rule ok_mono[OF calc_rates_spec[OF assms(1-5)]], assumption)
  fix h'
  let ?spec = "rate_spec E idt h (old_map h odes)"
  assume "\<exists>drs. node_of h' arr = Some (Arr (vs @ map fst drs)) \<and>
    rates_at h' drs (List.map_filter ?spec ndes) \<and>
    (\<forall>(d, r) \<in> set drs. fresh_from h d \<and> fresh_from h r) \<and> keeps {arr} h h'"
  then obtain drs where drs: "node_of h' arr = Some (Arr (vs @ map fst drs))"
    "rates_at h' drs (List.map_filter ?spec ndes)" by blast
  have nobj: "is_obj h nst" using assms(5)[of nde] new unfolding stat_entry_ok_def by blast
  have om: "map_of (old_map h odes) k = Some ost"
  proof -
    have "\<exists>ws. filter (matches h k) (rev odes) = ode # ws"
    proof (cases "filter (matches h k) (rev odes)")
      case Nil
      then show ?thesis using old(1,2) by (metis filter_empty_conv set_rev)
    next
      case (Cons w ws)
      then have "w \<in> set (filter (matches h k) (rev odes))" by simp
      then have "w \<in> set odes" "matches h k w" by simp_all
      then have "w = ode" by (rule uniq)
      with Cons show ?thesis by blast
    qed
    then obtain ws where "filter (matches h k) (rev odes) = ode # ws" ..
    then show ?thesis using old by (simp add: map_of_old_map)
  qed
  let ?st = "event_rates E idt (object_get_ex h ost) (fields_at h nst) []"
  have sp: "?spec nde = Some (rate_tags h nde, ?st)"
    using new om unfolding rate_spec_def by (simp add: matches_def)
  then have mem: "(rate_tags h nde, ?st) \<in> set (List.map_filter ?spec ndes)"
    using new(1) by (force simp: List.map_filter_def)
  obtain d r where dr: "(d, r) \<in> set drs" "rate_at h' (d, r) (rate_tags h nde, ?st)"
  proof -
    assume *: "\<And>d r. (d, r) \<in> set drs \<Longrightarrow> rate_at h' (d, r) (rate_tags h nde, ?st) \<Longrightarrow> thesis"
    obtain i where i: "i < length (List.map_filter ?spec ndes)"
      "List.map_filter ?spec ndes ! i = (rate_tags h nde, ?st)"
      using mem by (auto simp: in_set_conv_nth)
    moreover have "length drs = length (List.map_filter ?spec ndes)"
      "\<And>j. j < length drs \<Longrightarrow> rate_at h' (drs ! j) (List.map_filter ?spec ndes ! j)"
      using drs(2) unfolding rates_at_def list_all2_conv_all_nth by blast+
    ultimately have "i < length drs" "rate_at h' (drs ! i) (rate_tags h nde, ?st)" by metis+
    then show thesis using *[of "fst (drs ! i)" "snd (drs ! i)"] by simp
  qed
  have get: "object_get_ex h nst e = map_of (fields_at h nst) e" for e
    using nobj by (auto simp: is_obj_def)
  have val: "object_get_ex h' r e = Some (JDouble (event_rate E idt nv (object_get_ex h ost e)))"
    if "object_get_ex h nst e = Some nv" for e nv
    using dr(2) that dist get by (simp add: rate_at_def map_of_event_rates)
  have each: "\<exists>x. object_get_ex h' r e = Some (JDouble x) \<and>
      counter_rate E idt nv (object_get_ex h ost e) x"
    if "object_get_ex h nst e = Some nv" for e nv
    using val[OF that] counter_rate_event_rate[OF assms(6,7)] by blast
  then show "\<exists>ds d r. node_of h' arr = Some (Arr (vs @ ds)) \<and> d \<in> set ds \<and>
    (\<forall>t \<in> entry_tags h nde. object_get_ex h' d t = object_get_ex h nde t) \<and>
    object_get_ex h' d ''stats'' = Some r \<and>
    (\<forall>e nv. object_get_ex h nst e = Some nv \<longrightarrow> (\<exists>x. object_get_ex h' r e = Some (JDouble x) \<and>
      counter_rate E idt nv (object_get_ex h ost e) x))"
  proof (intro exI conjI)
    show "node_of h' arr = Some (Arr (vs @ map fst drs))" by (rule drs(1))
    show "d \<in> set (map fst drs)" using dr(1) by force
    show "\<forall>t \<in> entry_tags h nde. object_get_ex h' d t = object_get_ex h nde t"
      using rate_at_entry[OF dr(2) sp] by blast
    show "object_get_ex h' d ''stats'' = Some r" using dr(2) by (simp add: rate_at_def)
  qed (use each in blast)
qed

theorem calc_rates_counters_witness:
  "ok (calc_rates plain_env (JRef 6) (JRef 0) (JRef 3) (1/10) sample_reports)
    (\<lambda>h'. \<exists>d r. object_get_ex h' d ''stats'' = Some r \<and> object_get_ex h' r ''open'' = Some (JDouble 2) \<and>
      object_get_ex h' r ''close'' = Some (JDouble 0) \<and> object_get_ex h' r ''mkdir'' = Some (JDouble 0))"
proof -
  let ?k = "''10.0.0.7@o2ib_scratch-MDT0000_mdt''"
  have "ok (calc_rates plain_env (JRef 6) (JRef 0) (JRef 3) (1/10) sample_reports) (\<lambda>h'. \<exists>ds d r.
    node_of h' (JRef 6) = Some (Arr ([] @ ds)) \<and> d \<in> set ds \<and>
    (\<forall>t \<in> entry_tags sample_reports (JRef 1). object_get_ex h' d t = object_get_ex sample_reports (JRef 1) t) \<and>
    object_get_ex h' d ''stats'' = Some r \<and>
    (\<forall>e nv. object_get_ex sample_reports (JRef 2) e = Some nv \<longrightarrow> (\<exists>x. object_get_ex h' r e = Some (JDouble x) \<and>
      counter_rate plain_env (1/10) nv (object_get_ex sample_reports (JRef 5) e) x)))"
  proof (rule calc_rates_counters[where ndes = "[JRef 1]" and odes = "[JRef 4]" and k = ?k])
    show "rounding (fl plain_env)" by (simp add: plain_env_def rounding_id)
    show "matches sample_reports ?k (JRef 1)" "matches sample_reports ?k (JRef 4)"
      unfolding matches_def by (simp_all add: sample_reports_key sample_reports_get sample_export_fields_def del: One_nat_def)
    show "object_get_ex sample_reports (JRef 1) ''stats'' = Some (JRef 2)"
      "object_get_ex sample_reports (JRef 4) ''stats'' = Some (JRef 5)"
      unfolding sample_reports_get by (simp_all add: sample_export_fields_def)
    show "distinct (keys (fields_at sample_reports (JRef 2)))"
      by (simp add: fields_at_def obj_of_def node_of_def sample_reports_def)
  qed (use sample_reports_ok in auto)
  then show ?thesis
  proof (rule ok_mono)
    fix h'
    assume "\<exists>ds d r.
      node_of h' (JRef 6) = Some (Arr ([] @ ds)) \<and> d \<in> set ds \<and>
      (\<forall>t \<in> entry_tags sample_reports (JRef 1). object_get_ex h' d t = object_get_ex sample_reports (JRef 1) t) \<and>
      object_get_ex h' d ''stats'' = Some r \<and>
      (\<forall>e nv. object_get_ex sample_reports (JRef 2) e = Some nv \<longrightarrow> (\<exists>x. object_get_ex h' r e = Some (JDouble x) \<and>
        counter_rate plain_env (1/10) nv (object_get_ex sample_reports (JRef 5) e) x))"
    then obtain d r where dr: "object_get_ex h' d ''stats'' = Some r" and
      each: "\<And>e nv. object_get_ex sample_reports (JRef 2) e = Some nv \<Longrightarrow> \<exists>x. object_get_ex h' r e = Some (JDouble x) \<and>
        counter_rate plain_env (1/10) nv (object_get_ex sample_reports (JRef 5) e) x" by blast
    have "object_get_ex h' r ''open'' = Some (JDouble 2)"
      using each[of "''open''" "JInt 30"]
      by (auto simp: sample_reports_get counter_rate_def get_int64_def plain_env_def)
    moreover have "object_get_ex h' r ''close'' = Some (JDouble 0)"
      using each[of "''close''" "JInt 4"]
      by (auto simp: sample_reports_get counter_rate_def get_int64_def)
    moreover have "object_get_ex h' r ''mkdir'' = Some (JDouble 0)"
      using each[of "''mkdir''" "JInt 2"]
      by (auto simp: sample_reports_get counter_rate_def get_int64_def)
    ultimately show "\<exists>d r. object_get_ex h' d ''stats'' = Some r \<and> object_get_ex h' r ''open'' = Some (JDouble 2) \<and>
      object_get_ex h' r ''close'' = Some (JDouble 0) \<and> object_get_ex h' r ''mkdir'' = Some (JDouble 0)"
      using dr by blast
  qed
qed

end
