(* ===== verification/Aggregate.thy ===== *)
theory Aggregate
  imports Rates
begin

text \<open>
  \<open>add_stats\<close> and \<open>aggregate_stat\<close> of \<open>server/stats.c\<close>: the rate entries of a server are summed by
  the tuple of tags the view is grouped by.  A tag map is a json object from the text of a tuple to the
  object of its events.

  The specification is a partial function from tuples to events: \<open>absorb\<close> adds the events of one
  entry to it, and the locale \<open>accumulation\<close> proves once what every such grouping has:
  whatever is measured additively is conserved, and the order of the entries does not matter for
  the totals.  \<open>add_stats_refines\<close> and \<open>aggregate_stat_refines\<close> relate the code to it, on stores
  in which the summed objects are not shared.
\<close>

section \<open>The code\<close>

definition add_event :: "env \<Rightarrow> jval \<Rightarrow> string \<times> jval \<Rightarrow> heap \<Rightarrow> heap option" where
  "add_event E pre_stats = (\<lambda>(event, new_val) h.
     (case object_get_ex h pre_stats event of
        Some pre_val \<Rightarrow>
          (if event \<noteq> ''load''
           then object_add pre_stats event
             (JDouble (fl E (get_double E new_val + get_double E pre_val))) h
           else object_add pre_stats event new_val h)
      | None \<Rightarrow> object_add pre_stats event new_val h))"

definition add_stats :: "env \<Rightarrow> jval \<Rightarrow> string \<Rightarrow> jval \<Rightarrow> heap \<Rightarrow> heap option" where
  "add_stats E tag_map tags stats h =
    (case object_get_ex h tag_map tags of
       Some pre_stats \<Rightarrow> do {
         events \<leftarrow> object_foreach h stats;
         h1 \<leftarrow> foldM (add_event E pre_stats) events h;
         object_add tag_map tags pre_stats h1
       }
     | None \<Rightarrow> object_add tag_map tags stats h)"

text \<open>The key of an entry in the tag map: the text of its tags, used as a format of 255 characters.\<close>

definition tag_text :: "env \<Rightarrow> jval \<Rightarrow> jval \<Rightarrow> heap \<Rightarrow> (string \<times> heap) option" where
  "tag_text E tag_tuple de h =
    (let (tags, h1) = new_object h in do {
       tuple \<leftarrow> object_foreach h1 tag_tuple;
       h2 \<leftarrow> copy_tags de (map (\<lambda>(tag, t). (tag, tag)) tuple) tags h1;
       Some (snprintf_fmt E 256 (to_json_string E h2 tags), h2)
     })"

text \<open>A client is counted with the first of its entries.\<close>

definition count_client :: "env \<Rightarrow> jval \<Rightarrow> jval \<Rightarrow> jval \<Rightarrow> heap \<Rightarrow> heap option" where
  "count_client E clients de stats h = do {
     h1 \<leftarrow> object_add stats ''nclients'' (JInt 0) h;
     (case object_get_ex h1 de ''client_nid'' of
        None \<Rightarrow> Some h1
      | Some tid \<Rightarrow>
          if tid = JNull then Some h1
          else do {
            nid \<leftarrow> get_string E h1 tid;
            (case object_get_ex h1 clients nid of
               Some tmp \<Rightarrow> Some h1
             | None \<Rightarrow> do {
                 h2 \<leftarrow> object_add clients nid (JString '''') h1;
                 object_add stats ''nclients'' (JInt 1) h2
               })
          })
   }"

definition aggregate_entry ::
    "env \<Rightarrow> jval \<Rightarrow> string \<Rightarrow> jval \<Rightarrow> jval \<Rightarrow> jval \<Rightarrow> heap \<Rightarrow> heap option" where
  "aggregate_entry E tag_tuple stat_type tag_map clients de h =
    (case object_get_ex h de ''stats'' of
       None \<Rightarrow> Some h
     | Some stats \<Rightarrow>
         (case object_get_ex h de ''stats_type'' of
            None \<Rightarrow> Some h
          | Some tid \<Rightarrow> do {
              ty \<leftarrow> get_string E h tid;
              if ty \<noteq> stat_type then Some h
              else do {
                (tags_str, h1) \<leftarrow> tag_text E tag_tuple de h;
                h2 \<leftarrow> count_client E clients de stats h1;
                add_stats E tag_map tags_str stats h2
              }
            }))"

definition aggregate_stat ::
    "env \<Rightarrow> jval \<Rightarrow> jval \<Rightarrow> string \<Rightarrow> jval \<Rightarrow> heap \<Rightarrow> heap option" where
  "aggregate_stat E host_entry tag_tuple stat_type tag_map h =
    (case object_get_ex h host_entry ''rates'' of
       None \<Rightarrow> Some h
     | Some da \<Rightarrow> do {
         arraylen \<leftarrow> array_length h da;
         if arraylen = 0 then Some h
         else (let (clients, h1) = new_object h in
           foldM (\<lambda>i h. do {
             de \<leftarrow> array_get_idx h da i;
             aggregate_entry E tag_tuple stat_type tag_map clients de h
           }) [0..<arraylen] h1)
       })"

section \<open>Grouping as a specification\<close>

definition absorb :: "('e \<Rightarrow> 'e \<Rightarrow> 'e) \<Rightarrow> string \<times> 'e \<Rightarrow> (string \<Rightarrow> 'e option) \<Rightarrow> (string \<Rightarrow> 'e option)" where
  "absorb comb = (\<lambda>(t, x) m. m(t \<mapsto> (case m t of None \<Rightarrow> x | Some p \<Rightarrow> comb x p)))"

definition total :: "('e \<Rightarrow> 'a::comm_monoid_add) \<Rightarrow> (string \<Rightarrow> 'e option) \<Rightarrow> 'a" where
  "total val m = (\<Sum>t \<in> dom m. val (the (m t)))"

text \<open>What a way of combining events and a measurement of them have to satisfy.\<close>

locale accumulation =
  fixes comb :: "'e \<Rightarrow> 'e \<Rightarrow> 'e"
    and val :: "'e \<Rightarrow> 'a::comm_monoid_add"
    and wf :: "'e \<Rightarrow> bool"
  assumes val_comb: "wf x \<Longrightarrow> wf p \<Longrightarrow> val (comb x p) = val x + val p"
    and wf_comb: "wf x \<Longrightarrow> wf p \<Longrightarrow> wf (comb x p)"
begin

lemma wf_absorb:
  "wf x \<Longrightarrow> \<forall>p \<in> ran m. wf p \<Longrightarrow> \<forall>p \<in> ran (absorb comb (t, x) m). wf p"
  by (auto simp: absorb_def ran_def wf_comb split: option.splits if_splits)

lemma finite_absorb: "finite (dom m) \<Longrightarrow> finite (dom (absorb comb (t, x) m))"
  by (simp add: absorb_def)

lemma total_absorb:
  assumes "finite (dom m)" "wf x" "\<forall>p \<in> ran m. wf p"
  shows "total val (absorb comb (t, x) m) = val x + total val m"
proof (cases "m t")
  case None
  then have "t \<notin> dom m" by auto
  moreover have "(\<Sum>s \<in> dom m. val (the ((m(t \<mapsto> x)) s))) = (\<Sum>s \<in> dom m. val (the (m s)))"
    using \<open>t \<notin> dom m\<close> by (intro sum.cong) auto
  ultimately show ?thesis using None assms(1) by (simp add: total_def absorb_def)
next
  case (Some p)
  then have t: "t \<in> dom m" "wf p" using assms(3) by (auto simp: ran_def)
  have "(\<Sum>s \<in> dom m - {t}. val (the ((m(t \<mapsto> comb x p)) s))) = (\<Sum>s \<in> dom m - {t}. val (the (m s)))"
    by (intro sum.cong) auto
  then have "total val (absorb comb (t, x) m) = val (comb x p) + (\<Sum>s \<in> dom m - {t}. val (the (m s)))"
    using Some assms(1) t by (simp add: total_def absorb_def insert_absorb sum.remove)
  also have "\<dots> = val x + (val p + (\<Sum>s \<in> dom m - {t}. val (the (m s))))"
    using val_comb[OF assms(2) t(2)] by (simp add: add.assoc)
  also have "val p + (\<Sum>s \<in> dom m - {t}. val (the (m s))) = total val m"
    using Some assms(1) t by (simp add: total_def sum.remove[of "dom m" t])
  finally show ?thesis .
qed

lemma total_fold:
  assumes "finite (dom m)" "\<forall>p \<in> ran m. wf p" "\<forall>(t, x) \<in> set ps. wf x"
  shows "total val (fold (absorb comb) ps m) = (\<Sum>(t, x) \<leftarrow> ps. val x) + total val m"
  using assms
proof (induction ps arbitrary: m)
  case Nil
  then show ?case by simp
next
  case (Cons q ps)
  obtain t x where q: "q = (t, x)" by (cases q)
  with Cons.prems have x: "wf x" by simp
  have "total val (fold (absorb comb) ps (absorb comb (t, x) m)) =
      (\<Sum>(t, x) \<leftarrow> ps. val x) + total val (absorb comb (t, x) m)"
    using Cons.prems q x by (intro Cons.IH finite_absorb wf_absorb) auto
  with q x Cons.prems show ?case by (simp add: total_absorb add.assoc add.left_commute)
qed

end

section \<open>Summing events\<close>

definition merge :: "env \<Rightarrow> (string \<times> jval) list \<Rightarrow> (string \<times> jval) list \<Rightarrow> (string \<times> jval) list" where
  "merge E events pre =
    fold (\<lambda>(event, new_val) kvs. AList.update event
        (case map_of kvs event of
           Some pre_val \<Rightarrow>
             (if event \<noteq> ''load'' then JDouble (fl E (get_double E new_val + get_double E pre_val)) else new_val)
         | None \<Rightarrow> new_val) kvs) events pre"

definition event_value :: "env \<Rightarrow> string \<Rightarrow> (string \<times> jval) list \<Rightarrow> double" where
  "event_value E e kvs = (case map_of kvs e of None \<Rightarrow> 0 | Some v \<Rightarrow> get_double E v)"

lemma merge_Nil [simp]: "merge E [] pre = pre"
  by (simp add: merge_def)

lemma distinct_merge: "distinct (keys pre) \<Longrightarrow> distinct (keys (merge E events pre))"
  unfolding merge_def by (induction events arbitrary: pre) auto

lemma map_of_merge:
  assumes "distinct (keys events)"
  shows "map_of (merge E events pre) e =
    (case map_of events e of
       None \<Rightarrow> map_of pre e
     | Some nv \<Rightarrow> Some (case map_of pre e of
         Some pv \<Rightarrow> (if e \<noteq> ''load'' then JDouble (fl E (get_double E nv + get_double E pv)) else nv)
       | None \<Rightarrow> nv))"
  using assms
proof (induction events arbitrary: pre)
  case Nil
  then show ?case by simp
next
  case (Cons q events)
  obtain k nv where q: "q = (k, nv)" by (cases q)
  with Cons.prems have "map_of events k = None" by (simp add: map_of_eq_None)
  with Cons q show ?case by (auto simp: merge_def split: option.splits)
qed

lemma event_value_merge:
  assumes "distinct (keys events)" "e \<noteq> ''load''" "fl E = (\<lambda>x. x)"
  shows "event_value E e (merge E events pre) = event_value E e events + event_value E e pre"
  using assms by (auto simp: event_value_def map_of_merge get_double_def split: option.splits)

text \<open>With exact arithmetic, summing the events conserves every event but the load, which is a
  property of the server and not of a tuple.\<close>

definition summed :: "env \<Rightarrow> string \<Rightarrow> (string \<times> jval) list \<Rightarrow> double" where
  "summed E e kvs = (if e = ''load'' then 0 else event_value E e kvs)"

interpretation exact_sum: accumulation "merge (E\<lparr>fl := \<lambda>x. x\<rparr>)" "summed (E\<lparr>fl := \<lambda>x. x\<rparr>) e"
    "\<lambda>kvs. distinct (keys kvs)"
  for E :: env and e :: string
  by unfold_locales (auto simp: summed_def intro!: event_value_merge distinct_merge)

section \<open>The tag map in the store\<close>

text \<open>The contents of a tag map, its summed objects, and their separation: no two tuples share an
  object.\<close>

definition view :: "heap \<Rightarrow> jval \<Rightarrow> string \<Rightarrow> (string \<times> jval) list option" where
  "view h tm t = (case object_get_ex h tm t of None \<Rightarrow> None | Some r \<Rightarrow> obj_of h r)"

definition refs :: "heap \<Rightarrow> jval \<Rightarrow> jval set" where
  "refs h tm = {r. \<exists>t. object_get_ex h tm t = Some r}"

definition uniq_at :: "heap \<Rightarrow> jval \<Rightarrow> bool" where
  "uniq_at h v \<longleftrightarrow> (\<exists>kvs. node_of h v = Some (Obj kvs) \<and> distinct (keys kvs))"

definition sep :: "heap \<Rightarrow> jval \<Rightarrow> bool" where
  "sep h tm \<longleftrightarrow> uniq_at h tm \<and> tm \<notin> refs h tm \<and>
    (\<forall>t r. object_get_ex h tm t = Some r \<longrightarrow> is_obj h r) \<and>
    (\<forall>s t r. object_get_ex h tm s = Some r \<longrightarrow> object_get_ex h tm t = Some r \<longrightarrow> s = t)"

lemma sepD:
  assumes "sep h tm" "object_get_ex h tm t = Some r"
  shows "\<exists>kvs. node_of h r = Some (Obj kvs)" "r \<noteq> tm"
    "object_get_ex h tm s = Some r \<Longrightarrow> s = t"
  using assms unfolding sep_def refs_def is_obj_def by blast+

lemma sep_tm: "sep h tm \<Longrightarrow> \<exists>kvs. node_of h tm = Some (Obj kvs)"
  by (auto simp: sep_def uniq_at_def)

lemma merge_loop:
  assumes "node_of h pre = Some (Obj m)" "events = fst_events @ es"
  shows "foldM (add_event E pre) es h = Some (store pre (Obj (merge E es m)) h)"
  using assms
proof (induction es arbitrary: h m fst_events)
  case Nil
  then show ?case by (simp add: store_same)
next
  case (Cons q es)
  obtain event nv where q: "q = (event, nv)" by (cases q)
  let ?x = "case map_of m event of
      Some pv \<Rightarrow> (if event \<noteq> ''load'' then JDouble (fl E (get_double E nv + get_double E pv)) else nv)
    | None \<Rightarrow> nv"
  have step: "add_event E pre q h = Some (store pre (Obj (AList.update event ?x m)) h)"
    using Cons.prems(1) by (auto simp: add_event_def q split: option.split)
  have "foldM (add_event E pre) es (store pre (Obj (AList.update event ?x m)) h) =
      Some (store pre (Obj (merge E es (AList.update event ?x m))) h)"
    using Cons.IH[of "store pre (Obj (AList.update event ?x m)) h" "AList.update event ?x m" "fst_events @ [q]"]
      Cons.prems by simp
  with step show ?case by (simp add: merge_def q)
qed

text \<open>Adding the events of an entry to the tag map: the object itself becomes the sum of a new
  tuple, and the sum of a known tuple is updated in place.\<close>

lemma add_stats_eq:
  assumes "sep h tm" "node_of h tm = Some (Obj tms)" "node_of h st = Some (Obj evs)"
  shows "add_stats E tm tags st h = Some (case map_of tms tags of
      None \<Rightarrow> store tm (Obj (AList.update tags st tms)) h
    | Some pre \<Rightarrow> store pre (Obj (merge E evs (fields_at h pre))) h)"
proof (cases "map_of tms tags")
  case None
  with assms show ?thesis by (simp add: add_stats_def)
next
  case (Some pre)
  then have g: "object_get_ex h tm tags = Some pre" using assms(2) by simp
  then obtain m where m: "node_of h pre = Some (Obj m)" using sepD(1)[OF assms(1)] by blast
  have ne: "pre \<noteq> tm" using sepD(2)[OF assms(1) g] .
  let ?h = "store pre (Obj (merge E evs m)) h"
  have tm: "node_of ?h tm = Some (Obj tms)" using assms(2) ne by simp
  have "foldM (add_event E pre) evs h = Some ?h" by (rule merge_loop[OF m]) simp
  moreover have "store tm (Obj (AList.update tags pre tms)) ?h = ?h"
    using tm update_same[OF Some] by (simp add: store_same)
  ultimately show ?thesis using g m assms tm Some by (simp add: add_stats_def)
qed

lemma add_stats_refines:
  assumes "sep h tm" "node_of h st = Some (Obj evs)" "st \<noteq> tm" "st \<notin> refs h tm"
  shows "ok (add_stats E tm tags st h) (\<lambda>h'.
    view h' tm = absorb (merge E) (tags, evs) (view h tm) \<and> sep h' tm \<and>
    refs h' tm \<subseteq> insert st (refs h tm) \<and> keeps (insert tm (refs h tm)) h h')"
proof -
  obtain tms where tms: "node_of h tm = Some (Obj tms)" using sep_tm[OF assms(1)] by blast
  have get: "object_get_ex h tm = map_of tms" using tms by (simp add: fun_eq_iff)
  show ?thesis
  proof (cases "map_of tms tags")
    case None
    let ?h = "store tm (Obj (AList.update tags st tms)) h"
    have get': "object_get_ex ?h tm = (map_of tms)(tags \<mapsto> st)" using tms by (simp add: fun_eq_iff)
    have ob: "is_obj ?h r = is_obj h r" for r using tms by (auto simp: is_obj_def)
    have "view ?h tm = absorb (merge E) (tags, evs) (view h tm)"
    proof
      fix t
      have "r \<noteq> tm" if "map_of tms t = Some r" for r using sepD(2)[OF assms(1)] that get by metis
      then show "view ?h tm t = absorb (merge E) (tags, evs) (view h tm) t"
        using None assms(2,3) unfolding view_def get' get absorb_def
        by (auto simp: obj_of_def split: option.split)
    qed
    moreover have "sep ?h tm"
    proof -
      have st: "((map_of tms)(tags \<mapsto> st)) t = Some r \<Longrightarrow> (t = tags \<and> r = st) \<or> (t \<noteq> tags \<and> map_of tms t = Some r)"
        for t r by (auto split: if_splits)
      have fresh: "map_of tms t \<noteq> Some st" for t using assms(4) by (auto simp: refs_def get)
      have un: "uniq_at ?h tm" using assms(1) tms by (auto simp: uniq_at_def sep_def)
      have old: "\<And>t r. map_of tms t = Some r \<Longrightarrow> r \<noteq> tm \<and> is_obj h r"
        "\<And>s t r. map_of tms s = Some r \<Longrightarrow> map_of tms t = Some r \<Longrightarrow> s = t"
        using assms(1) unfolding sep_def refs_def get by blast+
      have "is_obj h st" using assms(2) by (rule is_objI)
      then show ?thesis
        unfolding sep_def refs_def get' ob using un old st fresh assms(3) by (smt (verit) mem_Collect_eq)
    qed
    moreover have "refs ?h tm \<subseteq> insert st (refs h tm)" unfolding refs_def get' get by auto
    moreover have "keeps (insert tm (refs h tm)) h ?h" using tms by (auto intro: keeps_store_obj)
    ultimately show ?thesis using add_stats_eq[OF assms(1) tms assms(2)] None by simp
  next
    case (Some pre)
    then have g: "object_get_ex h tm tags = Some pre" using get by simp
    then obtain m where m: "node_of h pre = Some (Obj m)" using sepD(1)[OF assms(1)] by blast
    have ne: "pre \<noteq> tm" using sepD(2)[OF assms(1) g] .
    let ?h = "store pre (Obj (merge E evs m)) h"
    have get': "object_get_ex ?h tm = object_get_ex h tm" using ne by simp
    have ob: "is_obj ?h r = is_obj h r" for r using m by (auto simp: is_obj_def)
    have "view ?h tm = absorb (merge E) (tags, evs) (view h tm)"
    proof
      fix t
      show "view ?h tm t = absorb (merge E) (tags, evs) (view h tm) t"
      proof (cases "t = tags")
        case True
        with g m show ?thesis by (simp add: view_def get' absorb_def)
      next
        case False
        show ?thesis
        proof (cases "object_get_ex h tm t")
          case None
          with False show ?thesis by (simp add: view_def get' absorb_def)
        next
          case t: (Some r)
          then have "r \<noteq> pre" using sepD(3)[OF assms(1) g] False by blast
          then have "obj_of ?h r = obj_of h r" by (simp add: obj_of_def)
          with False t show ?thesis by (simp add: view_def get' absorb_def)
        qed
      qed
    qed
    moreover have "uniq_at ?h tm = uniq_at h tm" using ne by (auto simp: uniq_at_def)
    then have "sep ?h tm" using assms(1) unfolding sep_def refs_def get' ob by simp
    moreover have "refs ?h tm \<subseteq> insert st (refs h tm)" unfolding refs_def get' by auto
    moreover have "keeps (insert tm (refs h tm)) h ?h"
      using m g by (intro keeps_store_obj) (auto simp: refs_def)
    ultimately show ?thesis using add_stats_eq[OF assms(1) tms assms(2)] Some m by simp
  qed
qed

section \<open>Aggregating the entries of a server\<close>

definition scalar :: "jval \<Rightarrow> bool" where
  "scalar v \<longleftrightarrow> (\<forall>a. v \<noteq> JRef a)"

definition tuple_pairs :: "(string \<times> jval) list \<Rightarrow> (string \<times> string) list" where
  "tuple_pairs tuple = map (\<lambda>(tag, t). (tag, tag)) tuple"

definition group_text :: "env \<Rightarrow> (string \<times> jval) list \<Rightarrow> (string \<Rightarrow> jval option) \<Rightarrow> string" where
  "group_text E tuple get = snprintf_fmt E 256 (to_json E (TObject
    (map (\<lambda>(k, v). (k, tree_of 0 [] v)) (copied get (tuple_pairs tuple) []))))"

definition entry_nid :: "heap \<Rightarrow> jval \<Rightarrow> string option" where
  "entry_nid h d = (case object_get_ex h d ''client_nid'' of Some (JString n) \<Rightarrow> Some n | _ \<Rightarrow> None)"

definition counted :: "bool \<Rightarrow> (string \<times> jval) list \<Rightarrow> (string \<times> jval) list" where
  "counted first evs = AList.update ''nclients'' (JInt (if first then 1 else 0)) evs"

definition selects :: "heap \<Rightarrow> string \<Rightarrow> jval \<Rightarrow> bool" where
  "selects h ty d \<longleftrightarrow> object_get_ex h d ''stats'' \<noteq> None \<and> object_get_ex h d ''stats_type'' = Some (JString ty)"

definition stats_obj :: "heap \<Rightarrow> jval \<Rightarrow> jval" where
  "stats_obj h d = the (object_get_ex h d ''stats'')"

text \<open>One entry: the clients seen so far, and the contents of the tag map.\<close>

definition agg_step :: "env \<Rightarrow> (string \<times> jval) list \<Rightarrow> string \<Rightarrow> heap \<Rightarrow> jval \<Rightarrow>
    string list \<times> (string \<Rightarrow> (string \<times> jval) list option) \<Rightarrow>
    string list \<times> (string \<Rightarrow> (string \<times> jval) list option)" where
  "agg_step E tuple ty h d = (\<lambda>(seen, m).
    if selects h ty d
    then (let first = (case entry_nid h d of None \<Rightarrow> False | Some n \<Rightarrow> n \<notin> set seen)
          in (if first then seen @ [the (entry_nid h d)] else seen,
              absorb (merge E) (group_text E tuple (object_get_ex h d),
                counted first (fields_at h (stats_obj h d))) m))
    else (seen, m))"

definition agg_entry_ok :: "heap \<Rightarrow> (string \<times> jval) list \<Rightarrow> jval \<Rightarrow> bool" where
  "agg_entry_ok h tuple d \<longleftrightarrow> is_obj h d \<and>
    (\<forall>k \<in> {''stats_type'', ''client_nid''}. \<forall>x. object_get_ex h d k = Some x \<longrightarrow> (\<exists>s. x = JString s)) \<and>
    (\<forall>x. object_get_ex h d ''stats'' = Some x \<longrightarrow> is_obj h x) \<and>
    (\<forall>k \<in> fst ` set tuple. \<forall>x. object_get_ex h d k = Some x \<longrightarrow> scalar x)"

lemma tree_of_scalar: "scalar v \<Longrightarrow> tree_of n h v = tree_of 0 [] v"
  by (cases v; cases n) (auto simp: scalar_def)

lemma set_copied: "(k, v) \<in> set (copied get ps kvs) \<Longrightarrow>
    (k, v) \<in> set kvs \<or> (\<exists>j. (j, k) \<in> set ps \<and> get j = Some v)"
proof (induction ps arbitrary: kvs)
  case Nil
  then show ?case by simp
next
  case (Cons p ps)
  obtain j j' where p: "p = (j, j')" by (cases p)
  from Cons.IH[of "case get j of None \<Rightarrow> kvs | Some x \<Rightarrow> AList.update j' x kvs"] Cons.prems p
  show ?case
    by (cases "get j") (auto dest: subsetD[OF set_update_subset])
qed

lemma tag_text_eq:
  assumes "node_of h tuple = Some (Obj tkvs)" "is_obj h d"
    and "\<And>k x. k \<in> fst ` set tkvs \<Longrightarrow> object_get_ex h d k = Some x \<Longrightarrow> scalar x"
  shows "tag_text E tuple d h = Some (group_text E tkvs (object_get_ex h d),
    push (Obj (copied (object_get_ex h d) (tuple_pairs tkvs) [])) h)"
proof -
  let ?tags = "copied (object_get_ex h d) (tuple_pairs tkvs) []"
  have ne: "tuple \<noteq> JRef (length h)" "d \<noteq> JRef (length h)" using assms(1,2) by (auto simp: is_obj_def)
  have sc: "scalar v" if "(k, v) \<in> set ?tags" for k v
    using set_copied[OF that] assms(3) by (force simp: tuple_pairs_def)
  have "to_json_string E (push (Obj ?tags) h) (JRef (length h)) =
      to_json E (TObject (map (\<lambda>(k, v). (k, tree_of 0 [] v)) ?tags))"
    using sc by (auto simp: to_json_string_def intro!: arg_cong[where f = "to_json E"] tree_of_scalar)
  then show ?thesis
    using assms(1) ne copy_tags_newest[of d h "tuple_pairs tkvs" "[]"]
    by (simp add: tag_text_def new_object_def new_node_def group_text_def tuple_pairs_def[symmetric])
qed

lemma store_swap: "v \<noteq> w \<Longrightarrow> store v a (store w b h) = store w b (store v a h)"
  by (cases v; cases w) (simp_all add: store_def list_update_swap)

lemma count_client_eq:
  assumes "node_of h clients = Some (Obj c)" "node_of h st = Some (Obj evs)" "clients \<noteq> st"
    and "is_obj h d" "d \<noteq> st" "d \<noteq> clients"
    and "\<And>x. object_get_ex h d ''client_nid'' = Some x \<Longrightarrow> \<exists>s. x = JString s"
  defines "first \<equiv> (case entry_nid h d of None \<Rightarrow> False | Some n \<Rightarrow> n \<notin> set (keys c))"
  shows "count_client E clients d st h = Some (store st (Obj (counted first evs))
    (store clients (Obj (if first then c @ [(the (entry_nid h d), JString '''')] else c)) h))"
proof (cases "object_get_ex h d ''client_nid''")
  case None
  with assms show ?thesis
    by (simp add: count_client_def entry_nid_def counted_def store_same)
next
  case (Some x)
  then obtain n where n: "object_get_ex h d ''client_nid'' = Some (JString n)" using assms(7) by blast
  show ?thesis
  proof (cases "map_of c n")
    case None
    then have "n \<notin> fst ` set c" by (simp add: map_of_eq_None)
    moreover have "store st (Obj a) (store clients b (store st d h)) = store st (Obj a) (store clients b h)" for a b d
      using store_swap[OF assms(3), of b d h] by simp
    ultimately show ?thesis
      using assms n None by (simp add: count_client_def entry_nid_def counted_def)
  next
    case (Some y)
    then have "n \<in> fst ` set c" by (metis map_of_eq_None_iff option.distinct(1))
    with assms n Some show ?thesis
      by (simp add: count_client_def entry_nid_def counted_def store_same)
  qed
qed

text \<open>The loop invariant: the clients seen, the contents of the tag map, and what may have been written.\<close>

definition stats_of :: "heap \<Rightarrow> jval list \<Rightarrow> jval set" where
  "stats_of h ds = {st. \<exists>d \<in> set ds. object_get_ex h d ''stats'' = Some st}"

definition picked :: "heap \<Rightarrow> string \<Rightarrow> jval list \<Rightarrow> jval set" where
  "picked h ty ds = stats_of h (filter (selects h ty) ds)"

lemma picked_subset: "picked h ty ds \<subseteq> stats_of h ds"
  by (auto simp: picked_def stats_of_def)

lemma picked_mono: "set xs \<subseteq> set ys \<Longrightarrow> picked h ty xs \<subseteq> picked h ty ys"
  by (auto simp: picked_def stats_of_def)

definition agg_inv :: "env \<Rightarrow> (string \<times> jval) list \<Rightarrow> string \<Rightarrow> heap \<Rightarrow> jval \<Rightarrow> jval \<Rightarrow> jval list \<Rightarrow> heap \<Rightarrow> bool" where
  "agg_inv E tkvs ty h tm clients ys g \<longleftrightarrow>
    (\<exists>c. node_of g clients = Some (Obj c) \<and>
      (keys c, view g tm) = fold (agg_step E tkvs ty h) ys ([], view h tm)) \<and>
    sep g tm \<and> refs g tm \<subseteq> refs h tm \<union> picked h ty ys \<and>
    keeps ({tm, clients} \<union> refs h tm \<union> picked h ty ys) h g"

lemma push_frame:
  assumes "sep h tm"
  shows "view (push n h) tm = view h tm" "sep (push n h) tm" "refs (push n h) tm = refs h tm"
proof -
  obtain kvs where tm: "node_of h tm = Some (Obj kvs)" using sep_tm[OF assms] by blast
  then have get: "object_get_ex (push n h) tm = object_get_ex h tm" by auto
  have ob: "is_obj h r \<Longrightarrow> is_obj (push n h) r" for r by (auto simp: is_obj_def)
  show r: "refs (push n h) tm = refs h tm" by (simp add: refs_def get)
  have "uniq_at (push n h) tm = uniq_at h tm" using tm by (auto simp: uniq_at_def)
  then show "sep (push n h) tm" using assms ob unfolding sep_def r get by blast
  show "view (push n h) tm = view h tm"
  proof
    fix t
    show "view (push n h) tm t = view h tm t"
      using sepD(1)[OF assms, of t] unfolding view_def get
      by (cases "object_get_ex h tm t") (auto simp: obj_of_def)
  qed
qed

lemma store_frame:
  assumes "sep h tm" "v \<noteq> tm" "v \<notin> refs h tm" "node_of h v = Some (Obj kvs)"
  shows "view (store v (Obj x) h) tm = view h tm" "sep (store v (Obj x) h) tm"
    "refs (store v (Obj x) h) tm = refs h tm"
proof -
  have get: "object_get_ex (store v (Obj x) h) tm = object_get_ex h tm" using assms(2) by simp
  have ob: "is_obj (store v (Obj x) h) r = is_obj h r" for r using assms(4) by (auto simp: is_obj_def)
  show r: "refs (store v (Obj x) h) tm = refs h tm" by (simp add: refs_def get)
  have "uniq_at (store v (Obj x) h) tm = uniq_at h tm" using assms(2) by (auto simp: uniq_at_def)
  then show "sep (store v (Obj x) h) tm" using assms(1) unfolding sep_def r get ob by simp
  show "view (store v (Obj x) h) tm = view h tm"
  proof
    fix t
    have "r \<noteq> v" if "object_get_ex h tm t = Some r" for r using assms(3) that by (auto simp: refs_def)
    then show "view (store v (Obj x) h) tm t = view h tm t"
      unfolding view_def get by (cases "object_get_ex h tm t") (auto simp: obj_of_def)
  qed
qed

lemma counted_frame:
  assumes g: "sep g tm" and c: "node_of g clients = Some (Obj c)" and s: "node_of g s = Some (Obj evs)"
    and away: "clients \<notin> insert tm (refs g tm)" "s \<notin> insert tm (refs g tm)" and ne: "clients \<noteq> s"
    and g2: "g2 = store s (Obj x) (store clients (Obj c') (push n g))"
  shows "view g2 tm = view g tm" "sep g2 tm" "refs g2 tm = refs g tm"
    "node_of g2 s = Some (Obj x)" "node_of g2 clients = Some (Obj c')"
    "{clients, s} \<subseteq> W \<Longrightarrow> keeps W g g2"
proof -
  have c1: "node_of (push n g) clients = Some (Obj c)" using c by simp
  let ?gm = "store clients (Obj c') (push n g)"
  have sm: "node_of ?gm s = Some (Obj evs)" using s ne by simp
  note f1 = push_frame[OF g, of n]
  note f2 = store_frame[OF f1(2) _ _ c1, of c', unfolded f1]
  note f3 = store_frame[OF f2(2) _ _ sm, of x, unfolded f2]
  have "clients \<noteq> tm" "clients \<notin> refs g tm" "s \<noteq> tm" "s \<notin> refs g tm" using away by auto
  then show "view g2 tm = view g tm" "sep g2 tm" "refs g2 tm = refs g tm"
    unfolding g2 using f2 f3 by simp_all
  show "node_of g2 s = Some (Obj x)" "node_of g2 clients = Some (Obj c')"
    using sm c1 ne by (simp_all add: g2)
  show "keeps W g g2" if "{clients, s} \<subseteq> W" unfolding g2 using that
    by (intro keeps_trans[OF keeps_push keeps_trans[OF keeps_store_obj[OF c1] keeps_store_obj[OF sm]]]) auto
qed

lemma unselected_entry_skipped:
  assumes d: "agg_entry_ok h tkvs d" and get: "object_get_ex g d = object_get_ex h d"
    and no: "\<not> selects h ty d"
  shows "aggregate_entry E tuple ty tm clients d g = Some g"
proof (cases "object_get_ex h d ''stats''")
  case None
  then show ?thesis by (simp add: aggregate_entry_def get)
next
  case s: (Some s)
  show ?thesis
  proof (cases "object_get_ex h d ''stats_type''")
    case None
    with s show ?thesis by (simp add: aggregate_entry_def get)
  next
    case (Some x)
    then obtain ty' where "x = JString ty'" using d unfolding agg_entry_ok_def by blast
    with s Some no show ?thesis by (simp add: aggregate_entry_def get selects_def)
  qed
qed

lemma agg_inv_unselected:
  assumes inv: "agg_inv E tkvs ty h tm clients ys g" and no: "\<not> selects h ty d"
  shows "agg_inv E tkvs ty h tm clients (ys @ [d]) g"
proof -
  have "picked h ty (ys @ [d]) = picked h ty ys" using no by (simp add: picked_def)
  moreover have "fold (agg_step E tkvs ty h) (ys @ [d]) a = fold (agg_step E tkvs ty h) ys a" for a
    using no by (cases "fold (agg_step E tkvs ty h) ys a") (simp add: agg_step_def)
  ultimately show ?thesis using inv unfolding agg_inv_def by simp
qed

text \<open>A selected entry: its group is spelled, its client counted, its numbers folded into the group.\<close>

lemma aggregate_entry_selected:
  assumes inv: "agg_inv E tkvs ty h tm clients ys g"
    and tuple: "node_of g tuple = Some (Obj tkvs)"
    and d: "agg_entry_ok h tkvs d" and dg: "object_get_ex g d = object_get_ex h d" and dgo: "is_obj g d"
    and s: "object_get_ex h d ''stats'' = Some s" and ty: "object_get_ex h d ''stats_type'' = Some (JString ty)"
    and evs: "node_of h s = Some (Obj evs)" "node_of g s = Some (Obj evs)"
    and away: "s \<notin> insert tm (refs g tm)" "clients \<notin> insert tm (refs g tm)" "distinct [clients, s, d]"
  shows "ok (aggregate_entry E tuple ty tm clients d g) (agg_inv E tkvs ty h tm clients (ys @ [d]))"
proof -
  let ?W = "{tm, clients} \<union> refs h tm \<union> picked h ty (ys @ [d])"
  obtain c where c: "node_of g clients = Some (Obj c)"
    "(keys c, view g tm) = fold (agg_step E tkvs ty h) ys ([], view h tm)"
    using inv by (auto simp: agg_inv_def)
  have picked: "picked h ty (ys @ [d]) = insert s (picked h ty ys)"
    using s ty by (auto simp: picked_def stats_of_def selects_def)
  let ?V = "{tm, clients} \<union> refs h tm \<union> picked h ty ys"
  have sg: "sep g tm" and kV: "keeps ?V h g" and rV: "refs g tm \<subseteq> ?V" using inv by (auto simp: agg_inv_def)
  have VW: "?V \<subseteq> ?W" unfolding picked by blast
  have rg: "refs g tm \<subseteq> ?W" by (rule subset_trans[OF rV VW])
  have kg: "keeps ?W h g" by (rule keeps_mono[OF kV VW])
  let ?tags = "copied (object_get_ex h d) (tuple_pairs tkvs) []"
  let ?t = "group_text E tkvs (object_get_ex h d)" and ?g1 = "push (Obj ?tags) g"
  have tagt: "tag_text E tuple d g = Some (?t, ?g1)"
    using tag_text_eq[OF tuple dgo, where E = E] d unfolding agg_entry_ok_def dg by blast
  define first where "first \<longleftrightarrow> (case entry_nid h d of None \<Rightarrow> False | Some n \<Rightarrow> n \<notin> set (keys c))"
  define c' where "c' = (if first then c @ [(the (entry_nid h d), JString '''')] else c)"
  define g2 where "g2 = store s (Obj (counted first evs)) (store clients (Obj c') ?g1)"
  have dg1: "object_get_ex ?g1 d = object_get_ex h d"
    using dgo dg by (metis is_obj_def node_of_neq_fresh object_get_ex_push)
  have nid: "entry_nid ?g1 d = entry_nid h d" unfolding entry_nid_def dg1 by (rule refl)
  have g1: "node_of ?g1 clients = Some (Obj c)" "node_of ?g1 s = Some (Obj evs)" "is_obj ?g1 d"
    using c(1) evs dgo by (auto simp: is_obj_def)
  have count: "count_client E clients d s ?g1 = Some g2"
    unfolding g2_def c'_def first_def nid[symmetric]
    by (rule count_client_eq[OF g1(1,2) _ g1(3)])
      (use d away(3) in \<open>unfold dg1 agg_entry_ok_def, auto\<close>)
  have ne: "clients \<noteq> s" "s \<noteq> tm" using away by auto
  note f = counted_frame[OF sg c(1) evs(2) away(2,1) ne(1) g2_def]
  have sr: "s \<notin> refs g2 tm" unfolding f(3) using away by blast
  have eq: "aggregate_entry E tuple ty tm clients d g = add_stats E tm ?t s g2"
    using s ty tagt count by (simp add: aggregate_entry_def dg)
  show ?thesis unfolding eq
  proof (rule ok_mono[OF add_stats_refines[OF f(2,4) ne(2) sr]])
    fix g'
    assume g': "view g' tm = absorb (merge E) (?t, counted first evs) (view g2 tm) \<and> sep g' tm \<and>
      refs g' tm \<subseteq> insert s (refs g2 tm) \<and> keeps (insert tm (refs g2 tm)) g2 g'"
    have c3: "node_of g' clients = Some (Obj c')"
      using g' away(2) f(5) unfolding f(3) by (blast dest: keeps_node)
    have kW: "keeps ?W g2 g'" by (rule keeps_mono[where S = "insert tm (refs g2 tm)"]) (use g' rg f(3) in auto)
    have k: "keeps ?W h g'" by (rule keeps_trans[OF kg keeps_trans[OF f(6) kW]]) (auto simp: picked)
    have "fold (agg_step E tkvs ty h) (ys @ [d]) ([], view h tm) = agg_step E tkvs ty h d (keys c, view g tm)"
      by (simp flip: c(2))
    also have "\<dots> = (keys c', view g' tm)"
      using evs s ty g' f(1) by (simp add: agg_step_def selects_def first_def c'_def stats_obj_def Let_def)
    finally show "agg_inv E tkvs ty h tm clients (ys @ [d]) g'"
      using c3 g' k inv unfolding agg_inv_def f(3) picked by auto
  qed
qed

lemma aggregate_entry_step:
  assumes inv: "agg_inv E tkvs ty h tm clients ys g"
    and tuple: "node_of h tuple = Some (Obj tkvs)"
    and d: "agg_entry_ok h tkvs d"
    and away: "{tuple, d} \<inter> ({tm, clients} \<union> refs h tm \<union> stats_of h (ys @ [d])) = {}"
    and st: "stats_of h [d] \<inter> ({tm, clients} \<union> refs h tm \<union> stats_of h ys) = {}"
    and cl: "is_obj h clients" "clients \<noteq> tm" "clients \<notin> refs h tm \<union> stats_of h (ys @ [d])"
  shows "ok (aggregate_entry E tuple ty tm clients d g) (agg_inv E tkvs ty h tm clients (ys @ [d]))"
proof -
  let ?W = "{tm, clients} \<union> refs h tm \<union> picked h ty ys"
  have all: "stats_of h (ys @ [d]) = stats_of h ys \<union> stats_of h [d]" by (auto simp: stats_of_def)
  have W: "?W \<subseteq> {tm, clients} \<union> refs h tm \<union> stats_of h ys" using picked_subset by blast
  have kg: "keeps ?W h g" and rg: "refs g tm \<subseteq> refs h tm \<union> picked h ty ys"
    using inv by (auto simp: agg_inv_def)
  obtain dkvs where dn: "node_of h d = Some (Obj dkvs)" using d by (auto simp: agg_entry_ok_def is_obj_def)
  have dW: "d \<notin> ?W" "tuple \<notin> ?W" using away W all by blast+
  have dg: "object_get_ex g d = object_get_ex h d" by (rule get_ex_keeps[OF kg dn dW(1)])
  show ?thesis
  proof (cases "selects h ty d")
    case False
    with unselected_entry_skipped[OF d dg] agg_inv_unselected[OF inv] show ?thesis by simp
  next
    case True
    then obtain s where s: "object_get_ex h d ''stats'' = Some s" "object_get_ex h d ''stats_type'' = Some (JString ty)"
      by (auto simp: selects_def)
    have set: "stats_of h [d] = {s}" using s by (auto simp: stats_of_def)
    have "is_obj h s" using d s unfolding agg_entry_ok_def by blast
    then obtain evs where evs: "node_of h s = Some (Obj evs)" by (auto simp: is_obj_def)
    have sW: "s \<notin> ?W" using st set W by blast
    show ?thesis
    proof (rule aggregate_entry_selected[OF inv _ d dg _ s evs])
      show "node_of g tuple = Some (Obj tkvs)" by (rule keeps_node[OF kg tuple dW(2)])
      show "is_obj g d" using keeps_node[OF kg dn dW(1)] by blast
      show "node_of g s = Some (Obj evs)" by (rule keeps_node[OF kg evs sW])
      show "s \<notin> insert tm (refs g tm)" using sW rg by blast
      have "picked h ty ys \<subseteq> stats_of h (ys @ [d])" using picked_subset[of h ty ys] unfolding all by blast
      then show "clients \<notin> insert tm (refs g tm)" using cl(2,3) rg by blast
      have "clients \<noteq> s" "d \<noteq> s" "d \<noteq> clients" using sW dW away unfolding all set by blast+
      then show "distinct [clients, s, d]" by simp
    qed
  qed
qed

text \<open>The separation the code relies on: the entries, their statistics and the summed objects are not shared.\<close>

definition agg_sep :: "heap \<Rightarrow> jval \<Rightarrow> jval \<Rightarrow> jval \<Rightarrow> jval list \<Rightarrow> bool" where
  "agg_sep h tuple da tm ds \<longleftrightarrow>
    ({tuple, da} \<union> set ds) \<inter> ({tm} \<union> refs h tm \<union> stats_of h ds) = {} \<and>
    stats_of h ds \<inter> ({tm} \<union> refs h tm) = {} \<and>
    distinct (map (stats_obj h) (filter (\<lambda>d. object_get_ex h d ''stats'' \<noteq> None) ds))"

lemma stats_once:
  assumes "distinct (map (stats_obj h) (filter (\<lambda>d. object_get_ex h d ''stats'' \<noteq> None) (ys @ d # zs)))"
  shows "stats_of h [d] \<inter> stats_of h ys = {}"
proof -
  have "stats_obj h d \<noteq> stats_obj h y"
    if "y \<in> set ys" "object_get_ex h y ''stats'' \<noteq> None" "object_get_ex h d ''stats'' \<noteq> None" for y
    using assms that by auto
  then show ?thesis by (fastforce simp: stats_of_def stats_obj_def)
qed

lemma keeps_newest: "keeps (insert (JRef (length h)) S) h h' \<Longrightarrow> keeps S h h'"
  unfolding keeps_def by (metis insert_iff node_of_neq_fresh)

lemma agg_step_push:
  assumes "agg_entry_ok h tkvs d"
  shows "agg_step E tkvs ty (push n h) d = agg_step E tkvs ty h d" "agg_entry_ok (push n h) tkvs d"
    "stats_of (push n h) [d] = stats_of h [d]" "selects (push n h) ty d = selects h ty d"
proof -
  obtain dkvs where dn: "node_of h d = Some (Obj dkvs)" using assms by (auto simp: agg_entry_ok_def is_obj_def)
  have get: "object_get_ex (push n h) d = object_get_ex h d" using dn by (intro object_get_ex_push) auto
  have ob: "is_obj h r \<Longrightarrow> is_obj (push n h) r" for r by (auto simp: is_obj_def)
  show "stats_of (push n h) [d] = stats_of h [d]" by (simp add: stats_of_def get)
  show "agg_entry_ok (push n h) tkvs d" using assms ob unfolding agg_entry_ok_def get by blast
  have so: "fields_at (push n h) (stats_obj (push n h) d) = fields_at h (stats_obj h d)" if "selects h ty d"
  proof -
    from that obtain s where s: "object_get_ex h d ''stats'' = Some s" by (auto simp: selects_def)
    then have "is_obj h s" using assms unfolding agg_entry_ok_def by blast
    with s show ?thesis by (auto simp: stats_obj_def get is_obj_def)
  qed
  have sel: "selects (push n h) ty d = selects h ty d" and nid: "entry_nid (push n h) d = entry_nid h d"
    by (simp_all add: selects_def entry_nid_def get)
  show "selects (push n h) ty d = selects h ty d" by (rule sel)
  show "agg_step E tkvs ty (push n h) d = agg_step E tkvs ty h d"
    unfolding agg_step_def sel nid get using so by (auto simp: fun_eq_iff Let_def)
qed

lemma stats_of_push:
  assumes "\<And>d. d \<in> set ds \<Longrightarrow> agg_entry_ok h tkvs d"
  shows "stats_of (push n h) ds = stats_of h ds"
proof -
  have "stats_of g ds = (\<Union>d \<in> set ds. stats_of g [d])" for g by (auto simp: stats_of_def)
  then show ?thesis using agg_step_push(3)[OF assms] by simp
qed

text \<open>The loop over the entries, from an empty object of clients that nothing else reaches.\<close>

lemma aggregate_loop:
  fixes clients :: jval
  defines "L E tuple ty tm da ds \<equiv>
    foldM (\<lambda>i h. do { de \<leftarrow> array_get_idx h da i; aggregate_entry E tuple ty tm clients de h }) [0..<length ds]"
  assumes tm: "sep h tm" and tuple: "node_of h tuple = Some (Obj tkvs)" and da: "node_of h da = Some (Arr ds)"
    and ds: "\<And>d. d \<in> set ds \<Longrightarrow> agg_entry_ok h tkvs d" and away: "agg_sep h tuple da tm ds"
    and cl: "node_of h clients = Some (Obj [])" "clients \<notin> {tm, tuple, da} \<union> set ds \<union> refs h tm \<union> stats_of h ds"
  shows "ok (L E tuple ty tm da ds h) (agg_inv E tkvs ty h tm clients ds)"
proof -
  have step: "ok (aggregate_entry E tuple ty tm clients d g) (agg_inv E tkvs ty h tm clients (ys @ [d]))"
    if xs: "ds = ys @ d # zs" and inv: "agg_inv E tkvs ty h tm clients ys g" for ys d zs g
  proof (rule aggregate_entry_step[OF inv tuple])
    have sub: "stats_of h (ys @ [d]) \<subseteq> stats_of h ds" "stats_of h [d] \<subseteq> stats_of h ds"
      "stats_of h ys \<subseteq> stats_of h ds" "d \<in> set ds" using xs by (auto simp: stats_of_def)
    show "agg_entry_ok h tkvs d" by (rule ds[OF sub(4)])
    show "{tuple, d} \<inter> ({tm, clients} \<union> refs h tm \<union> stats_of h (ys @ [d])) = {}"
      using away cl(2) sub unfolding agg_sep_def by blast
    have "stats_of h [d] \<inter> stats_of h ys = {}"
      using away unfolding agg_sep_def xs by (intro stats_once) blast
    then show "stats_of h [d] \<inter> ({tm, clients} \<union> refs h tm \<union> stats_of h ys) = {}"
      using away cl(2) sub unfolding agg_sep_def by blast
    show "is_obj h clients" using cl(1) by (auto simp: is_obj_def)
    show "clients \<noteq> tm" "clients \<notin> refs h tm \<union> stats_of h (ys @ [d])" using cl(2) sub by blast+
  qed
  have "ok (L E tuple ty tm da ds h) (\<lambda>g. agg_inv E tkvs ty h tm clients ds g \<and> set ds \<subseteq> set ds)"
    unfolding L_def
  proof (rule ok_foldM_array[where I = "\<lambda>ys g. agg_inv E tkvs ty h tm clients ys g \<and> set ys \<subseteq> set ds"])
    show "agg_inv E tkvs ty h tm clients [] h \<and> set [] \<subseteq> set ds" using tm cl(1) by (auto simp: agg_inv_def)
  next
    fix ys g assume I: "agg_inv E tkvs ty h tm clients ys g \<and> set ys \<subseteq> set ds"
    then have "picked h ty ys \<subseteq> stats_of h ds" using picked_mono[of ys ds h ty] picked_subset[of h ty ds] by blast
    then have "da \<notin> {tm, clients} \<union> refs h tm \<union> picked h ty ys"
      using away cl(2) unfolding agg_sep_def by blast
    moreover have "keeps ({tm, clients} \<union> refs h tm \<union> picked h ty ys) h g" using I by (simp add: agg_inv_def)
    ultimately show "node_of g da = Some (Arr ds)" using keeps_node da by blast
  next
    fix ys d zs g assume xs: "ds = ys @ d # zs" and "agg_inv E tkvs ty h tm clients ys g \<and> set ys \<subseteq> set ds"
    then have inv: "agg_inv E tkvs ty h tm clients ys g" by simp
    show "ok (aggregate_entry E tuple ty tm clients d g)
        (\<lambda>g. agg_inv E tkvs ty h tm clients (ys @ [d]) g \<and> set (ys @ [d]) \<subseteq> set ds)"
      by (rule ok_mono[OF step[OF xs inv]]) (use xs in auto)
  qed
  then show ?thesis by (auto elim: ok_mono)
qed

text \<open>What allocating the object of clients leaves alone.\<close>

lemma agg_push:
  assumes tm: "sep h tm" and ds: "\<And>d. d \<in> set ds \<Longrightarrow> agg_entry_ok h tkvs d"
  shows "fold (agg_step E tkvs ty (push n h)) ds a = fold (agg_step E tkvs ty h) ds a"
    "stats_of (push n h) ds = stats_of h ds" "picked (push n h) ty ds = picked h ty ds"
    "agg_sep (push n h) tuple da tm ds = agg_sep h tuple da tm ds"
proof -
  show "fold (agg_step E tkvs ty (push n h)) ds a = fold (agg_step E tkvs ty h) ds a"
    using agg_step_push(1)[OF ds] by (intro fold_cong) auto
  show st: "stats_of (push n h) ds = stats_of h ds" by (rule stats_of_push[OF ds])
  have "filter (selects (push n h) ty) ds = filter (selects h ty) ds"
    using agg_step_push(4)[OF ds] by (intro filter_cong) auto
  moreover have "stats_of (push n h) (filter (selects h ty) ds) = stats_of h (filter (selects h ty) ds)"
    by (rule stats_of_push) (use ds in auto)
  ultimately show "picked (push n h) ty ds = picked h ty ds" by (simp add: picked_def)
  have get: "object_get_ex (push n h) d = object_get_ex h d" if "d \<in> set ds" for d
    using ds[OF that] by (intro object_get_ex_push) (auto simp: agg_entry_ok_def is_obj_def)
  then have "filter (\<lambda>d. object_get_ex (push n h) d ''stats'' \<noteq> None) ds =
      filter (\<lambda>d. object_get_ex h d ''stats'' \<noteq> None) ds" by (intro filter_cong) auto
  moreover have "map (stats_obj (push n h)) (filter P ds) = map (stats_obj h) (filter P ds)" for P
    by (rule map_cong) (use get in \<open>auto simp: stats_obj_def\<close>)
  ultimately show "agg_sep (push n h) tuple da tm ds = agg_sep h tuple da tm ds"
    unfolding agg_sep_def st push_frame(3)[OF tm] by (simp only:)
qed

lemma newest_apart:
  assumes tm: "sep h tm" and tuple: "node_of h tuple = Some (Obj tkvs)" and da: "node_of h da = Some (Arr ds)"
    and ds: "\<And>d. d \<in> set ds \<Longrightarrow> agg_entry_ok h tkvs d"
  shows "JRef (length h) \<notin> {tm, tuple, da} \<union> set ds \<union> refs h tm \<union> stats_of h ds"
proof -
  have new: "\<not> is_obj h (JRef (length h))" by (auto simp: is_obj_def)
  have "is_obj h tm" using sep_tm[OF tm] by (auto simp: is_obj_def)
  moreover have "JRef (length h) \<noteq> tuple" "JRef (length h) \<noteq> da" using tuple da by auto
  moreover have "is_obj h d" if "d \<in> set ds" for d using ds[OF that] by (simp add: agg_entry_ok_def)
  moreover have "is_obj h v" if "v \<in> stats_of h ds" for v
    using that ds unfolding stats_of_def agg_entry_ok_def by blast
  moreover have "is_obj h v" if "v \<in> refs h tm" for v using that sepD(1)[OF tm] by (auto simp: refs_def)
  ultimately show ?thesis using new by blast
qed

lemma aggregate_stat_refines:
  assumes tm: "sep h tm" and tuple: "node_of h tuple = Some (Obj tkvs)"
    and da: "object_get_ex h host ''rates'' = Some da" "node_of h da = Some (Arr ds)"
    and ds: "\<And>d. d \<in> set ds \<Longrightarrow> agg_entry_ok h tkvs d"
    and away: "agg_sep h tuple da tm ds"
  shows "ok (aggregate_stat E host tuple ty tm h) (\<lambda>h'.
    (\<exists>seen. (seen, view h' tm) = fold (agg_step E tkvs ty h) ds ([], view h tm)) \<and>
    sep h' tm \<and> refs h' tm \<subseteq> refs h tm \<union> picked h ty ds \<and> keeps ({tm} \<union> refs h tm \<union> picked h ty ds) h h')"
proof (cases "ds = []")
  case True
  with da tm show ?thesis by (simp add: aggregate_stat_def)
next
  case False
  let ?c = "JRef (length h)" and ?h1 = "push (Obj []) h"
  let ?W = "{tm} \<union> refs h tm \<union> picked h ty ds"
  have new: "new_object h = (?c, ?h1)" by (simp add: new_object_def new_node_def)
  note f = push_frame[OF tm, of "Obj []"] and p = agg_push[OF tm ds, where n = "Obj []"]
  have "ok (foldM (\<lambda>i h. do { de \<leftarrow> array_get_idx h da i; aggregate_entry E tuple ty tm ?c de h }) [0..<length ds] ?h1)
      (agg_inv E tkvs ty ?h1 tm ?c ds)"
  proof (rule aggregate_loop[OF f(2)])
    show "node_of ?h1 tuple = Some (Obj tkvs)" "node_of ?h1 da = Some (Arr ds)" using tuple da(2) by auto
    show "agg_entry_ok ?h1 tkvs d" if "d \<in> set ds" for d by (rule agg_step_push(2)[OF ds[OF that]])
    show "agg_sep ?h1 tuple da tm ds" using away by (simp add: p(4))
    show "node_of ?h1 ?c = Some (Obj [])" by simp
    show "?c \<notin> {tm, tuple, da} \<union> set ds \<union> refs ?h1 tm \<union> stats_of ?h1 ds"
      using newest_apart[OF tm tuple da(2) ds] by (simp add: f(3) p(2))
  qed
  then obtain h' where h': "agg_inv E tkvs ty ?h1 tm ?c ds h'" and eq: "aggregate_stat E host tuple ty tm h = Some h'"
    using da False by (auto elim: okE simp: aggregate_stat_def new)
  have "keeps (insert ?c ?W) ?h1 h'"
    by (rule keeps_mono[where S = "{tm, ?c} \<union> refs h tm \<union> picked h ty ds"])
      (use h' in \<open>auto simp: agg_inv_def f(3) p(3)\<close>)
  then have "keeps ?W h h'" by (rule keeps_newest[OF keeps_trans[OF keeps_push]])
  moreover obtain c :: "(string \<times> jval) list" where
    "(keys c, view h' tm) = fold (agg_step E tkvs ty h) ds ([], view h tm)"
    "sep h' tm" "refs h' tm \<subseteq> refs h tm \<union> picked h ty ds"
    using h' by (auto simp: agg_inv_def f p(1,3))
  ultimately show ?thesis unfolding eq ok_Some by metis
qed

section \<open>Totals\<close>

text \<open>The sequence of additions an aggregation makes.\<close>

fun agg_pairs :: "env \<Rightarrow> (string \<times> jval) list \<Rightarrow> string \<Rightarrow> heap \<Rightarrow> string list \<Rightarrow> jval list \<Rightarrow>
    (string \<times> (string \<times> jval) list) list" where
  "agg_pairs E tuple ty h seen [] = []"
| "agg_pairs E tuple ty h seen (d # ds) =
    (if selects h ty d
     then (let first = (case entry_nid h d of None \<Rightarrow> False | Some n \<Rightarrow> n \<notin> set seen)
           in (group_text E tuple (object_get_ex h d), counted first (fields_at h (stats_obj h d))) #
             agg_pairs E tuple ty h (if first then seen @ [the (entry_nid h d)] else seen) ds)
     else agg_pairs E tuple ty h seen ds)"

lemma fold_agg_step:
  "snd (fold (agg_step E tuple ty h) ds (seen, m)) = fold (absorb (merge E)) (agg_pairs E tuple ty h seen ds) m"
  by (induction ds arbitrary: seen m) (auto simp: agg_step_def Let_def)

lemma agg_pairs_wf:
  assumes "\<And>d. d \<in> set ds \<Longrightarrow> distinct (keys (fields_at h (stats_obj h d)))"
  shows "\<forall>(t, x) \<in> set (agg_pairs E tuple ty h seen ds). distinct (keys x)"
  using assms by (induction ds arbitrary: seen) (auto simp: Let_def counted_def)

lemma event_value_counted:
  "e \<noteq> ''nclients'' \<Longrightarrow> event_value E e (counted first evs) = event_value E e evs"
  "event_value E ''nclients'' (counted first evs) = (if first then fl E 1 else fl E 0)"
  by (auto simp: event_value_def counted_def get_double_def)

lemma sum_agg_pairs:
  "e \<noteq> ''nclients'' \<Longrightarrow> (\<Sum>(t, x) \<leftarrow> agg_pairs E tuple ty h seen ds. event_value E e x) =
    (\<Sum>d \<leftarrow> filter (selects h ty) ds. event_value E e (fields_at h (stats_obj h d)))"
  by (induction ds arbitrary: seen) (auto simp: Let_def event_value_counted)

text \<open>The clients of the selected entries.\<close>

definition client_nids :: "heap \<Rightarrow> string \<Rightarrow> jval list \<Rightarrow> string set" where
  "client_nids h ty ds = {n. \<exists>d \<in> set ds. selects h ty d \<and> entry_nid h d = Some n}"

lemma finite_client_nids: "finite (client_nids h ty ds)"
proof -
  have "client_nids h ty ds \<subseteq> (the \<circ> entry_nid h) ` set ds" by (force simp: client_nids_def)
  then show ?thesis by (rule finite_subset) simp
qed

lemma count_agg_pairs:
  assumes "fl E = (\<lambda>x. x)"
  shows "(\<Sum>(t, x) \<leftarrow> agg_pairs E tuple ty h seen ds. event_value E ''nclients'' x) =
    of_nat (card (client_nids h ty ds - set seen))"
proof (induction ds arbitrary: seen)
  case Nil
  then show ?case by (simp add: client_nids_def)
next
  case (Cons d ds)
  show ?case
  proof (cases "selects h ty d")
    case False
    then have "client_nids h ty (d # ds) = client_nids h ty ds" by (auto simp: client_nids_def)
    with False Cons show ?thesis by simp
  next
    case True
    show ?thesis
    proof (cases "entry_nid h d")
      case None
      with True have "client_nids h ty (d # ds) = client_nids h ty ds" by (auto simp: client_nids_def)
      with True None Cons assms show ?thesis by (simp add: event_value_counted)
    next
      case (Some n)
      with True have ins: "client_nids h ty (d # ds) = insert n (client_nids h ty ds)"
        by (auto simp: client_nids_def)
      show ?thesis
      proof (cases "n \<in> set seen")
        case True
        then have "client_nids h ty (d # ds) - set seen = client_nids h ty ds - set seen" using ins by auto
        with True Some \<open>selects h ty d\<close> Cons assms show ?thesis by (simp add: event_value_counted)
      next
        case False
        let ?rest = "client_nids h ty ds - set (seen @ [n])"
        have "client_nids h ty (d # ds) - set seen = insert n ?rest" using ins False by auto
        moreover have "finite ?rest" "n \<notin> ?rest" using finite_client_nids by auto
        ultimately have "card (client_nids h ty (d # ds) - set seen) = Suc (card ?rest)" by simp
        with False Some \<open>selects h ty d\<close> Cons[of "seen @ [n]"] assms show ?thesis
          by (simp add: event_value_counted)
      qed
    qed
  qed
qed

lemma aggregate_total:
  assumes tm: "node_of h tm = Some (Obj [])" and tuple: "node_of h tuple = Some (Obj tkvs)"
    and da: "object_get_ex h host ''rates'' = Some da" "node_of h da = Some (Arr ds)"
    and ds: "\<And>d. d \<in> set ds \<Longrightarrow> agg_entry_ok h tkvs d"
    and away: "agg_sep h tuple da tm ds"
    and dist: "\<And>d. d \<in> set ds \<Longrightarrow> distinct (keys (fields_at h (stats_obj h d)))"
    and exact: "fl E = (\<lambda>x. x)" and e: "e \<noteq> ''load''"
  shows "ok (aggregate_stat E host tuple ty tm h) (\<lambda>h'. total (event_value E e) (view h' tm) =
    (\<Sum>(t, x) \<leftarrow> agg_pairs E tkvs ty h [] ds. event_value E e x))"
proof -
  have sep: "sep h tm" using tm by (auto simp: sep_def refs_def uniq_at_def)
  have empty: "view h tm = Map.empty" using tm by (auto simp: view_def)
  have E: "E\<lparr>fl := \<lambda>x. x\<rparr> = E" using exact by (cases E) simp
  have ev: "summed E e = event_value E e" using e by (simp add: summed_def fun_eq_iff)
  show ?thesis
  proof (rule ok_mono[OF aggregate_stat_refines[OF sep tuple da ds away]], assumption)
    fix h'
    assume "(\<exists>seen. (seen, view h' tm) = fold (agg_step E tkvs ty h) ds ([], view h tm)) \<and> sep h' tm \<and>
      refs h' tm \<subseteq> refs h tm \<union> picked h ty ds \<and> keeps ({tm} \<union> refs h tm \<union> picked h ty ds) h h'"
    then have "view h' tm = fold (absorb (merge E)) (agg_pairs E tkvs ty h [] ds) Map.empty"
      unfolding empty fold_agg_step[symmetric] by (metis snd_conv)
    moreover have "total (event_value E e) (fold (absorb (merge E)) (agg_pairs E tkvs ty h [] ds) Map.empty) =
        (\<Sum>(t, x) \<leftarrow> agg_pairs E tkvs ty h [] ds. event_value E e x) + total (event_value E e) Map.empty"
      using exact_sum.total_fold[of Map.empty "agg_pairs E tkvs ty h [] ds" E e] agg_pairs_wf[OF dist]
      unfolding E ev by simp
    ultimately show "total (event_value E e) (view h' tm) =
        (\<Sum>(t, x) \<leftarrow> agg_pairs E tkvs ty h [] ds. event_value E e x)"
      by (simp add: total_def)
  qed
qed

section \<open>Properties\<close>

text \<open>A server with two exports of one metadata target, grouped by user.\<close>

definition sample_rates :: heap where
  "sample_rates = [Obj [(''rates'', JRef 1)], Arr [JRef 2, JRef 3],
    Obj [(''stats_type'', JString ''mds''), (''client_nid'', JString ''n1''), (''uid'', JString ''u1''), (''stats'', JRef 4)],
    Obj [(''stats_type'', JString ''mds''), (''client_nid'', JString ''n2''), (''uid'', JString ''u1''), (''stats'', JRef 5)],
    Obj [(''open'', JDouble 2)], Obj [(''open'', JDouble 3)],
    Obj [(''uid'', JString '''')], Obj []]"

lemma sample_rates_nodes:
  "node_of sample_rates (JRef 0) = Some (Obj [(''rates'', JRef 1)])"
  "node_of sample_rates (JRef 1) = Some (Arr [JRef 2, JRef 3])"
  "node_of sample_rates (JRef 2) = Some (Obj [(''stats_type'', JString ''mds''),
    (''client_nid'', JString ''n1''), (''uid'', JString ''u1''), (''stats'', JRef 4)])"
  "node_of sample_rates (JRef 3) = Some (Obj [(''stats_type'', JString ''mds''),
    (''client_nid'', JString ''n2''), (''uid'', JString ''u1''), (''stats'', JRef 5)])"
  "node_of sample_rates (JRef 4) = Some (Obj [(''open'', JDouble 2)])"
  "node_of sample_rates (JRef 5) = Some (Obj [(''open'', JDouble 3)])"
  "node_of sample_rates (JRef 6) = Some (Obj [(''uid'', JString '''')])"
  "node_of sample_rates (JRef 7) = Some (Obj [])"
  by (simp_all add: sample_rates_def node_of_def)

lemma sample_rates_get:
  "object_get_ex sample_rates (JRef 2) = map_of [(''stats_type'', JString ''mds''),
    (''client_nid'', JString ''n1''), (''uid'', JString ''u1''), (''stats'', JRef 4)]"
  "object_get_ex sample_rates (JRef 3) = map_of [(''stats_type'', JString ''mds''),
    (''client_nid'', JString ''n2''), (''uid'', JString ''u1''), (''stats'', JRef 5)]"
  "object_get_ex sample_rates (JRef 7) = Map.empty"
  by (rule ext, rule object_get_ex_obj, rule sample_rates_nodes)+ (simp add: fun_eq_iff sample_rates_nodes)

lemma sample_rates_ok:
  "d \<in> set [JRef 2, JRef 3] \<Longrightarrow> agg_entry_ok sample_rates [(''uid'', JString '''')] d"
  "agg_sep sample_rates (JRef 6) (JRef 1) (JRef 7) [JRef 2, JRef 3]"
  "d \<in> set [JRef 2, JRef 3] \<Longrightarrow> distinct (keys (fields_at sample_rates (stats_obj sample_rates d)))"
proof -
  show "agg_entry_ok sample_rates [(''uid'', JString '''')] d" if "d \<in> set [JRef 2, JRef 3]"
    using that by (auto simp: agg_entry_ok_def sample_rates_get is_obj_def sample_rates_nodes scalar_def)
  show "agg_sep sample_rates (JRef 6) (JRef 1) (JRef 7) [JRef 2, JRef 3]"
    by (auto simp: agg_sep_def refs_def stats_of_def stats_obj_def sample_rates_get simp del: One_nat_def)
  show "distinct (keys (fields_at sample_rates (stats_obj sample_rates d)))" if "d \<in> set [JRef 2, JRef 3]"
    using that by (auto simp: stats_obj_def sample_rates_get sample_rates_nodes)
qed

text \<open>C26. Summing events: adding the events of an entry to a tuple of a tag map leaves every other tuple
  alone; a new tuple gets the events, and a known one gets for every event the rounded sum (for the load,
  the new value), while events the entry does not have keep their value.\<close>

theorem add_stats_events:
  assumes "sep h tm" "node_of h st = Some (Obj evs)" "st \<noteq> tm" "st \<notin> refs h tm" "distinct (keys evs)"
  shows "ok (add_stats E tm tags st h) (\<lambda>h'. sep h' tm \<and> (\<forall>t. t \<noteq> tags \<longrightarrow> view h' tm t = view h tm t) \<and>
    (\<exists>kvs. view h' tm tags = Some kvs \<and> (\<forall>e. map_of kvs e =
      (case (map_of evs e, Option.bind (view h tm tags) (\<lambda>pre. map_of pre e)) of
         (Some nv, Some pv) \<Rightarrow>
           Some (if e = ''load'' then nv else JDouble (fl E (get_double E nv + get_double E pv)))
       | (Some nv, None) \<Rightarrow> Some nv
       | (None, pv) \<Rightarrow> pv))))"
proof (rule ok_mono[OF add_stats_refines[OF assms(1-4)]])
  fix h'
  assume *: "view h' tm = absorb (merge E) (tags, evs) (view h tm) \<and> sep h' tm \<and>
    refs h' tm \<subseteq> insert st (refs h tm) \<and> keeps (insert tm (refs h tm)) h h'"
  then have "\<forall>t. t \<noteq> tags \<longrightarrow> view h' tm t = view h tm t"
    and v: "view h' tm tags = Some (case view h tm tags of None \<Rightarrow> evs | Some p \<Rightarrow> merge E evs p)"
    by (auto simp: absorb_def)
  moreover have "map_of (case view h tm tags of None \<Rightarrow> evs | Some p \<Rightarrow> merge E evs p) e =
      (case (map_of evs e, Option.bind (view h tm tags) (\<lambda>pre. map_of pre e)) of
         (Some nv, Some pv) \<Rightarrow>
           Some (if e = ''load'' then nv else JDouble (fl E (get_double E nv + get_double E pv)))
       | (Some nv, None) \<Rightarrow> Some nv
       | (None, pv) \<Rightarrow> pv)" for e
    by (cases "view h tm tags") (auto simp: map_of_merge[OF assms(5)] split: option.split)
  ultimately show "sep h' tm \<and> (\<forall>t. t \<noteq> tags \<longrightarrow> view h' tm t = view h tm t) \<and>
    (\<exists>kvs. view h' tm tags = Some kvs \<and> (\<forall>e. map_of kvs e =
      (case (map_of evs e, Option.bind (view h tm tags) (\<lambda>pre. map_of pre e)) of
         (Some nv, Some pv) \<Rightarrow>
           Some (if e = ''load'' then nv else JDouble (fl E (get_double E nv + get_double E pv)))
       | (Some nv, None) \<Rightarrow> Some nv
       | (None, pv) \<Rightarrow> pv)))"
    using * by blast
qed

definition sample_sum :: heap where
  "sample_sum = [Obj [(''u1'', JRef 1)], Obj [(''open'', JDouble 2), (''load'', JInt 7)],
    Obj [(''open'', JDouble 3), (''load'', JInt 9)]]"

theorem add_stats_events_witness:
  "ok (add_stats plain_env (JRef 0) ''u1'' (JRef 2) sample_sum) (\<lambda>h'. \<exists>kvs. view h' (JRef 0) ''u1'' = Some kvs \<and>
    map_of kvs ''open'' = Some (JDouble 5) \<and> map_of kvs ''load'' = Some (JInt 9))"
proof -
  have nodes: "node_of sample_sum (JRef 0) = Some (Obj [(''u1'', JRef 1)])"
    "node_of sample_sum (JRef 1) = Some (Obj [(''open'', JDouble 2), (''load'', JInt 7)])"
    "node_of sample_sum (JRef 2) = Some (Obj [(''open'', JDouble 3), (''load'', JInt 9)])"
    by (simp_all add: sample_sum_def node_of_def)
  have get: "object_get_ex sample_sum (JRef 0) = [''u1'' \<mapsto> JRef 1]" using nodes by (simp add: fun_eq_iff)
  have sep: "sep sample_sum (JRef 0)" "JRef 2 \<notin> refs sample_sum (JRef 0)"
    using nodes by (auto simp: sep_def refs_def is_obj_def uniq_at_def get split: if_splits)
  have vw: "view sample_sum (JRef 0) ''u1'' = Some [(''open'', JDouble 2), (''load'', JInt 7)]"
    using nodes by (simp add: view_def get)
  have dist: "distinct (keys [(''open'', JDouble 3), (''load'', JInt 9)])" by simp
  show ?thesis
  proof (rule ok_mono[OF add_stats_events[OF sep(1) nodes(3) _ sep(2) dist, where E = plain_env and tags = "''u1''"]])
    show "JRef 2 \<noteq> JRef 0" by simp
  next
    fix h'
    assume "sep h' (JRef 0) \<and> (\<forall>t. t \<noteq> ''u1'' \<longrightarrow> view h' (JRef 0) t = view sample_sum (JRef 0) t) \<and>
    (\<exists>kvs. view h' (JRef 0) ''u1'' = Some kvs \<and> (\<forall>e. map_of kvs e =
      (case (map_of [(''open'', JDouble 3), (''load'', JInt 9)] e,
          Option.bind (view sample_sum (JRef 0) ''u1'') (\<lambda>pre. map_of pre e)) of
         (Some nv, Some pv) \<Rightarrow>
           Some (if e = ''load'' then nv else JDouble (fl plain_env (get_double plain_env nv + get_double plain_env pv)))
       | (Some nv, None) \<Rightarrow> Some nv
       | (None, pv) \<Rightarrow> pv)))"
    then show "\<exists>kvs. view h' (JRef 0) ''u1'' = Some kvs \<and>
      map_of kvs ''open'' = Some (JDouble 5) \<and> map_of kvs ''load'' = Some (JInt 9)"
      unfolding vw by (elim conjE exE) (auto simp: plain_env_def get_double_def)
  qed
qed


lemma sample_rates_select:
  "filter (selects sample_rates ''mds'') [JRef 2, JRef 3] = [JRef 2, JRef 3]"
  "client_nids sample_rates ''mds'' [JRef 2, JRef 3] = {''n1'', ''n2''}"
proof -
  show "filter (selects sample_rates ''mds'') [JRef 2, JRef 3] = [JRef 2, JRef 3]"
    by (simp add: selects_def sample_rates_get)
  show "client_nids sample_rates ''mds'' [JRef 2, JRef 3] = {''n1'', ''n2''}"
    by (auto simp: client_nids_def selects_def entry_nid_def sample_rates_get)
qed


text \<open>C9. Clients are counted once: the nclients of all tuples add up to the number of distinct clients of the
  aggregated entries, even if a client has several exports or several tuples.\<close>

theorem aggregate_stat_counts_clients:
  assumes "node_of h tm = Some (Obj [])" "node_of h tuple = Some (Obj tkvs)"
    and "object_get_ex h host ''rates'' = Some da" "node_of h da = Some (Arr ds)"
    and "\<And>d. d \<in> set ds \<Longrightarrow> agg_entry_ok h tkvs d" "agg_sep h tuple da tm ds"
    and "\<And>d. d \<in> set ds \<Longrightarrow> distinct (keys (fields_at h (stats_obj h d)))"
    and "fl E = (\<lambda>x. x)"
  shows "ok (aggregate_stat E host tuple ty tm h) (\<lambda>h'.
    total (event_value E ''nclients'') (view h' tm) = of_nat (card (client_nids h ty ds)))"
  using aggregate_total[OF assms(1-8), where ty = ty and e = "''nclients''"]
    count_agg_pairs[OF assms(8), of tkvs ty h "[]" ds] by simp

theorem aggregate_stat_counts_clients_witness:
  "ok (aggregate_stat plain_env (JRef 0) (JRef 6) ''mds'' (JRef 7) sample_rates)
    (\<lambda>h'. total (event_value plain_env ''nclients'') (view h' (JRef 7)) = 2)"
proof -
  have "ok (aggregate_stat plain_env (JRef 0) (JRef 6) ''mds'' (JRef 7) sample_rates)
    (\<lambda>h'. total (event_value plain_env ''nclients'') (view h' (JRef 7)) =
      of_nat (card (client_nids sample_rates ''mds'' [JRef 2, JRef 3])))"
    by (rule aggregate_stat_counts_clients[OF sample_rates_nodes(8,7) _ sample_rates_nodes(2)])
      (use sample_rates_ok in \<open>auto simp: sample_rates_nodes plain_env_def\<close>)
  then show ?thesis unfolding sample_rates_select by simp
qed

end
