(* ===== verification/GroupStats.thy ===== *)
theory GroupStats
  imports Aggregate
begin

text \<open>
  \<open>is_class\<close> and \<open>group_statsbytags\<close> of \<open>server/stats.c\<close>: at every tick of the server's timer the
  reports of each host are turned into rates and summed by the given tags into \<open>server_tag_rate_map\<close>.

  A host's report is consumed once: \<open>report_of\<close> lists what the guards of the code make of
  a host (incomplete, seen for the first time, not newer than the last consumed report, or new),
  and the properties say what happens in each case.
\<close>

section \<open>The code\<close>

text \<open>The class is used as a format of 31 characters; a json null is a NULL pointer.\<close>

definition is_class :: "env \<Rightarrow> heap \<Rightarrow> jval \<Rightarrow> string \<Rightarrow> int option" where
  "is_class E h he class =
    (case object_get_ex h he ''obdclass'' of
       None \<Rightarrow> Some (-1)
     | Some tag \<Rightarrow> do {
         c \<leftarrow> get_string E h tag;
         Some (if class = snprintf_fmt E 32 c then 1 else -1)
       })"

text \<open>The load of the processor is spread over the entries of the tag map.\<close>

definition spread_load :: "jval \<Rightarrow> jval \<Rightarrow> heap \<Rightarrow> heap option" where
  "spread_load cpu_map tag_map h = do {
     cpus \<leftarrow> object_foreach h cpu_map;
     foldM (\<lambda>(s, cpu_entry) h. do {
       let system = (case object_get_ex h cpu_entry ''system'' of None \<Rightarrow> JNull | Some v \<Rightarrow> v);
       tags \<leftarrow> object_foreach h tag_map;
       foldM (\<lambda>(t, tag_entry) h. object_add tag_entry ''load'' system h) tags h
     }) cpus h
   }"

text \<open>The tag map of a server from its rates.\<close>

definition server_tag_map :: "env \<Rightarrow> jval \<Rightarrow> jval \<Rightarrow> jval \<Rightarrow> heap \<Rightarrow> (jval \<times> heap) option" where
  "server_tag_map E tuple host_entry ntime h =
    (let (tag_map, h1) = new_object h in do {
       mds \<leftarrow> is_class E h1 host_entry ''mds'';
       h2 \<leftarrow> (if 0 < mds then aggregate_stat E host_entry tuple ''mds'' tag_map h1 else Some h1);
       oss \<leftarrow> is_class E h2 host_entry ''oss'';
       h3 \<leftarrow> (if 0 < oss then aggregate_stat E host_entry tuple ''oss'' tag_map h2 else Some h2);
       let (cpu_map, h4) = new_object h3;
       h5 \<leftarrow> aggregate_stat E host_entry tuple ''cpu'' cpu_map h4;
       h6 \<leftarrow> spread_load cpu_map tag_map h5;
       h7 \<leftarrow> object_add tag_map ''time'' ntime h6;
       Some (tag_map, h7)
     })"

text \<open>What the guards make of a host entry.\<close>

datatype report = Incomplete | First jval jval | Stale | NoOld jval | New jval jval jval double

definition report_of :: "env \<Rightarrow> heap \<Rightarrow> jval \<Rightarrow> report" where
  "report_of E h host_entry =
    (case object_get_ex h host_entry ''time'' of
       None \<Rightarrow> Incomplete
     | Some ntime \<Rightarrow>
         (case object_get_ex h host_entry ''data'' of
            None \<Rightarrow> Incomplete
          | Some nda \<Rightarrow>
              (case object_get_ex h host_entry ''otime'' of
                 None \<Rightarrow> First ntime nda
               | Some otime \<Rightarrow>
                   (let dt = fl E (get_double E ntime - get_double E otime) in
                    if dt \<le> 0 then Stale
                    else (case object_get_ex h host_entry ''odata'' of
                            None \<Rightarrow> NoOld nda
                          | Some oda \<Rightarrow> New ntime nda oda (fl E (1 / dt)))))))"

definition group_host :: "env \<Rightarrow> jval \<Rightarrow> jval \<Rightarrow> string \<times> jval \<Rightarrow> heap \<Rightarrow> heap option" where
  "group_host E tuple rate_map = (\<lambda>(servername, host_entry) h.
     (case report_of E h host_entry of
        Incomplete \<Rightarrow> Some h
      | First ntime nda \<Rightarrow> do {
          h1 \<leftarrow> object_add host_entry ''otime'' ntime h;
          object_add host_entry ''odata'' nda h1
        }
      | Stale \<Rightarrow> Some h
      | NoOld nda \<Rightarrow> object_add host_entry ''odata'' nda h
      | New ntime nda oda idt \<Rightarrow>
          (let (rates, h1) = new_array h in do {
             h2 \<leftarrow> calc_rates E rates nda oda idt h1;
             h3 \<leftarrow> object_add host_entry ''rates'' rates h2;
             h4 \<leftarrow> object_add host_entry ''otime'' ntime h3;
             h5 \<leftarrow> object_add host_entry ''odata'' nda h4;
             (tag_map, h6) \<leftarrow> server_tag_map E tuple host_entry ntime h5;
             object_add rate_map servername tag_map h6
           })))"

text \<open>\<open>group_tags\<close> becomes an object with the given tags as keys.\<close>

definition set_group_tags :: "string list \<Rightarrow> stats \<Rightarrow> stats option" where
  "set_group_tags tags s =
    (let (g, h) = new_object (hp s) in do {
       h' \<leftarrow> foldM (\<lambda>str. object_add g str (JString '''')) tags h;
       Some (s\<lparr>hp := h', group_tags := g\<rparr>)
     })"

definition group_statsbytags :: "env \<Rightarrow> string list \<Rightarrow> stats \<Rightarrow> stats option" where
  "group_statsbytags E tags s = do {
     s1 \<leftarrow> set_group_tags tags s;
     hosts \<leftarrow> object_foreach (hp s1) (host_map s1);
     h \<leftarrow> foldM (group_host E (group_tags s1) (server_tag_rate_map s1)) hosts (hp s1);
     Some (s1\<lparr>hp := h\<rparr>)
   }"

section \<open>Facts\<close>

lemma group_tags_loop:
  "distinct (keys kvs @ tags) \<Longrightarrow>
    foldM (\<lambda>str. object_add (JRef (length h)) str (JString '''')) tags (push (Obj kvs) h) =
      Some (push (Obj (kvs @ map (\<lambda>t. (t, JString '''')) tags)) h)"
  by (induction tags arbitrary: kvs) auto

lemma set_group_tags_eq:
  "distinct tags \<Longrightarrow> set_group_tags tags s =
    Some (s\<lparr>hp := push (Obj (map (\<lambda>t. (t, JString '''')) tags)) (hp s), group_tags := JRef (length (hp s))\<rparr>)"
  using group_tags_loop[of "[]" tags "hp s"] by (simp add: set_group_tags_def new_object_def new_node_def)

text \<open>The class of a host whose class text fits the buffer and is no format.\<close>

lemma is_class_plain:
  assumes "object_get_ex h he ''obdclass'' = Some (JString c)" "CHR ''%'' \<notin> set c" "length c < 32"
  shows "is_class E h he class = Some (if class = c then 1 else -1)"
  using assms by (simp add: is_class_def)

section \<open>Properties\<close>

text \<open>The first report of a host and a stale report: the first complete report only becomes the old
  report, and a report whose time is not later than that of the old one leaves the whole state
  unchanged, so the rates last computed stay in place.\<close>

theorem group_host_waits:
  assumes "node_of h e = Some (Obj kvs)"
    and "map_of kvs ''time'' = Some ntime" "map_of kvs ''data'' = Some nda"
  shows "(map_of kvs ''otime'' = None \<longrightarrow> group_host E tuple rate_map (name, e) h =
      Some (store e (Obj (AList.update ''odata'' nda (AList.update ''otime'' ntime kvs))) h)) \<and>
    (\<forall>otime. map_of kvs ''otime'' = Some otime \<longrightarrow>
      fl E (get_double E ntime - get_double E otime) \<le> 0 \<longrightarrow> group_host E tuple rate_map (name, e) h = Some h)"
  using assms by (simp add: group_host_def report_of_def Let_def)

definition sample_report :: heap where
  "sample_report = [Obj [(''time'', JInt 100), (''data'', JRef 1)], Arr [],
    Obj [(''time'', JInt 100), (''data'', JRef 1), (''otime'', JInt 100), (''odata'', JRef 1)], Obj []]"

theorem group_host_waits_witness:
  "group_host plain_env (JRef 3) (JRef 3) (''mds1'', JRef 0) sample_report =
    Some (store (JRef 0) (Obj [(''time'', JInt 100), (''data'', JRef 1), (''otime'', JInt 100), (''odata'', JRef 1)])
      sample_report) \<and>
   group_host plain_env (JRef 3) (JRef 3) (''mds1'', JRef 2) sample_report = Some sample_report"
proof
  let ?k0 = "[(''time'', JInt 100), (''data'', JRef 1)]"
  let ?k2 = "[(''time'', JInt 100), (''data'', JRef 1), (''otime'', JInt 100), (''odata'', JRef 1)]"
  have n: "node_of sample_report (JRef 0) = Some (Obj ?k0)" "node_of sample_report (JRef 2) = Some (Obj ?k2)"
    by (simp_all add: sample_report_def node_of_def)
  show "group_host plain_env (JRef 3) (JRef 3) (''mds1'', JRef 0) sample_report =
      Some (store (JRef 0) (Obj ?k2) sample_report)"
    using group_host_waits[OF n(1), of "JInt 100" "JRef 1" plain_env "JRef 3" "JRef 3" "''mds1''"] by simp
  show "group_host plain_env (JRef 3) (JRef 3) (''mds1'', JRef 2) sample_report = Some sample_report"
    using group_host_waits[OF n(2), of "JInt 100" "JRef 1" plain_env "JRef 3" "JRef 3" "''mds1''"]
    by (simp add: plain_env_def get_double_def)
qed

end
