(* ===== verification/Derived.thy ===== *)
theory Derived
  imports GroupStats
begin

text \<open>
  \<open>derived_events\<close> of \<open>server/stats.c\<close>: from the summed events of the tuples of a server to the
  columns of the displays: requests per second, megabytes per second, the load of the server and each
  tuple's share of it.

  \<open>derived_events_spec\<close> is the functional specification on a store in which the tuples do not share
  their events; the properties are about the columns it yields.
\<close>

section \<open>The code\<close>

definition cf :: double where
  "cf = 1 / (1024 * 1024)"

definition skipped_event :: "string \<Rightarrow> bool" where
  "skipped_event event \<longleftrightarrow> strstr event ''[usec'' \<or> event = ''read_bytes'' \<or> event = ''write_bytes'' \<or>
    event = ''nclients'' \<or> event = ''bytes'' \<or> event = ''iops''"

record tally =
  cpu :: double
  sum_reqs :: double
  sum_bytes :: double

definition derive_event :: "env \<Rightarrow> jval \<Rightarrow> string \<times> jval \<Rightarrow> tally \<times> heap \<Rightarrow> (tally \<times> heap) option" where
  "derive_event E tag_entry = (\<lambda>(event, value) (a, h).
     (if skipped_event event then Some (a, h)
      else if strstr event ''[bytes'' then do {
        h' \<leftarrow> object_add tag_entry event (JDouble (fl E (get_double E value * cf))) h;
        Some (a\<lparr>sum_bytes := fl E (sum_bytes a + get_double E value)\<rparr>, h')
      }
      else if event = ''load'' then Some (a\<lparr>cpu := get_double E value\<rparr>, h)
      else Some (a\<lparr>sum_reqs := fl E (sum_reqs a + get_double E value)\<rparr>, h)))"

definition derive_tag :: "env \<Rightarrow> string \<times> jval \<Rightarrow> (double \<times> double) \<times> heap \<Rightarrow> ((double \<times> double) \<times> heap) option" where
  "derive_tag E = (\<lambda>(tags, tag_entry) ((total_iops, total_bytes), h).
     (if tags = ''time'' then Some ((total_iops, total_bytes), h)
      else do {
        events \<leftarrow> object_foreach h tag_entry;
        (a, h1) \<leftarrow> foldM (derive_event E tag_entry) events (\<lparr>cpu = 0, sum_reqs = 0, sum_bytes = 0\<rparr>, h);
        h2 \<leftarrow> object_add tag_entry ''load'' (JDouble (fl E (cpu a * fl E (1 / 100)))) h1;
        h3 \<leftarrow> object_add tag_entry ''iops'' (JDouble (sum_reqs a)) h2;
        h4 \<leftarrow> object_add tag_entry ''bytes'' (JDouble (fl E (sum_bytes a * cf))) h3;
        Some ((fl E (total_iops + sum_reqs a), fl E (total_bytes + fl E (sum_bytes a * cf))), h4)
      }))"

definition share_load :: "env \<Rightarrow> double \<Rightarrow> double \<Rightarrow> string \<times> jval \<Rightarrow> heap \<Rightarrow> heap option" where
  "share_load E total_iops total_bytes = (\<lambda>(retags, retag_entry) h.
     (case object_get_ex h retag_entry ''load'' of
        None \<Rightarrow> Some h
      | Some l \<Rightarrow>
          (let factor_iops = fl E (1 / total_iops); factor_bytes = fl E (1 / total_bytes);
               (l1, n1) = (case object_get_ex h retag_entry ''iops'' of
                   Some i \<Rightarrow> if 0 < total_iops then (fl E (0 + fl E (get_double E i * factor_iops)), 1) else (0, 0)
                 | None \<Rightarrow> (0, 0 :: nat));
               (l2, n2) = (case object_get_ex h retag_entry ''bytes'' of
                   Some b \<Rightarrow> if 0 < total_bytes then (fl E (l1 + fl E (get_double E b * factor_bytes)), n1 + 1) else (l1, n1)
                 | None \<Rightarrow> (l1, n1))
           in if 0 < n2
              then object_add retag_entry ''load_eff''
                (JDouble (fl E (fl E (get_double E l * l2) / of_nat n2))) h
              else Some h)))"

definition derived_events :: "env \<Rightarrow> jval \<Rightarrow> heap \<Rightarrow> heap option" where
  "derived_events E server_entry h = do {
     entries \<leftarrow> object_foreach h server_entry;
     ((total_iops, total_bytes), h1) \<leftarrow> foldM (derive_tag E) entries ((0, 0), h);
     entries' \<leftarrow> object_foreach h1 server_entry;
     foldM (share_load E total_iops total_bytes) entries' h1
   }"

section \<open>The columns of one tuple\<close>

definition derive_step :: "env \<Rightarrow> string \<times> jval \<Rightarrow> tally \<times> (string \<times> jval) list \<Rightarrow> tally \<times> (string \<times> jval) list" where
  "derive_step E = (\<lambda>(event, value) (a, kvs).
     if skipped_event event then (a, kvs)
     else if strstr event ''[bytes'' then
       (a\<lparr>sum_bytes := fl E (sum_bytes a + get_double E value)\<rparr>,
        AList.update event (JDouble (fl E (get_double E value * cf))) kvs)
     else if event = ''load'' then (a\<lparr>cpu := get_double E value\<rparr>, kvs)
     else (a\<lparr>sum_reqs := fl E (sum_reqs a + get_double E value)\<rparr>, kvs))"

definition derive :: "env \<Rightarrow> (string \<times> jval) list \<Rightarrow> tally \<times> (string \<times> jval) list" where
  "derive E kvs = fold (derive_step E) kvs (\<lparr>cpu = 0, sum_reqs = 0, sum_bytes = 0\<rparr>, kvs)"

definition iops_of :: "env \<Rightarrow> (string \<times> jval) list \<Rightarrow> double" where
  "iops_of E kvs = sum_reqs (fst (derive E kvs))"

definition mbytes_of :: "env \<Rightarrow> (string \<times> jval) list \<Rightarrow> double" where
  "mbytes_of E kvs = fl E (sum_bytes (fst (derive E kvs)) * cf)"

definition load_of :: "env \<Rightarrow> (string \<times> jval) list \<Rightarrow> double" where
  "load_of E kvs = fl E (cpu (fst (derive E kvs)) * fl E (1 / 100))"

definition derived_fields :: "env \<Rightarrow> (string \<times> jval) list \<Rightarrow> (string \<times> jval) list" where
  "derived_fields E kvs =
    AList.update ''bytes'' (JDouble (mbytes_of E kvs)) (AList.update ''iops'' (JDouble (iops_of E kvs))
      (AList.update ''load'' (JDouble (load_of E kvs)) (snd (derive E kvs))))"

text \<open>The share of the load; undefined (not stored) when there is no traffic at all.\<close>

definition load_share :: "env \<Rightarrow> double \<Rightarrow> double \<Rightarrow> (string \<times> jval) list \<Rightarrow> double option" where
  "load_share E ti tb kvs =
    (let i = (if 0 < ti then fl E (0 + fl E (iops_of E kvs * fl E (1 / ti))) else 0);
         b = (if 0 < tb then fl E (i + fl E (mbytes_of E kvs * fl E (1 / tb))) else i);
         n = (if 0 < ti then 1 else 0) + (if 0 < tb then 1 else 0) :: nat
     in if 0 < n then Some (fl E (fl E (load_of E kvs * b) / of_nat n)) else None)"

definition shared_fields :: "env \<Rightarrow> double \<Rightarrow> double \<Rightarrow> (string \<times> jval) list \<Rightarrow> (string \<times> jval) list" where
  "shared_fields E ti tb kvs =
    (case load_share E ti tb kvs of
       None \<Rightarrow> derived_fields E kvs
     | Some x \<Rightarrow> AList.update ''load_eff'' (JDouble x) (derived_fields E kvs))"

lemma derive_loop:
  assumes "node_of h r = Some (Obj m)"
  shows "foldM (derive_event E r) es (a, h) =
    Some (let (a', m') = fold (derive_step E) es (a, m) in (a', store r (Obj m') h))"
  using assms
proof (induction es arbitrary: a m h)
  case Nil
  then show ?case by (simp add: store_same)
next
  case (Cons q es)
  obtain event v where q: "q = (event, v)" by (cases q)
  obtain a1 m1 where st: "derive_step E q (a, m) = (a1, m1)" by fastforce
  have "derive_event E r q (a, h) = Some (a1, store r (Obj m1) h)"
    using st Cons.prems by (auto simp: derive_event_def derive_step_def q store_same split: if_splits)
  moreover have "foldM (derive_event E r) es (a1, store r (Obj m1) h) =
      Some (let (a', m') = fold (derive_step E) es (a1, m1) in (a', store r (Obj m') (store r (Obj m1) h)))"
    by (rule Cons.IH) (use Cons.prems in simp)
  ultimately show ?case by (simp add: st split: prod.split)
qed

lemma derive_tag_eq:
  assumes "node_of h r = Some (Obj kvs)" "t \<noteq> ''time''"
  shows "derive_tag E (t, r) ((ti, tb), h) =
    Some ((fl E (ti + iops_of E kvs), fl E (tb + mbytes_of E kvs)), store r (Obj (derived_fields E kvs)) h)"
proof -
  obtain a m where d: "derive E kvs = (a, m)" by fastforce
  have "foldM (derive_event E r) kvs (\<lparr>cpu = 0, sum_reqs = 0, sum_bytes = 0\<rparr>, h) = Some (a, store r (Obj m) h)"
    using derive_loop[OF assms(1)] d by (simp add: derive_def)
  with assms d show ?thesis
    by (simp add: derive_tag_def derived_fields_def iops_of_def mbytes_of_def load_of_def)
qed

lemma map_of_derived:
  "map_of (derived_fields E kvs) ''load'' = Some (JDouble (load_of E kvs))"
  "map_of (derived_fields E kvs) ''iops'' = Some (JDouble (iops_of E kvs))"
  "map_of (derived_fields E kvs) ''bytes'' = Some (JDouble (mbytes_of E kvs))"
  by (simp_all add: derived_fields_def)

lemma share_load_eq:
  assumes "node_of h r = Some (Obj (derived_fields E kvs))"
  shows "share_load E ti tb (t, r) h = Some (store r (Obj (shared_fields E ti tb kvs)) h)"
  using assms
  by (simp add: share_load_def map_of_derived shared_fields_def load_share_def Let_def get_double_def store_same)

section \<open>The passes over a server\<close>

definition derive_totals :: "env \<Rightarrow> (string \<times> jval) list list \<Rightarrow> double \<times> double \<Rightarrow> double \<times> double" where
  "derive_totals E = fold (\<lambda>kvs (ti, tb). (fl E (ti + iops_of E kvs), fl E (tb + mbytes_of E kvs)))"

text \<open>The tuples of a server, and the shape the passes rely on.\<close>

definition tuples :: "(string \<times> jval) list \<Rightarrow> jval list" where
  "tuples entries = map snd (filter (\<lambda>(t, r). t \<noteq> ''time'') entries)"

definition server_ok :: "heap \<Rightarrow> jval \<Rightarrow> (string \<times> jval) list \<Rightarrow> bool" where
  "server_ok h sv entries \<longleftrightarrow> node_of h sv = Some (Obj entries) \<and> distinct (tuples entries) \<and>
    sv \<notin> set (tuples entries) \<and> (\<forall>r \<in> set (tuples entries). is_obj h r) \<and>
    (\<forall>v. (''time'', v) \<in> set entries \<longrightarrow> scalar v)"

lemma derive_pass:
  assumes "distinct (tuples entries)" "\<And>r. r \<in> set (tuples entries) \<Longrightarrow> is_obj h r"
  shows "ok (foldM (derive_tag E) entries (tot, h)) (\<lambda>(tot', h').
    tot' = derive_totals E (map (fields_at h) (tuples entries)) tot \<and>
    rewrote (set (tuples entries)) (\<lambda>r. Obj (derived_fields E (fields_at h r))) h h')"
  using assms
proof (induction entries arbitrary: tot h)
  case Nil
  then show ?case by (simp add: derive_totals_def tuples_def)
next
  case (Cons q entries)
  obtain t r where q: "q = (t, r)" by (cases q)
  obtain ti tb where tot: "tot = (ti, tb)" by (cases tot)
  show ?case
  proof (cases "t = ''time''")
    case True
    then have "tuples (q # entries) = tuples entries" by (simp add: q tuples_def)
    moreover have "derive_tag E q (tot, h) = Some (tot, h)" using True by (simp add: q tot derive_tag_def)
    ultimately show ?thesis using Cons by simp
  next
    case False
    then have tu: "tuples (q # entries) = r # tuples entries" by (simp add: q tuples_def)
    obtain kvs where r: "node_of h r = Some (Obj kvs)" using Cons.prems(2)[of r] tu by (auto simp: is_obj_def)
    let ?h = "store r (Obj (derived_fields E kvs)) h"
    let ?tot = "(fl E (ti + iops_of E kvs), fl E (tb + mbytes_of E kvs))"
    have step: "derive_tag E q (tot, h) = Some (?tot, ?h)"
      unfolding q tot by (rule derive_tag_eq[OF r False])
    have rn: "r \<notin> set (tuples entries)" using Cons.prems(1) tu by simp
    have same: "fields_at ?h x = fields_at h x" if "x \<in> set (tuples entries)" for x
      using rn that by (auto simp: fields_at_def obj_of_def)
    have IH: "ok (foldM (derive_tag E) entries (?tot, ?h)) (\<lambda>(tot', h').
        tot' = derive_totals E (map (fields_at ?h) (tuples entries)) ?tot \<and>
        rewrote (set (tuples entries)) (\<lambda>r. Obj (derived_fields E (fields_at ?h r))) ?h h')"
    proof (rule Cons.IH)
      show "distinct (tuples entries)" using Cons.prems(1) tu by simp
      show "is_obj ?h x" if "x \<in> set (tuples entries)" for x using Cons.prems(2)[of x] tu that by simp
    qed
    have m: "map (fields_at ?h) (tuples entries) = map (fields_at h) (tuples entries)" using same by simp
    have first: "rewrote {r} (\<lambda>x. Obj (derived_fields E (fields_at h x))) h ?h"
      using r by (auto simp: rewrote_def)
    show ?thesis
      unfolding foldM.simps step option.case
    proof (rule ok_mono[OF IH], clarify)
      fix io by' h'
      assume eq: "(io, by') = derive_totals E (map (fields_at ?h) (tuples entries)) ?tot"
        and rw: "rewrote (set (tuples entries)) (\<lambda>r. Obj (derived_fields E (fields_at ?h r))) ?h h'"
      have "rewrote (set (tuples entries)) (\<lambda>r. Obj (derived_fields E (fields_at h r))) ?h h'"
        by (rule rewrote_cong[OF rw]) (simp add: same)
      then have "rewrote (set (tuples (q # entries))) (\<lambda>r. Obj (derived_fields E (fields_at h r))) h h'"
        using rewrote_trans[OF first] tu by simp
      moreover have "(io, by') = derive_totals E (map (fields_at h) (tuples (q # entries))) tot"
        using eq r unfolding m tu by (simp add: derive_totals_def tot)
      ultimately show "(io, by') = derive_totals E (map (fields_at h) (tuples (q # entries))) tot \<and>
          rewrote (set (tuples (q # entries))) (\<lambda>r. Obj (derived_fields E (fields_at h r))) h h'" by (rule conjI[rotated])
    qed
  qed
qed

lemma share_pass:
  assumes "distinct (tuples entries)" "\<And>v. (''time'', v) \<in> set entries \<Longrightarrow> scalar v"
    and "\<And>r. r \<in> set (tuples entries) \<Longrightarrow> node_of h r = Some (Obj (derived_fields E (F r)))"
  shows "ok (foldM (share_load E ti tb) entries h)
    (rewrote (set (tuples entries)) (\<lambda>r. Obj (shared_fields E ti tb (F r))) h)"
  using assms
proof (induction entries arbitrary: h)
  case Nil
  then show ?case by (simp add: tuples_def)
next
  case (Cons q entries)
  obtain t r where q: "q = (t, r)" by (cases q)
  show ?case
  proof (cases "t = ''time''")
    case True
    then have "scalar r" using Cons.prems(2) q by simp
    then have "object_get_ex h r k = None" for k by (cases r) (auto simp: scalar_def)
    then have "share_load E ti tb q h = Some h" by (simp add: q share_load_def)
    moreover have "tuples (q # entries) = tuples entries" using True by (simp add: q tuples_def)
    ultimately show ?thesis using Cons by simp
  next
    case False
    then have tu: "tuples (q # entries) = r # tuples entries" by (simp add: q tuples_def)
    let ?h = "store r (Obj (shared_fields E ti tb (F r))) h"
    have r: "node_of h r = Some (Obj (derived_fields E (F r)))" using Cons.prems(3) tu by simp
    have step: "share_load E ti tb q h = Some ?h" unfolding q by (rule share_load_eq[OF r])
    have rn: "r \<notin> set (tuples entries)" using Cons.prems(1) tu by simp
    have "ok (foldM (share_load E ti tb) entries ?h)
        (rewrote (set (tuples entries)) (\<lambda>r. Obj (shared_fields E ti tb (F r))) ?h)"
    proof (rule Cons.IH)
      show "distinct (tuples entries)" using Cons.prems(1) tu by simp
      show "scalar v" if "(''time'', v) \<in> set entries" for v using Cons.prems(2) that by simp
      show "node_of ?h x = Some (Obj (derived_fields E (F x)))" if "x \<in> set (tuples entries)" for x
        using Cons.prems(3)[of x] tu rn that by auto
    qed
    moreover have "rewrote {r} (\<lambda>r. Obj (shared_fields E ti tb (F r))) h ?h" using r by (auto simp: rewrote_def)
    ultimately show ?thesis
      using tu by (auto simp: step elim!: okE dest: rewrote_trans)
  qed
qed

lemma derived_events_spec:
  fixes E :: env
  assumes "server_ok h sv entries"
  defines "tot \<equiv> derive_totals E (map (fields_at h) (tuples entries)) (0, 0)"
  shows "ok (derived_events E sv h)
    (rewrote (set (tuples entries)) (\<lambda>r. Obj (shared_fields E (fst tot) (snd tot) (fields_at h r))) h)"
proof -
  let ?D = "\<lambda>r. Obj (derived_fields E (fields_at h r))"
  let ?S = "\<lambda>r. Obj (shared_fields E (fst tot) (snd tot) (fields_at h r))"
  have sv: "node_of h sv = Some (Obj entries)" "distinct (tuples entries)" "sv \<notin> set (tuples entries)"
    "\<And>r. r \<in> set (tuples entries) \<Longrightarrow> is_obj h r" "\<And>v. (''time'', v) \<in> set entries \<Longrightarrow> scalar v"
    using assms(1) by (auto simp: server_ok_def)
  from derive_pass[OF sv(2,4), of E "(0, 0)"] obtain h1 where
    h1: "foldM (derive_tag E) entries ((0, 0), h) = Some (tot, h1)" "rewrote (set (tuples entries)) ?D h h1"
    unfolding tot_def by (auto elim!: okE)
  have sv1: "node_of h1 sv = Some (Obj entries)" using h1(2) sv by (simp add: rewrote_def)
  have "ok (foldM (share_load E (fst tot) (snd tot)) entries h1) (rewrote (set (tuples entries)) ?S h1)"
    by (rule share_pass[where F = "fields_at h", OF sv(2,5)]) (use h1(2) in \<open>auto simp: rewrote_def\<close>)
  then obtain h2 where h2: "foldM (share_load E (fst tot) (snd tot)) entries h1 = Some h2"
    "rewrote (set (tuples entries)) ?S h1 h2" by (auto elim: okE)
  have "derived_events E sv h = Some h2"
    using sv(1) sv1 h1(1) h2(1) by (cases tot) (simp add: derived_events_def)
  moreover have "rewrote (set (tuples entries)) ?S h h2"
    using h1(2) h2(2) by (auto simp: rewrote_def)
  ultimately show ?thesis by simp
qed

section \<open>The columns\<close>

text \<open>With exact arithmetic the requests are the sum of the request counters, and so on.\<close>

definition request_event :: "string \<Rightarrow> bool" where
  "request_event e \<longleftrightarrow> \<not> skipped_event e \<and> \<not> strstr e ''[bytes'' \<and> e \<noteq> ''load''"

definition byte_event :: "string \<Rightarrow> bool" where
  "byte_event e \<longleftrightarrow> \<not> skipped_event e \<and> strstr e ''[bytes''"

lemma derive_step_sums:
  assumes "fl E = (\<lambda>x. x)"
  shows "sum_reqs (fst (derive_step E (e, v) (a, m))) = sum_reqs a + (if request_event e then get_double E v else 0)"
    and "sum_bytes (fst (derive_step E (e, v) (a, m))) = sum_bytes a + (if byte_event e then get_double E v else 0)"
  using assms by (auto simp: derive_step_def request_event_def byte_event_def)

lemma derive_sums:
  assumes "fl E = (\<lambda>x. x)"
  shows "sum_reqs (fst (fold (derive_step E) es p)) =
      sum_reqs (fst p) + (\<Sum>(e, v) \<leftarrow> filter (\<lambda>(e, v). request_event e) es. get_double E v)"
    and "sum_bytes (fst (fold (derive_step E) es p)) =
      sum_bytes (fst p) + (\<Sum>(e, v) \<leftarrow> filter (\<lambda>(e, v). byte_event e) es. get_double E v)"
proof -
  have st: "sum_reqs (fst (derive_step E q p)) = sum_reqs (fst p) + (if request_event (fst q) then get_double E (snd q) else 0)"
    "sum_bytes (fst (derive_step E q p)) = sum_bytes (fst p) + (if byte_event (fst q) then get_double E (snd q) else 0)" for q p
    using derive_step_sums[OF assms, of "fst q" "snd q" "fst p" "snd p"] by simp_all
  show "sum_reqs (fst (fold (derive_step E) es p)) =
      sum_reqs (fst p) + (\<Sum>(e, v) \<leftarrow> filter (\<lambda>(e, v). request_event e) es. get_double E v)"
    by (induction es arbitrary: p) (auto simp: st)
  show "sum_bytes (fst (fold (derive_step E) es p)) =
      sum_bytes (fst p) + (\<Sum>(e, v) \<leftarrow> filter (\<lambda>(e, v). byte_event e) es. get_double E v)"
    by (induction es arbitrary: p) (auto simp: st)
qed

lemma skipped_not_load: "\<not> skipped_event ''load''" "\<not> strstr ''load'' ''[bytes''"
  by (simp_all add: skipped_event_def)

lemma derive_cpu:
  "cpu (fst (fold (derive_step E) es (a, m))) =
    (case map_of (rev es) ''load'' of None \<Rightarrow> cpu a | Some v \<Rightarrow> get_double E v)"
proof (induction es arbitrary: a m)
  case Nil
  then show ?case by simp
next
  case (Cons q es)
  obtain e v where q: "q = (e, v)" by (cases q)
  obtain a1 m1 where st: "derive_step E q (a, m) = (a1, m1)" by fastforce
  have "cpu a1 = (if e = ''load'' then get_double E v else cpu a)"
    using st skipped_not_load by (auto simp: derive_step_def q split: if_splits)
  with Cons.IH[of a1 m1] show ?case by (auto simp: st[unfolded q] q map_add_def split: option.split)
qed

lemma derive_totals_exact:
  assumes "fl E = (\<lambda>x. x)"
  shows "derive_totals E ks (ti, tb) = (ti + (\<Sum>k \<leftarrow> ks. iops_of E k), tb + (\<Sum>k \<leftarrow> ks. mbytes_of E k))"
  by (induction ks arbitrary: ti tb) (simp_all add: derive_totals_def assms)

lemma cpu_of_load:
  assumes "distinct (keys kvs)"
  shows "cpu (fst (derive E kvs)) = (case map_of kvs ''load'' of None \<Rightarrow> 0 | Some v \<Rightarrow> get_double E v)"
proof -
  have "map_of (rev kvs) = map_of kvs"
    using map_of_inject_set[of "rev kvs" kvs] assms by (simp flip: rev_map)
  then show ?thesis
    using derive_cpu[of E kvs "\<lparr>cpu = 0, sum_reqs = 0, sum_bytes = 0\<rparr>" kvs]
    by (simp add: derive_def split: option.split)
qed

text \<open>The sum of the shares.\<close>

lemma load_shares_sum:
  assumes exact: "fl E = (\<lambda>x. x)" and load: "\<And>k. k \<in> set ks \<Longrightarrow> load_of E k = L"
    and pos: "0 < (\<Sum>k \<leftarrow> ks. iops_of E k)" "0 < (\<Sum>k \<leftarrow> ks. mbytes_of E k)"
  shows "(\<Sum>k \<leftarrow> ks. the (load_share E (\<Sum>k \<leftarrow> ks. iops_of E k) (\<Sum>k \<leftarrow> ks. mbytes_of E k) k)) = L"
proof -
  let ?I = "\<Sum>k \<leftarrow> ks. iops_of E k" and ?B = "\<Sum>k \<leftarrow> ks. mbytes_of E k"
  have each: "the (load_share E ?I ?B k) = L * (iops_of E k * (1 / ?I) + mbytes_of E k * (1 / ?B)) / 2"
    if "k \<in> set ks" for k
    using pos load[OF that] by (simp add: load_share_def exact)
  have split: "(\<Sum>k \<leftarrow> xs. L * (iops_of E k * a + mbytes_of E k * b) / 2) =
      L * ((\<Sum>k \<leftarrow> xs. iops_of E k) * a + (\<Sum>k \<leftarrow> xs. mbytes_of E k) * b) / 2" for xs a b
    by (induction xs) (simp_all add: algebra_simps add_divide_distrib)
  have "(\<Sum>k \<leftarrow> ks. the (load_share E ?I ?B k)) =
      (\<Sum>k \<leftarrow> ks. L * (iops_of E k * (1 / ?I) + mbytes_of E k * (1 / ?B)) / 2)"
    by (rule arg_cong[where f = sum_list], rule map_cong[OF refl each])
  also have "\<dots> = L * (?I * (1 / ?I) + ?B * (1 / ?B)) / 2" by (rule split)
  also have "\<dots> = L" using pos by simp
  finally show ?thesis .
qed

section \<open>Properties\<close>

text \<open>Two users of a server whose processor is loaded to 60 percent.\<close>

definition sample_user1 :: "(string \<times> jval) list" where
  "sample_user1 = [(''open'', JDouble 30), (''read_samples [bytes]'', JDouble 1048576), (''load'', JDouble 60)]"

definition sample_user2 :: "(string \<times> jval) list" where
  "sample_user2 = [(''open'', JDouble 10), (''read_samples [bytes]'', JDouble 3145728), (''load'', JDouble 60)]"

definition sample_server :: heap where
  "sample_server = [Obj [(''u1'', JRef 1), (''u2'', JRef 2), (''time'', JInt 5)], Obj sample_user1, Obj sample_user2]"

lemma sample_server_ok:
  "server_ok sample_server (JRef 0) [(''u1'', JRef 1), (''u2'', JRef 2), (''time'', JInt 5)]"
  by (auto simp: server_ok_def sample_server_def node_of_def tuples_def is_obj_def scalar_def)

lemma sample_server_fields:
  "map (fields_at sample_server) (tuples [(''u1'', JRef 1), (''u2'', JRef 2), (''time'', JInt 5)]) =
    [sample_user1, sample_user2]"
  by (simp add: tuples_def sample_server_def fields_at_def obj_of_def node_of_def)

text \<open>C16. The columns of a tuple: with exact arithmetic, iops and bytes are stored for every tuple and equal
  the sums of its request counters and of its byte counters (in units of 2^20 bytes), the load is a
  hundredth of its old value, and nothing but the tuples' own events is written.\<close>

theorem derived_events_columns:
  assumes "server_ok h sv entries" "fl E = (\<lambda>x. x)"
    and "\<And>r. r \<in> set (tuples entries) \<Longrightarrow> distinct (keys (fields_at h r))"
  shows "ok (derived_events E sv h) (\<lambda>h'.
    (\<forall>v. v \<notin> set (tuples entries) \<longrightarrow> node_of h' v = node_of h v) \<and>
    (\<forall>r \<in> set (tuples entries).
      object_get_ex h' r ''iops'' = Some (JDouble
        (\<Sum>(e, v) \<leftarrow> filter (\<lambda>(e, v). request_event e) (fields_at h r). get_double E v)) \<and>
      object_get_ex h' r ''bytes'' = Some (JDouble
        ((\<Sum>(e, v) \<leftarrow> filter (\<lambda>(e, v). byte_event e) (fields_at h r). get_double E v) / 2 ^ 20)) \<and>
      object_get_ex h' r ''load'' = Some (JDouble
        ((case object_get_ex h r ''load'' of None \<Rightarrow> 0 | Some v \<Rightarrow> get_double E v) / 100))))"
proof (rule ok_mono[OF derived_events_spec[OF assms(1)]])
  fix h'
  let ?tot = "derive_totals E (map (fields_at h) (tuples entries)) (0, 0)"
  assume rw: "rewrote (set (tuples entries))
    (\<lambda>r. Obj (shared_fields E (fst ?tot) (snd ?tot) (fields_at h r))) h h'"
  have col: "map_of (shared_fields E a b kvs) k = map_of (derived_fields E kvs) k" if "k \<noteq> ''load_eff''" for a b kvs k
    using that by (auto simp: shared_fields_def split: option.split)
  have val: "iops_of E kvs = (\<Sum>(e, v) \<leftarrow> filter (\<lambda>(e, v). request_event e) kvs. get_double E v)"
    "mbytes_of E kvs = (\<Sum>(e, v) \<leftarrow> filter (\<lambda>(e, v). byte_event e) kvs. get_double E v) / 2 ^ 20" for kvs
    by (simp_all add: iops_of_def mbytes_of_def derive_def derive_sums[OF assms(2)] assms(2) cf_def)
  have load: "load_of E (fields_at h r) =
      (case object_get_ex h r ''load'' of None \<Rightarrow> 0 | Some v \<Rightarrow> get_double E v) / 100"
    if r: "r \<in> set (tuples entries)" for r
  proof -
    have "is_obj h r" using assms(1) r by (simp add: server_ok_def)
    then obtain kvs where "node_of h r = Some (Obj kvs)" by (auto simp: is_obj_def)
    then have "object_get_ex h r ''load'' = map_of (fields_at h r) ''load''" by simp
    then show ?thesis by (simp add: load_of_def assms(2) cpu_of_load[OF assms(3)[OF r]])
  qed
  have "object_get_ex h' r k = map_of (derived_fields E (fields_at h r)) k"
    if "r \<in> set (tuples entries)" "k \<noteq> ''load_eff''" for r k
    using rw that by (simp add: rewrote_def col)
  then show "(\<forall>v. v \<notin> set (tuples entries) \<longrightarrow> node_of h' v = node_of h v) \<and>
    (\<forall>r \<in> set (tuples entries).
      object_get_ex h' r ''iops'' = Some (JDouble
        (\<Sum>(e, v) \<leftarrow> filter (\<lambda>(e, v). request_event e) (fields_at h r). get_double E v)) \<and>
      object_get_ex h' r ''bytes'' = Some (JDouble
        ((\<Sum>(e, v) \<leftarrow> filter (\<lambda>(e, v). byte_event e) (fields_at h r). get_double E v) / 2 ^ 20)) \<and>
      object_get_ex h' r ''load'' = Some (JDouble
        ((case object_get_ex h r ''load'' of None \<Rightarrow> 0 | Some v \<Rightarrow> get_double E v) / 100)))"
    using rw load by (auto simp: map_of_derived val rewrote_def)
qed

theorem derived_events_columns_witness:
  "ok (derived_events plain_env (JRef 0) sample_server) (\<lambda>h'.
    object_get_ex h' (JRef 2) ''bytes'' = Some (JDouble 3) \<and> object_get_ex h' (JRef 2) ''iops'' = Some (JDouble 10) \<and>
    object_get_ex h' (JRef 2) ''load'' = Some (JDouble (3/5)))"
proof -
  let ?es = "[(''u1'', JRef 1), (''u2'', JRef 2), (''time'', JInt 5)] :: (string \<times> jval) list"
  have f: "fields_at sample_server (JRef 2) = sample_user2" "object_get_ex sample_server (JRef 2) ''load'' = Some (JDouble 60)"
    by (simp_all add: sample_server_def fields_at_def obj_of_def node_of_def object_get_ex_def sample_user2_def)
  have d: "distinct (keys (fields_at sample_server r))" if "r \<in> set (tuples ?es)" for r
    using that by (auto simp: tuples_def sample_server_def fields_at_def obj_of_def node_of_def
        sample_user1_def sample_user2_def)
  have E: "fl plain_env = (\<lambda>x. x)" by (simp add: plain_env_def)
  show ?thesis
    by (rule ok_mono[OF derived_events_columns[OF sample_server_ok E d]], assumption)
      (simp add: tuples_def f, simp add: sample_user2_def request_event_def byte_event_def skipped_event_def get_double_def)
qed

text \<open>C27. The effective load is a partition of the server's load: if all tuples carry the load of the server and
  the server has both requests and data traffic, the shares stored for its tuples add up to that load.\<close>

theorem load_eff_partitions_load:
  assumes "server_ok h sv entries" "fl E = (\<lambda>x. x)"
    and "\<And>r. r \<in> set (tuples entries) \<Longrightarrow> distinct (keys (fields_at h r))"
    and "\<And>r. r \<in> set (tuples entries) \<Longrightarrow> object_get_ex h r ''load'' = Some (JDouble L)"
    and "0 < (\<Sum>r \<leftarrow> tuples entries. iops_of E (fields_at h r))"
    and "0 < (\<Sum>r \<leftarrow> tuples entries. mbytes_of E (fields_at h r))"
  shows "ok (derived_events E sv h) (\<lambda>h'. \<exists>x.
    (\<forall>r \<in> set (tuples entries). object_get_ex h' r ''load_eff'' = Some (JDouble (x r))) \<and>
    (\<Sum>r \<leftarrow> tuples entries. x r) = L / 100)"
proof (rule ok_mono[OF derived_events_spec[OF assms(1)]])
  fix h'
  let ?ks = "map (fields_at h) (tuples entries)"
  let ?I = "\<Sum>k \<leftarrow> ?ks. iops_of E k" and ?B = "\<Sum>k \<leftarrow> ?ks. mbytes_of E k"
  let ?x = "\<lambda>r. the (load_share E ?I ?B (fields_at h r))"
  assume "rewrote (set (tuples entries)) (\<lambda>r. Obj (shared_fields E (fst (derive_totals E ?ks (0, 0)))
    (snd (derive_totals E ?ks (0, 0))) (fields_at h r))) h h'"
  then have rw: "\<And>r. r \<in> set (tuples entries) \<Longrightarrow> node_of h' r = Some (Obj (shared_fields E ?I ?B (fields_at h r)))"
    by (simp add: rewrote_def derive_totals_exact[OF assms(2)])
  have pos: "0 < ?I" "0 < ?B" using assms(5,6) by (simp_all add: comp_def)
  then have some: "load_share E ?I ?B kvs \<noteq> None" for kvs by (simp add: load_share_def)
  have "object_get_ex h' r ''load_eff'' = Some (JDouble (?x r))" if "r \<in> set (tuples entries)" for r
    using rw[OF that] some[of "fields_at h r"] by (auto simp: shared_fields_def)
  moreover have load: "load_of E k = L / 100" if "k \<in> set ?ks" for k
  proof -
    from that obtain r where r: "r \<in> set (tuples entries)" "k = fields_at h r" by auto
    then have "is_obj h r" using assms(1) by (simp add: server_ok_def)
    then have "map_of k ''load'' = Some (JDouble L)" using assms(4)[OF r(1)] r(2) by (auto simp: is_obj_def)
    then show ?thesis using cpu_of_load[OF assms(3)[OF r(1)], of E] r(2)
      by (simp add: load_of_def assms(2) get_double_def)
  qed
  moreover have "(\<Sum>r \<leftarrow> tuples entries. ?x r) = L / 100"
    using load_shares_sum[OF assms(2) load pos] by (simp add: comp_def)
  ultimately show "\<exists>x. (\<forall>r \<in> set (tuples entries). object_get_ex h' r ''load_eff'' = Some (JDouble (x r))) \<and>
      (\<Sum>r \<leftarrow> tuples entries. x r) = L / 100" by (intro exI[of _ ?x]) blast
qed

theorem load_eff_partitions_load_witness:
  "ok (derived_events plain_env (JRef 0) sample_server) (\<lambda>h'. \<exists>x1 x2.
    object_get_ex h' (JRef 1) ''load_eff'' = Some (JDouble x1) \<and>
    object_get_ex h' (JRef 2) ''load_eff'' = Some (JDouble x2) \<and> x1 + x2 = 3/5)"
proof -
  let ?es = "[(''u1'', JRef 1), (''u2'', JRef 2), (''time'', JInt 5)] :: (string \<times> jval) list"
  have f: "fields_at sample_server (JRef 1) = sample_user1" "fields_at sample_server (JRef 2) = sample_user2"
    "object_get_ex sample_server (JRef 1) ''load'' = Some (JDouble 60)"
    "object_get_ex sample_server (JRef 2) ''load'' = Some (JDouble 60)"
    by (simp_all add: sample_server_def fields_at_def obj_of_def node_of_def object_get_ex_def
        sample_user1_def sample_user2_def)
  have tu: "tuples ?es = [JRef 1, JRef 2]" by (simp add: tuples_def)
  have d: "distinct (keys (fields_at sample_server r))" if "r \<in> set (tuples ?es)" for r
    using that unfolding tu by (auto simp: f sample_user1_def sample_user2_def simp del: One_nat_def)
  have l: "object_get_ex sample_server r ''load'' = Some (JDouble 60)" if "r \<in> set (tuples ?es)" for r
    using that unfolding tu by (auto simp: f simp del: One_nat_def)
  have E: "fl plain_env = (\<lambda>x. x)" by (simp add: plain_env_def)
  have v: "iops_of plain_env sample_user1 = 30" "iops_of plain_env sample_user2 = 10"
    "mbytes_of plain_env sample_user1 = 1" "mbytes_of plain_env sample_user2 = 3"
    by (simp_all add: iops_of_def mbytes_of_def derive_def derive_step_def sample_user1_def sample_user2_def
        skipped_event_def get_double_def plain_env_def cf_def)
  have pos: "0 < (\<Sum>r \<leftarrow> tuples ?es. iops_of plain_env (fields_at sample_server r))"
    "0 < (\<Sum>r \<leftarrow> tuples ?es. mbytes_of plain_env (fields_at sample_server r))"
    unfolding tu by (simp_all add: f v del: One_nat_def)
  show ?thesis
    by (rule ok_mono[OF load_eff_partitions_load[OF sample_server_ok E d l pos]], assumption, assumption)
      (use tu in \<open>auto simp del: One_nat_def\<close>)
qed

end
