(* ===== verification/Grouping.thy ===== *)
theory Grouping
  imports Derived
begin

text \<open>
  \<open>group_ratesbytags\<close> of \<open>server/stats.c\<close>: the viewer (\<open>server/screen.c\<close>) and the
  database writer (\<open>server/pq.c\<close>) regroup the rates they received from the server by fewer tags,
  filter them, and derive the columns they show.

  The refinement lemma relates one entry to \<open>absorb\<close>; the properties are conservation of every event
  under regrouping, the meaning of the filters, and the sharing of the summed objects with
  \<open>server_tag_rate_map\<close>, which makes a second regrouping of the same rates count twice.
\<close>

section \<open>The code\<close>

text \<open>\<open>Some True\<close>: the filter is set, the current tags have the key, and its value is another one.\<close>

definition filtered :: "env \<Rightarrow> heap \<Rightarrow> string option \<Rightarrow> jval \<Rightarrow> string \<Rightarrow> bool option" where
  "filtered E h filt cur_tags key =
    (case filt of
       None \<Rightarrow> Some False
     | Some x \<Rightarrow>
         (case object_get_ex h cur_tags key of
            None \<Rightarrow> Some False
          | Some tid \<Rightarrow> do { s \<leftarrow> get_string E h tid; Some (s \<noteq> x) }))"

definition group_rate ::
    "env \<Rightarrow> filters \<Rightarrow> jval \<Rightarrow> string \<Rightarrow> jval \<Rightarrow> jval \<Rightarrow> string \<times> jval \<Rightarrow> heap \<Rightarrow> heap option" where
  "group_rate E flt grp server tag_rate_map time = (\<lambda>(tags, tags_rates) h.
     (if tags = ''time'' then object_add tag_rate_map ''time'' time h
      else (case tokener_parse E tags h of
          None \<Rightarrow> Some h
        | Some (pre_tags, h1) \<Rightarrow>
            (let (cur_tags, h2) = new_object h1 in do {
               gt \<leftarrow> object_foreach h2 grp;
               h3 \<leftarrow> copy_tags pre_tags (map (\<lambda>(group_tag, placeholder). (group_tag, group_tag)) gt) cur_tags h2;
               f1 \<leftarrow> filtered E h3 (filter_user flt) cur_tags ''uid'';
               if f1 then Some h3 else do {
                 f2 \<leftarrow> filtered E h3 (filter_job flt) cur_tags ''jid'';
                 if f2 then Some h3
                 else if filter_server flt \<noteq> None \<and> filter_server flt \<noteq> Some server then Some h3
                 else add_stats E tag_rate_map (snprintf_fmt E 256 (to_json_string E h3 cur_tags)) tags_rates h3
               }
             }))))"

definition group_server ::
    "env \<Rightarrow> filters \<Rightarrow> jval \<Rightarrow> jval \<Rightarrow> string \<times> jval \<Rightarrow> heap \<Rightarrow> heap option" where
  "group_server E flt grp screen = (\<lambda>(server, server_rates) h.
     (case object_get_ex h server_rates ''time'' of
        None \<Rightarrow> Some h
      | Some time \<Rightarrow>
          (let (tag_rate_map, h1) = new_object h in do {
             rates \<leftarrow> object_foreach h1 server_rates;
             h2 \<leftarrow> foldM (group_rate E flt grp server tag_rate_map time) rates h1;
             h3 \<leftarrow> derived_events E tag_rate_map h2;
             object_add screen server tag_rate_map h3
           })))"

definition group_ratesbytags :: "env \<Rightarrow> filters \<Rightarrow> string list \<Rightarrow> stats \<Rightarrow> stats option" where
  "group_ratesbytags E flt tags s = do {
     s1 \<leftarrow> set_group_tags tags s;
     servers \<leftarrow> object_foreach (hp s1) (server_tag_rate_map s1);
     h \<leftarrow> foldM (group_server E flt (group_tags s1) (screen_map s1)) servers (hp s1);
     Some (s1\<lparr>hp := h\<rparr>)
   }"

section \<open>One entry\<close>

text \<open>The tags of an entry, from its text, and those that survive the grouping.\<close>

definition entry_fields :: "env \<Rightarrow> string \<Rightarrow> (string \<times> json) list option" where
  "entry_fields E tags = (case of_json E tags of Some (TObject fs) \<Rightarrow> Some fs | _ \<Rightarrow> None)"

definition plain_tree :: "json \<Rightarrow> bool" where
  "plain_tree t \<longleftrightarrow> (\<exists>s. t = TString s)"

definition tag_val :: "json \<Rightarrow> jval" where
  "tag_val t = (case t of TString s \<Rightarrow> JString s | _ \<Rightarrow> JNull)"

definition grouped :: "string list \<Rightarrow> (string \<times> json) list \<Rightarrow> (string \<times> jval) list" where
  "grouped gts fs = copied (\<lambda>k. map_option tag_val (map_of fs k)) (map (\<lambda>g. (g, g)) gts) []"

text \<open>The text a group is summed under, and the filters.\<close>

definition grouped_text :: "env \<Rightarrow> string list \<Rightarrow> (string \<times> json) list \<Rightarrow> string" where
  "grouped_text E gts fs = snprintf_fmt E 256 (to_json E (TObject
    (map (\<lambda>(k, v). (k, tree_of 0 [] v)) (grouped gts fs))))"

definition passes :: "filters \<Rightarrow> string \<Rightarrow> string list \<Rightarrow> (string \<times> json) list \<Rightarrow> bool" where
  "passes flt server gts fs \<longleftrightarrow>
    (\<forall>u s. filter_user flt = Some u \<longrightarrow> map_of (grouped gts fs) ''uid'' = Some (JString s) \<longrightarrow> s = u) \<and>
    (\<forall>j s. filter_job flt = Some j \<longrightarrow> map_of (grouped gts fs) ''jid'' = Some (JString s) \<longrightarrow> s = j) \<and>
    (\<forall>x. filter_server flt = Some x \<longrightarrow> x = server)"

lemma grouped_strings:
  assumes "\<And>k t. (k, t) \<in> set fs \<Longrightarrow> plain_tree t" "(k, v) \<in> set (grouped gts fs)"
  shows "\<exists>s. v = JString s"
proof -
  have "\<exists>j. map_option tag_val (map_of fs j) = Some v"
    using set_copied[OF assms(2)[unfolded grouped_def]] by auto
  then obtain j t where "map_of fs j = Some t" "v = tag_val t" by auto
  then obtain s where "t = TString s" using assms(1)[OF map_of_SomeD] by (auto simp: plain_tree_def)
  with \<open>v = tag_val t\<close> show ?thesis by (simp add: tag_val_def)
qed

lemma map_of_grouped_string:
  assumes "\<And>k t. (k, t) \<in> set fs \<Longrightarrow> plain_tree t" "map_of (grouped gts fs) k = Some v"
  shows "\<exists>s. v = JString s"
  using grouped_strings[OF assms(1) map_of_SomeD[OF assms(2)]] .

text \<open>Building the tags of an entry only adds nodes.\<close>

lemma parsed_fields:
  assumes "tokener_parse E tags h = Some (v, h1)" "entry_fields E tags = Some fs"
    and "canon_fields fs" "distinct (keys fs)" "\<And>k t. (k, t) \<in> set fs \<Longrightarrow> plain_tree t"
  shows "keeps {} h h1" "object_get_ex h1 v k = map_option tag_val (map_of fs k)" "is_obj h1 v"
proof -
  have of_j: "of_json E tags = Some (TObject fs)"
    using assms(2) by (auto simp: entry_fields_def split: option.splits json.splits)
  then have b: "build (TObject fs) h = (v, h1)" using assms(1) by (simp add: tokener_parse_def)
  show "keeps {} h h1" using build_frame(1)[OF b] by simp
  have "rep h1 v (TObject fs)" by (rule build_rep(1)[OF b]) (use assms(3,4) in simp)
  then obtain kvs where kvs: "node_of h1 v = Some (Obj kvs)" "rep_fields h1 kvs fs"
    by (auto split: option.splits node.splits)
  then show "is_obj h1 v" by auto
  have "map_of kvs k = map_option tag_val (map_of fs k)"
  proof (cases "map_of fs k")
    case None
    then have "k \<notin> set (keys kvs)" using rep_fields_keys[OF kvs(2)] by (simp add: map_of_eq_None_iff)
    then have "map_of kvs k = None" by (simp add: map_of_eq_None_iff)
    with None show ?thesis by simp
  next
    case (Some t)
    then obtain w where "map_of kvs k = Some w" "rep h1 w t" using rep_fields_map_of[OF kvs(2)] by blast
    moreover obtain s where "t = TString s" using assms(5)[OF map_of_SomeD[OF Some]] by (auto simp: plain_tree_def)
    ultimately show ?thesis using Some by (simp add: tag_val_def)
  qed
  then show "object_get_ex h1 v k = map_option tag_val (map_of fs k)" using kvs(1) by simp
qed

lemma keeps_frame:
  assumes "sep h tm" "keeps {} h h'"
  shows "view h' tm = view h tm" "sep h' tm" "refs h' tm = refs h tm"
proof -
  obtain kvs where tm: "node_of h tm = Some (Obj kvs)" using sep_tm[OF assms(1)] by blast
  then have get: "object_get_ex h' tm = object_get_ex h tm"
    using keeps_node[OF assms(2) tm] by (simp add: fun_eq_iff)
  have ob: "is_obj h r \<Longrightarrow> is_obj h' r" for r using assms(2) by (auto simp: is_obj_def dest: keeps_node)
  show r: "refs h' tm = refs h tm" by (simp add: refs_def get)
  have "uniq_at h' tm = uniq_at h tm" using keeps_node[OF assms(2) tm] tm by (simp add: uniq_at_def)
  then show "sep h' tm" using assms(1) ob unfolding sep_def r get by blast
  show "view h' tm = view h tm"
  proof
    fix t
    show "view h' tm t = view h tm t"
    proof (cases "object_get_ex h tm t")
      case None
      then show ?thesis by (simp add: view_def get)
    next
      case (Some x)
      then obtain xs where "node_of h x = Some (Obj xs)" using sepD(1)[OF assms(1)] by blast
      with Some keeps_node[OF assms(2) this] show ?thesis by (simp add: view_def get)
    qed
  qed
qed

text \<open>An entry is either filtered out, and then nothing but new nodes appear, or it is added to the sum of its
  group.\<close>

lemma group_rate_step:
  assumes grp: "node_of h grp = Some (Obj (map (\<lambda>g. (g, x g)) gts))"
    and fs: "entry_fields E tags = Some fs" "canon_fields fs" "distinct (keys fs)"
      "\<And>k t. (k, t) \<in> set fs \<Longrightarrow> plain_tree t" and nt: "tags \<noteq> ''time''"
  shows "\<exists>h3. keeps {} h h3 \<and> group_rate E flt grp server tm time (tags, st) h =
    (if passes flt server gts fs then add_stats E tm (grouped_text E gts fs) st h3 else Some h3)"
proof -
  have of_j: "of_json E tags = Some (TObject fs)"
    using fs(1) by (auto simp: entry_fields_def split: option.splits json.splits)
  then obtain v h1 where p: "tokener_parse E tags h = Some (v, h1)"
    by (cases "build (TObject fs) h") (auto simp: tokener_parse_def simp del: build.simps)
  note pf = parsed_fields[OF p fs]
  let ?c = "JRef (length h1)" and ?h2 = "push (Obj []) h1"
  let ?cur = "grouped gts fs"
  let ?h3 = "push (Obj ?cur) h1"
  have grp1: "node_of h1 grp = Some (Obj (map (\<lambda>g. (g, x g)) gts))" using keeps_node[OF pf(1) grp] by simp
  then have grp2: "object_foreach ?h2 grp = Some (map (\<lambda>g. (g, x g)) gts)" by auto
  have pairs: "map (\<lambda>(group_tag, placeholder). (group_tag, group_tag)) (map (\<lambda>g. (g, x g)) gts) = map (\<lambda>g. (g, g)) gts"
    by simp
  have vn: "v \<noteq> ?c" using pf(3) by (auto simp: is_obj_def)
  have get: "object_get_ex h1 v = (\<lambda>k. map_option tag_val (map_of fs k))" using pf(2) by (simp add: fun_eq_iff)
  have cp: "copy_tags v (map (\<lambda>g. (g, g)) gts) ?c ?h2 = Some ?h3"
    using copy_tags_newest[OF vn, of "map (\<lambda>g. (g, g)) gts" "[]"] by (simp add: get grouped_def)
  have new: "new_object h1 = (?c, ?h2)" by (simp add: new_object_def new_node_def)
  have curg: "object_get_ex ?h3 ?c k = map_of ?cur k" for k by simp
  have filt: "filtered E ?h3 f ?c k = Some (\<exists>y s. f = Some y \<and> map_of ?cur k = Some (JString s) \<and> s \<noteq> y)" for f k
    unfolding filtered_def curg
  proof (cases f; cases "map_of ?cur k")
    fix y w assume "f = Some y" "map_of ?cur k = Some w"
    moreover obtain s where "w = JString s" using map_of_grouped_string[OF _ calculation(2)] fs(4) by blast
    ultimately show "(case f of None \<Rightarrow> Some False
        | Some x \<Rightarrow> (case map_of ?cur k of None \<Rightarrow> Some False
          | Some tid \<Rightarrow> do { s \<leftarrow> get_string E ?h3 tid; Some (s \<noteq> x) })) =
      Some (\<exists>y s. f = Some y \<and> map_of ?cur k = Some (JString s) \<and> s \<noteq> y)" by simp
  qed simp_all
  have sc: "scalar w" if "(k, w) \<in> set ?cur" for k w
    using grouped_strings[OF fs(4) that] by (auto simp: scalar_def)
  have txt': "snprintf_fmt E 256 (to_json_string E ?h3 ?c) = grouped_text E gts fs"
  proof -
    have "to_json_string E ?h3 ?c = to_json E (TObject (map (\<lambda>(k, v). (k, tree_of 0 [] v)) ?cur))"
      using sc by (auto simp: to_json_string_def intro!: arg_cong[where f = "to_json E"] tree_of_scalar)
    then show ?thesis by (simp only: grouped_text_def)
  qed
  have k3: "keeps {} h ?h3" by (rule keeps_trans[OF pf(1) keeps_push])
  have ps: "passes flt server gts fs \<longleftrightarrow>
      \<not> (\<exists>y s. filter_user flt = Some y \<and> map_of ?cur ''uid'' = Some (JString s) \<and> s \<noteq> y) \<and>
      \<not> (\<exists>y s. filter_job flt = Some y \<and> map_of ?cur ''jid'' = Some (JString s) \<and> s \<noteq> y) \<and>
      \<not> (filter_server flt \<noteq> None \<and> filter_server flt \<noteq> Some server)"
    unfolding passes_def by (cases "filter_server flt") auto
  have "group_rate E flt grp server tm time (tags, st) h =
      (if \<exists>y s. filter_user flt = Some y \<and> map_of ?cur ''uid'' = Some (JString s) \<and> s \<noteq> y then Some ?h3
       else if \<exists>y s. filter_job flt = Some y \<and> map_of ?cur ''jid'' = Some (JString s) \<and> s \<noteq> y then Some ?h3
       else if filter_server flt \<noteq> None \<and> filter_server flt \<noteq> Some server then Some ?h3
       else add_stats E tm (grouped_text E gts fs) st ?h3)"
    unfolding group_rate_def prod.case if_not_P[OF nt] p option.case new Let_def grp2 Option.bind.bind_lunit
      pairs cp filt txt' by (rule refl)
  then have eq: "group_rate E flt grp server tm time (tags, st) h =
      (if passes flt server gts fs then add_stats E tm (grouped_text E gts fs) st ?h3 else Some ?h3)"
    unfolding ps by argo
  then show ?thesis using k3 by blast
qed

lemma group_rate_refines:
  assumes tm: "sep h tm" and grp: "node_of h grp = Some (Obj (map (\<lambda>g. (g, x g)) gts))"
    and fs: "entry_fields E tags = Some fs" "canon_fields fs" "distinct (keys fs)"
      "\<And>k t. (k, t) \<in> set fs \<Longrightarrow> plain_tree t"
    and st: "node_of h st = Some (Obj evs)" "st \<noteq> tm" "st \<notin> refs h tm" and nt: "tags \<noteq> ''time''"
  shows "ok (group_rate E flt grp server tm time (tags, st) h) (\<lambda>h'. sep h' tm \<and>
    view h' tm = (if passes flt server gts fs then absorb (merge E) (grouped_text E gts fs, evs) (view h tm)
                  else view h tm) \<and>
    refs h' tm \<subseteq> (if passes flt server gts fs then insert st (refs h tm) else refs h tm) \<and>
    keeps (if passes flt server gts fs then insert tm (refs h tm) else {}) h h')"
proof -
  obtain h3 where k3: "keeps {} h h3" and eq: "group_rate E flt grp server tm time (tags, st) h =
      (if passes flt server gts fs then add_stats E tm (grouped_text E gts fs) st h3 else Some h3)"
    using group_rate_step[OF grp fs(1-3) _ nt] fs(4) by blast
  note fr = keeps_frame[OF tm k3]
  have st3: "node_of h3 st = Some (Obj evs)" by (rule keeps_node[OF k3 st(1)]) simp
  show ?thesis
  proof (cases "passes flt server gts fs")
    case False
    then show ?thesis using fr k3 eq by simp
  next
    case True
    then show ?thesis
      using add_stats_refines[OF fr(2) st3 st(2), where E = E and tags = "grouped_text E gts fs"] eq fr st(3) k3
      by (auto elim!: ok_mono intro: keeps_trans[OF keeps_mono[OF k3]])
  qed
qed

section \<open>All entries of a server\<close>

definition tags_ok :: "env \<Rightarrow> string \<Rightarrow> bool" where
  "tags_ok E tags \<longleftrightarrow> tags \<noteq> ''time'' \<and>
    (\<exists>fs. entry_fields E tags = Some fs \<and> canon_fields fs \<and> distinct (keys fs) \<and>
      (\<forall>k t. (k, t) \<in> set fs \<longrightarrow> plain_tree t))"

definition group_pairs :: "env \<Rightarrow> filters \<Rightarrow> string \<Rightarrow> string list \<Rightarrow> heap \<Rightarrow> (string \<times> jval) list \<Rightarrow>
    (string \<times> (string \<times> jval) list) list" where
  "group_pairs E flt server gts h es =
    map (\<lambda>(t, st). (grouped_text E gts (the (entry_fields E t)), fields_at h st))
      (filter (\<lambda>(t, st). passes flt server gts (the (entry_fields E t))) es)"

text \<open>The entries, the tuple of tags and the new tag map do not share objects.\<close>

definition group_sep :: "env \<Rightarrow> heap \<Rightarrow> jval \<Rightarrow> string list \<Rightarrow> jval \<Rightarrow> (string \<times> jval) list \<Rightarrow> bool" where
  "group_sep E h grp gts tm es \<longleftrightarrow>
    (\<exists>x. node_of h grp = Some (Obj (map (\<lambda>g. (g, x g)) gts))) \<and> node_of h tm = Some (Obj []) \<and>
    grp \<noteq> tm \<and> grp \<notin> snd ` set es \<and> tm \<notin> snd ` set es \<and> distinct (map snd es) \<and>
    (\<forall>(t, st) \<in> set es. tags_ok E t \<and> is_obj h st)"

lemma group_loop:
  assumes "group_sep E h grp gts tm es"
  shows "ok (foldM (group_rate E flt grp server tm time) es h) (\<lambda>h'.
      view h' tm = fold (absorb (merge E)) (group_pairs E flt server gts h es) Map.empty \<and> sep h' tm \<and>
      refs h' tm \<subseteq> snd ` set es \<and> keeps (insert tm (snd ` set es)) h h')"
proof -
  obtain x where grp: "node_of h grp = Some (Obj (map (\<lambda>g. (g, x g)) gts))" and tm0: "node_of h tm = Some (Obj [])"
    and ne: "grp \<noteq> tm" "grp \<notin> snd ` set es" "tm \<notin> snd ` set es" "distinct (map snd es)"
    and es: "\<And>t st. (t, st) \<in> set es \<Longrightarrow> tags_ok E t \<and> is_obj h st"
    using assms unfolding group_sep_def by blast
  define I where "I = (\<lambda>ys g.
    view g tm = fold (absorb (merge E)) (group_pairs E flt server gts h ys) Map.empty \<and> sep g tm \<and>
    refs g tm \<subseteq> snd ` set ys \<and> keeps (insert tm (snd ` set ys)) h g)"
  have "ok (foldM (group_rate E flt grp server tm time) es h) (I es)"
  proof (rule ok_foldM)
    show "I [] h" using tm0 by (auto simp: I_def group_pairs_def view_def sep_def refs_def uniq_at_def)
  next
    fix ys q zs g
    assume xs: "es = ys @ q # zs" and I: "I ys g"
    obtain t st where q: "q = (t, st)" by (cases q)
    have t: "tags_ok E t" and "is_obj h st" using es[of t st] xs q by auto
    then obtain evs where evs: "node_of h st = Some (Obj evs)" by (auto simp: is_obj_def)
    obtain fs where fs: "entry_fields E t = Some fs" "canon_fields fs" "distinct (keys fs)"
      "\<And>k u. (k, u) \<in> set fs \<Longrightarrow> plain_tree u" "t \<noteq> ''time''" using t by (auto simp: tags_ok_def)
    have sub: "snd ` set ys \<subseteq> snd ` set es" "st \<in> snd ` set es" using xs q by force+
    have stn: "st \<notin> insert tm (snd ` set ys)" using ne(3,4) sub xs q by auto
    have kg: "keeps (insert tm (snd ` set ys)) h g" and sg: "sep g tm" and rg: "refs g tm \<subseteq> snd ` set ys"
      and vg: "view g tm = fold (absorb (merge E)) (group_pairs E flt server gts h ys) Map.empty"
      using I by (auto simp: I_def)
    have gg: "node_of g grp = Some (Obj (map (\<lambda>g. (g, x g)) gts))"
      by (rule keeps_node[OF kg grp]) (use ne sub in blast)
    have stg: "node_of g st = Some (Obj evs)" by (rule keeps_node[OF kg evs stn])
    have pairs: "group_pairs E flt server gts h (ys @ [q]) = group_pairs E flt server gts h ys @
        (if passes flt server gts fs then [(grouped_text E gts fs, evs)] else [])"
      using evs fs(1) by (simp add: group_pairs_def q)
    have "ok (group_rate E flt grp server tm time (t, st) g) (\<lambda>h'. sep h' tm \<and>
      view h' tm = (if passes flt server gts fs then absorb (merge E) (grouped_text E gts fs, evs) (view g tm)
                    else view g tm) \<and>
      refs h' tm \<subseteq> (if passes flt server gts fs then insert st (refs g tm) else refs g tm) \<and>
      keeps (if passes flt server gts fs then insert tm (refs g tm) else {}) g h')"
      by (rule group_rate_refines[OF sg gg fs(1-4) stg _ _ fs(5)]) (use stn rg in auto)
    then show "ok (group_rate E flt grp server tm time q g) (I (ys @ [q]))"
      unfolding q
    proof (rule ok_mono)
      fix h'
      assume h': "sep h' tm \<and>
        view h' tm = (if passes flt server gts fs then absorb (merge E) (grouped_text E gts fs, evs) (view g tm)
                      else view g tm) \<and>
        refs h' tm \<subseteq> (if passes flt server gts fs then insert st (refs g tm) else refs g tm) \<and>
        keeps (if passes flt server gts fs then insert tm (refs g tm) else {}) g h'"
      have "keeps (insert tm (snd ` set (ys @ [q]))) g h'"
        by (rule keeps_mono[OF conjunct2[OF conjunct2[OF conjunct2[OF h']]]]) (use rg in auto)
      moreover have "keeps (insert tm (snd ` set (ys @ [q]))) h g" by (rule keeps_mono[OF kg]) auto
      ultimately have "keeps (insert tm (snd ` set (ys @ [q]))) h h'" by (blast intro: keeps_trans)
      moreover have "refs h' tm \<subseteq> snd ` set (ys @ [q])" using h' rg q by (auto split: if_splits)
      moreover have "view h' tm = fold (absorb (merge E)) (group_pairs E flt server gts h (ys @ [q])) Map.empty"
        using h' vg pairs by simp
      ultimately show "I (ys @ [(t, st)]) h'" using h' unfolding I_def q by blast
    qed
  qed
  then show "ok (foldM (group_rate E flt grp server tm time) es h) (\<lambda>h'.
      view h' tm = fold (absorb (merge E)) (group_pairs E flt server gts h es) Map.empty \<and> sep h' tm \<and>
      refs h' tm \<subseteq> snd ` set es \<and> keeps (insert tm (snd ` set es)) h h')"
    by (simp add: I_def)
qed

section \<open>Properties\<close>

lemma group_total:
  assumes sep: "group_sep E h grp gts tm es" and exact: "fl E = (\<lambda>x. x)" and e: "e \<noteq> ''load''"
    and dist: "\<And>t st. (t, st) \<in> set es \<Longrightarrow> distinct (keys (fields_at h st))"
  shows "total (event_value E e) (fold (absorb (merge E)) (group_pairs E flt server gts h es) Map.empty) =
    (\<Sum>(t, st) \<leftarrow> filter (\<lambda>(t, st). passes flt server gts (the (entry_fields E t))) es.
      event_value E e (fields_at h st))"
proof -
  have E: "E\<lparr>fl := \<lambda>x. x\<rparr> = E" using exact by (cases E) simp
  have ev: "summed E e = event_value E e" using e by (simp add: summed_def fun_eq_iff)
  have wf: "\<forall>(t, x) \<in> set (group_pairs E flt server gts h es). distinct (keys x)"
    using dist by (auto simp: group_pairs_def)
  have "total (event_value E e) (fold (absorb (merge E)) (group_pairs E flt server gts h es) Map.empty) =
      (\<Sum>(t, x) \<leftarrow> group_pairs E flt server gts h es. event_value E e x) + total (event_value E e) Map.empty"
    using exact_sum.total_fold[of Map.empty "group_pairs E flt server gts h es" E e] wf
    unfolding E ev by simp
  also have "(\<Sum>(t, x) \<leftarrow> group_pairs E flt server gts h es. event_value E e x) =
      (\<Sum>(t, st) \<leftarrow> filter (\<lambda>(t, st). passes flt server gts (the (entry_fields E t))) es.
        event_value E e (fields_at h st))"
    by (simp add: group_pairs_def comp_def case_prod_unfold)
  finally show ?thesis by (simp add: total_def)
qed

text \<open>Two tuples of a server that differ in the user only, and an environment that knows their texts.\<close>

definition sample_env :: env where
  "sample_env = plain_env\<lparr>
    to_json := (\<lambda>t. case t of TObject [(k, TString s)] \<Rightarrow> ''{'' @ k @ '':'' @ s @ ''}'' | _ \<Rightarrow> ''{}''),
    of_json := (\<lambda>s. if s = ''u1'' then Some (TObject [(''server'', TString ''mds1''), (''uid'', TString ''1'')])
                    else if s = ''u2'' then Some (TObject [(''server'', TString ''mds1''), (''uid'', TString ''2'')])
                    else None)\<rparr>"

definition no_filters :: filters where
  "no_filters = \<lparr>filter_user = None, filter_server = None, filter_client = None, filter_job = None\<rparr>"

definition sample_group :: heap where
  "sample_group = [Obj [(''server'', JString '''')], Obj [(''open'', JDouble 2)], Obj [(''open'', JDouble 3)], Obj []]"

lemma sample_group_nodes:
  "node_of sample_group (JRef 0) = Some (Obj [(''server'', JString '''')])"
  "node_of sample_group (JRef 1) = Some (Obj [(''open'', JDouble 2)])"
  "node_of sample_group (JRef 2) = Some (Obj [(''open'', JDouble 3)])"
  "node_of sample_group (JRef 3) = Some (Obj [])"
  by (simp_all add: sample_group_def node_of_def)

lemma sample_entry_fields:
  "entry_fields sample_env ''u1'' = Some [(''server'', TString ''mds1''), (''uid'', TString ''1'')]"
  "entry_fields sample_env ''u2'' = Some [(''server'', TString ''mds1''), (''uid'', TString ''2'')]"
  by (simp_all add: entry_fields_def sample_env_def)

lemma sample_tags_ok: "tags_ok sample_env ''u1''" "tags_ok sample_env ''u2''"
  by (auto simp: tags_ok_def sample_entry_fields plain_tree_def)

lemma sample_group_sep:
  "group_sep sample_env sample_group (JRef 0) [''server''] (JRef 3) [(''u1'', JRef 1), (''u2'', JRef 2)]"
proof -
  have "\<exists>x. node_of sample_group (JRef 0) = Some (Obj (map (\<lambda>g. (g, x g)) [''server'']))"
    by (rule exI[of _ "\<lambda>_. JString ''''"]) (simp add: sample_group_nodes)
  moreover have "is_obj sample_group (JRef 1)" "is_obj sample_group (JRef 2)"
    using sample_group_nodes by (auto simp del: One_nat_def)
  ultimately show ?thesis
    using sample_tags_ok sample_group_nodes(4) by (simp add: group_sep_def del: One_nat_def)
qed



text \<open>C38. Regrouping writes to the rates it reads: the sum of a group is kept in the object of its first entry, which
  is still the one of server_tag_rate_map, so after two entries were summed the first one reports the
  sum as its own value, and regrouping the same rates once more counts the second one twice.\<close>

theorem regrouping_overwrites_rates:
  assumes "group_sep E h grp gts tm [(t1, st1), (t2, st2)]"
    and "entry_fields E t1 = Some fs1" "entry_fields E t2 = Some fs2"
    and "passes flt server gts fs1" "passes flt server gts fs2"
    and "grouped_text E gts fs1 = grouped_text E gts fs2"
  shows "ok (foldM (group_rate E flt grp server tm time) [(t1, st1), (t2, st2)] h) (\<lambda>h'.
    object_get_ex h' tm (grouped_text E gts fs1) = Some st1 \<and>
    fields_at h' st1 = merge E (fields_at h st2) (fields_at h st1))"
proof -
  obtain x where grp: "node_of h grp = Some (Obj (map (\<lambda>g. (g, x g)) gts))" and tm0: "node_of h tm = Some (Obj [])"
    and ne: "grp \<noteq> tm" "grp \<noteq> st1" "tm \<noteq> st1" "tm \<noteq> st2" "st1 \<noteq> st2"
    and ok12: "tags_ok E t1" "tags_ok E t2" "is_obj h st1" "is_obj h st2"
    using assms(1) unfolding group_sep_def by auto
  obtain e1 e2 where e: "node_of h st1 = Some (Obj e1)" "node_of h st2 = Some (Obj e2)"
    using ok12 by (auto simp: is_obj_def)
  let ?t = "grouped_text E gts fs1"
  have fs: "canon_fields fs1" "distinct (keys fs1)" "\<And>k u. (k, u) \<in> set fs1 \<Longrightarrow> plain_tree u" "t1 \<noteq> ''time''"
    "canon_fields fs2" "distinct (keys fs2)" "\<And>k u. (k, u) \<in> set fs2 \<Longrightarrow> plain_tree u" "t2 \<noteq> ''time''"
    using ok12 assms(2,3) by (auto simp: tags_ok_def)
  obtain h1 where h1: "keeps {} h h1" "group_rate E flt grp server tm time (t1, st1) h = add_stats E tm ?t st1 h1"
    using group_rate_step[OF grp assms(2) fs(1,2) _ fs(4), of flt server tm time st1] fs(3) assms(4) by auto
  have n1: "node_of h1 tm = Some (Obj [])" "node_of h1 st1 = Some (Obj e1)" "node_of h1 st2 = Some (Obj e2)"
    "node_of h1 grp = Some (Obj (map (\<lambda>g. (g, x g)) gts))"
    using keeps_node[OF h1(1)] tm0 e grp by auto
  have sep1: "sep h1 tm" using n1 by (auto simp: sep_def uniq_at_def refs_def is_obj_def)
  let ?h1 = "store tm (Obj [(?t, st1)]) h1"
  have s1: "add_stats E tm ?t st1 h1 = Some ?h1" using add_stats_eq[OF sep1 n1(1,2)] by simp
  have grp1: "node_of ?h1 grp = Some (Obj (map (\<lambda>g. (g, x g)) gts))" using n1(4) ne by simp
  obtain h2 where h2: "keeps {} ?h1 h2" "group_rate E flt grp server tm time (t2, st2) ?h1 = add_stats E tm ?t st2 h2"
    using group_rate_step[OF grp1 assms(3) fs(5,6) _ fs(8), of flt server tm time st2] fs(7) assms(5,6) by auto
  have n2: "node_of h2 tm = Some (Obj [(?t, st1)])" "node_of h2 st1 = Some (Obj e1)" "node_of h2 st2 = Some (Obj e2)"
    using keeps_node[OF h2(1)] n1 ne by auto
  have sep2: "sep h2 tm" using n2 ne by (auto simp: sep_def uniq_at_def refs_def is_obj_def split: if_splits)
  have s2: "add_stats E tm ?t st2 h2 = Some (store st1 (Obj (merge E e2 e1)) h2)"
    using add_stats_eq[OF sep2 n2(1,3), where E = E and tags = ?t] n2(2) by simp
  show ?thesis using h1(2) s1 h2(2) s2 n2 ne e by simp
qed

theorem regrouping_overwrites_rates_witness:
  "ok (foldM (group_rate sample_env no_filters (JRef 0) ''mds1'' (JRef 3) (JInt 5))
      [(''u1'', JRef 1), (''u2'', JRef 2)] sample_group)
    (\<lambda>h'. fields_at h' (JRef 1) = [(''open'', JDouble 5)])"
proof -
  have p: "passes no_filters ''mds1'' [''server''] fs" for fs by (simp add: passes_def no_filters_def)
  have t: "grouped_text sample_env [''server''] [(''server'', TString ''mds1''), (''uid'', TString ''1'')] =
      grouped_text sample_env [''server''] [(''server'', TString ''mds1''), (''uid'', TString ''2'')]"
    by (simp add: grouped_text_def grouped_def)
  have f: "fields_at sample_group (JRef 1) = [(''open'', JDouble 2)]" "fields_at sample_group (JRef 2) = [(''open'', JDouble 3)]"
    using sample_group_nodes by simp_all
  show ?thesis
    by (rule ok_mono[OF regrouping_overwrites_rates[OF sample_group_sep sample_entry_fields p p t]])
      (simp add: f merge_def sample_env_def plain_env_def get_double_def del: One_nat_def)
qed

end
