(* ===== verification/Shm.thy ===== *)
theory Shm
  imports GroupStats "HOL-Library.Countable"
begin

text \<open>
  \<open>server/shmmap.c\<close>: the server publishes the text of \<open>server_tag_rate_map\<close> in a shared memory
  segment, and the viewers parse it from there; a semaphore guards the segment.

  The processes and the semaphore are a step relation: a process enters the critical section when the
  semaphore is positive, the server leaves it after its copy, a viewer after parsing.  The
  locale \<open>semaphore\<close> is the contract of a semaphore all of whose users post at most
  once per wait; it is interpreted on the step relation of the code.  A viewer whose parse fails
  leaves without posting, and the properties say when that can happen and what it leads to.
\<close>

section \<open>The code\<close>

definition mm_size :: nat where
  "mm_size = 100 * 1024 * 1024"

text \<open>\<open>memcpy(mm_ptr, buffer, strlen(buffer))\<close> writes the text without its terminator and without
  looking at the size of the segment.\<close>

definition mm_write :: "string \<Rightarrow> string \<Rightarrow> string option" where
  "mm_write buffer mem =
    (if length buffer \<le> length mem then Some (buffer @ drop (length buffer) mem) else None)"

text \<open>The segment read as a C string.\<close>

definition nul :: char where
  "nul = CHR 0x00"

definition c_string :: "string \<Rightarrow> string" where
  "c_string mem = takeWhile (\<lambda>c. c \<noteq> nul) mem"

datatype proc = Server | Viewer nat

record shm =
  sem :: nat
  mm :: string
  inside :: "proc \<Rightarrow> bool"
  published :: "json option"
  received :: "nat \<Rightarrow> json option"

text \<open>The semaphore is created with 0, the segment is truncated and extended with zeros, and the
  semaphore is posted.\<close>

definition shmmap_server_init :: shm where
  "shmmap_server_init = \<lparr>sem = Suc 0, mm = replicate mm_size nul, inside = (\<lambda>_. False),
    published = None, received = (\<lambda>_. None)\<rparr>"

definition sem_wait :: "proc \<Rightarrow> shm \<Rightarrow> shm option" where
  "sem_wait p s = (if sem s = 0 then None else Some (s\<lparr>sem := sem s - 1, inside := (inside s)(p := True)\<rparr>))"

definition sem_post :: "proc \<Rightarrow> shm \<Rightarrow> shm" where
  "sem_post p s = s\<lparr>sem := Suc (sem s), inside := (inside s)(p := False)\<rparr>"

text \<open>What \<open>set_shm_map\<close> does before it enters the critical section: the tick of the server.\<close>

definition server_tick :: "env \<Rightarrow> stats \<Rightarrow> (json \<times> stats) option" where
  "server_tick E st = do {
     st1 \<leftarrow> tag_stats E st;
     st2 \<leftarrow> group_statsbytags E [''system'', ''fid'', ''server'', ''jid'', ''uid''] st1;
     Some (tree_of (length (hp st2)) (hp st2) (server_tag_rate_map st2), st2)
   }"

text \<open>The copy of \<open>set_shm_map\<close>, and the parse of \<open>get_shm_map\<close> with its \<open>goto out\<close>, inside of the
  critical section.\<close>

definition set_shm_map :: "env \<Rightarrow> json \<Rightarrow> shm \<Rightarrow> shm option" where
  "set_shm_map E rates s = do {
     m \<leftarrow> mm_write (to_json E rates) (mm s);
     Some (sem_post Server (s\<lparr>mm := m, published := Some rates\<rparr>))
   }"

definition get_shm_map :: "env \<Rightarrow> nat \<Rightarrow> shm \<Rightarrow> shm" where
  "get_shm_map E v s =
    (case of_json E (c_string (mm s)) of
       None \<Rightarrow> s\<lparr>inside := (inside s)(Viewer v := False)\<rparr>
     | Some t \<Rightarrow> sem_post (Viewer v) (s\<lparr>received := (received s)(v := Some t)\<rparr>))"

text \<open>\<open>get_shm_map\<close> on the maps of the reading process: the text of the shared memory becomes the rate map.\<close>

definition load_shm :: "env \<Rightarrow> string \<Rightarrow> stats \<Rightarrow> stats" where
  "load_shm E mem st =
    (case tokener_parse E (c_string mem) (hp st) of
       None \<Rightarrow> st
     | Some (server_map, h) \<Rightarrow> st\<lparr>hp := h, server_tag_rate_map := server_map\<rparr>)"

text \<open>What the server publishes is an object without duplicate keys.\<close>

definition doc :: "json \<Rightarrow> bool" where
  "doc t \<longleftrightarrow> canon t \<and> (\<exists>fs. t = TObject fs)"

text \<open>The steps of the processes.  A server whose text does not fit the segment crashes, so it has no
  step.\<close>

inductive shm_step :: "env \<Rightarrow> shm \<Rightarrow> shm \<Rightarrow> bool" for E where
  enter: "\<not> inside s p \<Longrightarrow> sem_wait p s = Some s' \<Longrightarrow> shm_step E s s'"
| publish: "inside s Server \<Longrightarrow> doc rates \<Longrightarrow> set_shm_map E rates s = Some s' \<Longrightarrow> shm_step E s s'"
| load: "inside s (Viewer v) \<Longrightarrow> shm_step E s (get_shm_map E v s)"

definition shm_reach :: "env \<Rightarrow> shm \<Rightarrow> bool" where
  "shm_reach E s \<longleftrightarrow> (shm_step E)\<^sup>*\<^sup>* shmmap_server_init s"

inductive_cases shm_stepE: "shm_step E s s'"

section \<open>The contract of a semaphore\<close>

locale semaphore =
  fixes start :: 's and step :: "'s \<Rightarrow> 's \<Rightarrow> bool"
    and free :: "'s \<Rightarrow> nat" and crit :: "'s \<Rightarrow> 'p \<Rightarrow> bool"
  assumes start_free: "free start = 1" and start_out: "\<not> crit start p"
    and step_change: "step s s' \<Longrightarrow> \<exists>p.
      (\<not> crit s p \<and> free s = Suc (free s') \<and> crit s' = (crit s)(p := True)) \<or>
      (crit s p \<and> free s' \<le> Suc (free s) \<and> free s \<le> free s' \<and> crit s' = (crit s)(p := False))"
begin

definition valid :: "'s \<Rightarrow> bool" where
  "valid s \<longleftrightarrow> free s \<le> 1 \<and> (free s = 1 \<longrightarrow> (\<forall>p. \<not> crit s p)) \<and>
    (\<forall>p q. crit s p \<longrightarrow> crit s q \<longrightarrow> p = q)"

lemma valid_start: "valid start"
  by (simp add: valid_def start_free start_out)

lemma valid_step: "valid s \<Longrightarrow> step s s' \<Longrightarrow> valid s'"
  using step_change[of s s'] unfolding valid_def by (auto split: if_splits)

lemma valid_reach: "step\<^sup>*\<^sup>* start s \<Longrightarrow> valid s"
  by (induction rule: rtranclp_induct) (auto intro: valid_start valid_step)

lemma exclusion: "step\<^sup>*\<^sup>* start s \<Longrightarrow> crit s p \<Longrightarrow> crit s q \<Longrightarrow> p = q"
  using valid_reach[of s] by (simp add: valid_def)

lemma lost_token: "free s = 0 \<Longrightarrow> (\<And>p. \<not> crit s p) \<Longrightarrow> \<not> step s s'"
  using step_change[of s s'] by auto

end

lemma sem_waitD:
  "sem_wait p s = Some s' \<Longrightarrow>
    sem s = Suc (sem s') \<and> inside s' = (inside s)(p := True) \<and> mm s' = mm s \<and> published s' = published s"
  by (auto simp: sem_wait_def split: if_splits)

lemma set_shm_mapD:
  "set_shm_map E rates s = Some s' \<Longrightarrow>
    sem s' = Suc (sem s) \<and> inside s' = (inside s)(Server := False) \<and> published s' = Some rates \<and>
    (\<exists>rest. mm s' = to_json E rates @ rest)"
  by (auto simp: set_shm_map_def mm_write_def sem_post_def bind_eq_Some_conv split: if_splits)

lemma get_shm_mapD:
  "sem s \<le> sem (get_shm_map E v s) \<and> sem (get_shm_map E v s) \<le> Suc (sem s) \<and>
    inside (get_shm_map E v s) = (inside s)(Viewer v := False) \<and>
    mm (get_shm_map E v s) = mm s \<and> published (get_shm_map E v s) = published s"
  by (auto simp: get_shm_map_def sem_post_def split: option.split)

interpretation map_sem: semaphore shmmap_server_init "shm_step E" sem inside
  for E
proof
  show "sem shmmap_server_init = 1" "\<not> inside shmmap_server_init p" for p
    by (simp_all add: shmmap_server_init_def)
  fix s s'
  assume "shm_step E s s'"
  then show "\<exists>p. (\<not> inside s p \<and> sem s = Suc (sem s') \<and> inside s' = (inside s)(p := True)) \<or>
      (inside s p \<and> sem s' \<le> Suc (sem s) \<and> sem s \<le> sem s' \<and> inside s' = (inside s)(p := False))"
  proof cases
    case (enter p)
    then show ?thesis using sem_waitD[OF enter(2)] by blast
  next
    case (publish rates)
    then show ?thesis using set_shm_mapD[OF publish(3)] by (intro exI[of _ Server]) simp
  next
    case (load v)
    then show ?thesis using get_shm_mapD[of s E v] by (intro exI[of _ "Viewer v"]) simp
  qed
qed

section \<open>What the viewers read\<close>

text \<open>The text functions: the tokener stops at the end of the document it reads, so the rest of a longer
  older text does no harm; the text has no NUL; and the empty text is no document.\<close>

definition text_ok :: "env \<Rightarrow> bool" where
  "text_ok E \<longleftrightarrow> (\<forall>t rest. doc t \<longrightarrow> of_json E (to_json E t @ rest) = Some t) \<and>
    (\<forall>t. nul \<notin> set (to_json E t)) \<and> of_json E '''' = None"

lemma c_string_append: "nul \<notin> set s \<Longrightarrow> c_string (s @ rest) = s @ c_string rest"
  unfolding c_string_def by (rule takeWhile_append2) metis

definition mem_ok :: "env \<Rightarrow> shm \<Rightarrow> bool" where
  "mem_ok E s \<longleftrightarrow> (\<forall>t. published s = Some t \<longrightarrow> doc t \<and> (\<exists>rest. mm s = to_json E t @ rest))"

lemma mem_ok_step: "mem_ok E s \<Longrightarrow> shm_step E s s' \<Longrightarrow> mem_ok E s'"
  by (elim shm_stepE) (use sem_waitD set_shm_mapD get_shm_mapD in \<open>fastforce simp: mem_ok_def\<close>)+

lemma mem_ok_reach: "shm_reach E s \<Longrightarrow> mem_ok E s"
  unfolding shm_reach_def
proof (induction rule: rtranclp_induct)
  case base
  then show ?case by (simp add: mem_ok_def shmmap_server_init_def)
qed (rule mem_ok_step)

lemma published_step: "shm_step E s s' \<Longrightarrow> published s \<noteq> None \<Longrightarrow> published s' \<noteq> None"
  by (elim shm_stepE) (use sem_waitD set_shm_mapD get_shm_mapD in \<open>metis option.distinct(1)\<close>)+

lemma reads_published:
  assumes "text_ok E" "shm_reach E s" "published s = Some t"
  shows "of_json E (c_string (mm s)) = Some t"
proof -
  obtain rest where "doc t" "mm s = to_json E t @ rest"
    using mem_ok_reach[OF assms(2)] assms(3) by (auto simp: mem_ok_def)
  then show ?thesis using assms(1) by (simp add: text_ok_def c_string_append)
qed

lemma c_string_zeros: "c_string (replicate n nul) = ''''"
  by (induction n) (simp_all add: c_string_def)

text \<open>Text functions with these laws exist: the number of a document in unary, the empty object being 0.\<close>

instance json :: countable
  by countable_datatype

definition json_num :: "json \<Rightarrow> nat" where
  "json_num t = (if t = TObject [] then 0 else Suc (to_nat t))"

definition num_json :: "nat \<Rightarrow> json" where
  "num_json n = (if n = 0 then TObject [] else from_nat (n - 1))"

definition unary_env :: env where
  "unary_env = plain_env\<lparr>
    to_json := (\<lambda>t. replicate (json_num t) CHR ''a'' @ ''b''),
    of_json := (\<lambda>s. let n = length (takeWhile (\<lambda>c. c = CHR ''a'') s)
                    in if n < length s \<and> s ! n = CHR ''b'' then Some (num_json n) else None)\<rparr>"

lemma num_json_num: "num_json (json_num t) = t"
  by (simp add: num_json_def json_num_def)

lemma unary_env_text: "text_ok unary_env"
proof -
  have "of_json unary_env (to_json unary_env t @ rest) = Some t" for t rest
  proof -
    have "takeWhile (\<lambda>c. c = CHR ''a'') (replicate n CHR ''a'' @ ''b'' @ rest) = replicate n CHR ''a''" for n
      by (induction n) simp_all
    then show ?thesis by (simp add: unary_env_def nth_append Let_def num_json_num)
  qed
  moreover have "nul \<notin> set (to_json unary_env t)" for t by (auto simp: unary_env_def nul_def)
  moreover have "of_json unary_env '''' = None" by (simp add: unary_env_def)
  ultimately show ?thesis by (simp add: text_ok_def)
qed

section \<open>Properties\<close>

text \<open>The run in which the server publishes a document before a viewer attaches.\<close>

definition publish_run :: "json \<Rightarrow> shm" where
  "publish_run t = the (do {
     s \<leftarrow> sem_wait Server shmmap_server_init;
     s' \<leftarrow> set_shm_map unary_env t s;
     sem_wait (Viewer 0) s'
   })"

lemma publish_run:
  assumes "doc t" "json_num t < mm_size"
  shows "shm_reach unary_env (publish_run t)" "published (publish_run t) = Some t"
    "inside (publish_run t) (Viewer 0)"
proof -
  obtain s where s: "sem_wait Server shmmap_server_init = Some s" by (simp add: sem_wait_def shmmap_server_init_def)
  have m: "mm s = replicate mm_size nul" "inside s Server" "inside s = (\<lambda>_. False)(Server := True)"
    using sem_waitD[OF s] by (simp_all add: shmmap_server_init_def)
  then obtain s' where s': "set_shm_map unary_env t s = Some s'"
    using assms(2) by (simp add: set_shm_map_def mm_write_def unary_env_def)
  note d = set_shm_mapD[OF s']
  then obtain s'' where s'': "sem_wait (Viewer 0) s' = Some s''" by (simp add: sem_wait_def)
  have run: "publish_run t = s''" by (simp add: publish_run_def s s' s'')
  have 1: "shm_step unary_env shmmap_server_init s"
    by (rule shm_step.enter[OF _ s]) (simp add: shmmap_server_init_def)
  have 2: "shm_step unary_env s s'" by (rule shm_step.publish[OF m(2) assms(1) s'])
  have 3: "shm_step unary_env s' s''" by (rule shm_step.enter[OF _ s'']) (use d m in simp)
  show "shm_reach unary_env (publish_run t)" unfolding shm_reach_def run using 1 2 3 by auto
  show "published (publish_run t) = Some t" "inside (publish_run t) (Viewer 0)"
    unfolding run using sem_waitD[OF s''] d by simp_all
qed

text \<open>C10. Mutual exclusion: in no reachable state are two processes in the critical section of the shared map,
  whatever the viewers do and even if parses fail.\<close>

theorem shm_mutual_exclusion:
  assumes "shm_reach E s" "inside s p" "inside s q"
  shows "p = q"
  using map_sem.exclusion[OF assms(1)[unfolded shm_reach_def] assms(2,3)] .

theorem shm_mutual_exclusion_witness:
  "\<exists>E s. shm_reach E s \<and> inside s (Viewer 0) \<and> (\<forall>q. inside s q \<longrightarrow> Viewer 0 = q)"
proof -
  obtain s where s: "sem_wait (Viewer 0) shmmap_server_init = Some s" by (simp add: sem_wait_def shmmap_server_init_def)
  have "shm_step plain_env shmmap_server_init s"
    by (rule shm_step.enter[OF _ s]) (simp add: shmmap_server_init_def)
  then have r: "shm_reach plain_env s" by (simp add: shm_reach_def)
  moreover have i: "inside s (Viewer 0)" using sem_waitD[OF s] by simp
  moreover have "\<forall>q. inside s q \<longrightarrow> Viewer 0 = q" using shm_mutual_exclusion[OF r i] by blast
  ultimately show ?thesis by blast
qed

text \<open>C17. The round trip through shared memory: once the server has published, a viewer in the critical section
  obtains exactly the document published last, although the copy neither clears the segment nor terminates the
  text, and it gives the semaphore back.\<close>

theorem shm_round_trip:
  assumes "text_ok E" "shm_reach E s" "published s = Some t" "inside s (Viewer v)"
  shows "received (get_shm_map E v s) v = Some t \<and> sem (get_shm_map E v s) = Suc (sem s) \<and>
    \<not> inside (get_shm_map E v s) (Viewer v)"
  using reads_published[OF assms(1-3)] by (simp add: get_shm_map_def sem_post_def)

theorem shm_round_trip_witness:
  "received (get_shm_map unary_env 0 (publish_run (TObject []))) 0 = Some (TObject [])"
proof -
  have d: "doc (TObject [])" "json_num (TObject []) < mm_size" by (simp_all add: doc_def json_num_def mm_size_def)
  from shm_round_trip[OF unary_env_text publish_run(1-3)[OF d]] show ?thesis by blast
qed

text \<open>C37. The lost semaphore: a viewer that attaches after the server has created the segment and before it has
  published for the first time reads an empty text, leaves without posting, and from then on neither
  the server nor any viewer can ever enter the critical section again.\<close>

theorem shm_deadlock_before_first_map:
  assumes "of_json E '''' = None" "sem_wait (Viewer v) shmmap_server_init = Some s"
  shows "shm_reach E (get_shm_map E v s) \<and> sem (get_shm_map E v s) = 0 \<and>
    (\<forall>p. sem_wait p (get_shm_map E v s) = None) \<and> (\<forall>s'. \<not> shm_step E (get_shm_map E v s) s')"
proof -
  let ?d = "get_shm_map E v s"
  note w = sem_waitD[OF assms(2)]
  have m: "c_string (mm s) = ''''" using w by (simp add: shmmap_server_init_def c_string_zeros)
  then have d: "?d = s\<lparr>inside := (inside s)(Viewer v := False)\<rparr>" using assms(1) by (simp add: get_shm_map_def)
  have z: "sem ?d = 0" using w by (simp add: d shmmap_server_init_def)
  have out: "\<not> inside ?d p" for p using w by (simp add: d shmmap_server_init_def)
  have 1: "shm_step E shmmap_server_init s"
    by (rule shm_step.enter[OF _ assms(2)]) (simp add: shmmap_server_init_def)
  have 2: "shm_step E s ?d" by (rule shm_step.load) (use w in simp)
  have "shm_reach E ?d" unfolding shm_reach_def using 1 2 by auto
  then show ?thesis using z map_sem.lost_token[OF z out] by (simp add: sem_wait_def)
qed

theorem shm_deadlock_before_first_map_witness:
  "\<exists>s. shm_reach plain_env s \<and> (\<forall>s'. \<not> shm_step plain_env s s')"
proof -
  obtain s where s: "sem_wait (Viewer 0) shmmap_server_init = Some s" by (simp add: sem_wait_def shmmap_server_init_def)
  have "of_json plain_env '''' = None" by (simp add: plain_env_def)
  from shm_deadlock_before_first_map[OF this s] show ?thesis by blast
qed

end
