(* ===== verification/Socket.thy ===== *)
theory Socket
  imports HostMap Shm "HOL-Library.While_Combinator"
begin

text \<open>
  The transport of reports: \<open>client/socket_client.c\<close> formats a report into a zeroed buffer and sends the
  whole buffer, \<open>server/socket_server.c\<close> receives into a zeroed buffer until the peer closes the
  connection and hands the text to \<open>update_host_map\<close>.

  The network is a byte stream that may be cut into segments anywhere.  The properties: the text
  the server processes does not depend on the segmentation, it is the text the client formatted,
  and a server that only receives reports without null host names never crashes.
\<close>

section \<open>The code\<close>

definition socket_buffersize :: nat where
  "socket_buffersize = 1048576 * 100"

text \<open>What the receiving end sees of a connection: segments of bytes, or an error.\<close>

datatype segment = Data string | Fail

fun recv_loop :: "nat \<Rightarrow> string \<Rightarrow> segment list \<Rightarrow> string \<times> bool" where
  "recv_loop cap buf [] = (buf, True)"
| "recv_loop cap buf (x # xs) =
    (if cap \<le> length buf then (buf, True)
     else (case x of
         Fail \<Rightarrow> (buf, False)
       | Data d \<Rightarrow> if d = [] then (buf, True)
           else recv_loop cap (buf @ take (cap - length buf) d) xs))"

definition process_rpc :: "env \<Rightarrow> string \<Rightarrow> stats \<Rightarrow> (int \<times> stats) option" where
  "process_rpc E rpc s =
    (if rpc = [] \<or> (hd rpc \<noteq> CHR ''{'' \<and> hd rpc \<noteq> CHR ''['') then Some (-1, s)
     else do {
       (rc, s') \<leftarrow> update_host_map E rpc s;
       Some (if rc < 0 then -1 else 1, s')
     })"

text \<open>\<open>None\<close> is a failed \<open>accept\<close>, after which \<open>recv\<close> fails.  A full buffer without a NUL is read past
  its end.\<close>

definition sock_rpc :: "env \<Rightarrow> segment list option \<Rightarrow> stats \<Rightarrow> stats option" where
  "sock_rpc E conn s =
    (let (buf, good) = recv_loop socket_buffersize [] (case conn of None \<Rightarrow> [Fail] | Some segs \<Rightarrow> segs);
         request = buf @ replicate (socket_buffersize - length buf) nul
     in if \<not> good then Some s
        else if nul \<notin> set request then None
        else map_option snd (process_rpc E (c_string request) s))"

text \<open>The request buffer of the client: the text of the report is the format of \<open>snprintf\<close>.\<close>

definition client_request :: "env \<Rightarrow> nat \<Rightarrow> string \<Rightarrow> string" where
  "client_request E cap text' =
    (let t = snprintf_fmt E cap text' in t @ replicate (cap - length t) nul)"

text \<open>The loop of \<open>send\<close>; the kernel takes as many bytes as it likes, and none on an error.\<close>

fun send_loop :: "nat list \<Rightarrow> string \<Rightarrow> string list" where
  "send_loop [] rest = []"
| "send_loop (k # ks) rest = (if take k rest = [] then [] else take k rest # send_loop ks (drop k rest))"

text \<open>Both loops as they are written: \<open>send\<close> and \<open>recv\<close> are offered the rest of the buffer, the loop runs while
  the call returns a positive number, and \<open>p\<close> is the position in the buffer; \<open>i\<close> counts the calls.\<close>

definition io_loop :: "(nat \<Rightarrow> nat \<Rightarrow> int) \<Rightarrow> nat \<Rightarrow> (nat \<times> nat) option" where
  "io_loop call size' = while_option (\<lambda>(i, p). 0 < call i (size' - p)) (\<lambda>(i, p). (Suc i, p + nat (call i (size' - p)))) (0, 0)"

text \<open>The server: connections as they come.\<close>

definition serve :: "env \<Rightarrow> segment list option list \<Rightarrow> stats \<Rightarrow> stats option" where
  "serve E = foldM (sock_rpc E)"

section \<open>Receiving\<close>

lemma recv_data:
  assumes "\<forall>d \<in> set ds. d \<noteq> []" "length buf \<le> cap"
  shows "recv_loop cap buf (map Data ds) = (take cap (buf @ concat ds), True)"
  using assms
proof (induction ds arbitrary: buf)
  case Nil
  then show ?case by simp
next
  case (Cons d ds)
  show ?case
  proof (cases "cap \<le> length buf")
    case True
    with Cons.prems show ?thesis by simp
  next
    case False
    let ?buf = "buf @ take (cap - length buf) d"
    have "recv_loop cap buf (map Data (d # ds)) = recv_loop cap ?buf (map Data ds)"
      using False Cons.prems by simp
    also have "\<dots> = (take cap (?buf @ concat ds), True)"
      by (rule Cons.IH) (use Cons.prems False in auto)
    also have "take cap (?buf @ concat ds) = take cap (buf @ concat (d # ds))"
      using False by (cases "length d \<le> cap - length buf") (auto simp: min_def)
    finally show ?thesis .
  qed
qed

lemma send_loop_prefix: "\<exists>rest. whole = concat (send_loop ks whole) @ rest"
proof (induction ks arbitrary: whole)
  case (Cons k ks)
  obtain rest where "drop k whole = concat (send_loop ks (drop k whole)) @ rest" using Cons.IH by blast
  then have "whole = take k whole @ concat (send_loop ks (drop k whole)) @ rest"
    by (metis append_take_drop_id)
  then show ?case by (auto intro: exI[of _ rest])
qed simp

lemma c_string_padded: "nul \<notin> set t \<Longrightarrow> c_string (t @ replicate n nul) = t"
  by (simp add: c_string_append c_string_zeros)

lemma take_padded:
  assumes "length t < cap" "length t \<le> n"
  shows "\<exists>k. take cap (take n (t @ replicate (cap - length t) nul)) @
      replicate (cap - length (take cap (take n (t @ replicate (cap - length t) nul)))) nul = t @ replicate (Suc k) nul"
proof -
  let ?m = "min (n - length t) (cap - length t)"
  have 1: "take n (t @ replicate (cap - length t) nul) = t @ replicate ?m nul"
    using assms by (simp add: take_replicate)
  have 2: "take cap (t @ replicate ?m nul) = t @ replicate ?m nul" using assms by simp
  have 3: "replicate ?m nul @ replicate (cap - length (t @ replicate ?m nul)) nul = replicate (cap - length t) nul"
    unfolding replicate_add[symmetric] using assms by (simp add: min_def)
  have "cap - length t = Suc (cap - length t - 1)" using assms by simp
  then show ?thesis unfolding 1 2 using 3 by (metis append.assoc)
qed

text \<open>What a connection that delivers at least the text of the client's buffer amounts to.\<close>

lemma sock_rpc_request:
  assumes "\<forall>d \<in> set ds. d \<noteq> []" and "concat ds = take n (client_request E socket_buffersize text')"
    and "length text' \<le> n" "length text' < socket_buffersize"
    and "nul \<notin> set text'" "CHR ''%'' \<notin> set text'"
  shows "sock_rpc E (Some (map Data ds)) s = map_option snd (process_rpc E text' s)"
proof -
  let ?cap = socket_buffersize
  let ?buf = "take ?cap (concat ds)"
  have r: "recv_loop ?cap [] (map Data ds) = (?buf, True)" using recv_data[OF assms(1), of "[]" ?cap] by simp
  have fmt: "client_request E ?cap text' = text' @ replicate (?cap - length text') nul"
    using assms(4,6) by (simp add: client_request_def)
  obtain k where k: "?buf @ replicate (?cap - length ?buf) nul = text' @ replicate (Suc k) nul"
    using take_padded[OF assms(4,3)] unfolding assms(2) fmt by blast
  have nul_in: "nul \<in> set (text' @ replicate (Suc k) nul)" by simp
  show ?thesis
    unfolding sock_rpc_def option.case r Let_def prod.case k c_string_padded[OF assms(5)]
    by (simp only: nul_in simp_thms if_True if_False)
qed

lemma process_rpc_safe:
  assumes "hosts_ok s" "\<And>t. of_json E rpc = Some t \<Longrightarrow> canon t \<and> rpc_safe t"
  shows "ok (process_rpc E rpc s) (\<lambda>(rc, s'). hosts_ok s')"
proof (cases "of_json E rpc")
  case None
  with assms(1) show ?thesis by (simp add: process_rpc_def update_host_map_def tokener_parse_def)
next
  case (Some t)
  with assms obtain s' where "update_host_map E rpc s = Some (1, s')" "hosts_ok s'"
    using update_host_map_safe[OF assms(1) Some] by blast
  with assms(1) show ?thesis by (simp add: process_rpc_def)
qed

lemma sends_processed:
  assumes "ds = send_loop ks (client_request E socket_buffersize text')"
    and "length text' \<le> length (concat ds)" "length text' < socket_buffersize"
    and "nul \<notin> set text'" "CHR ''%'' \<notin> set text'" "text' \<noteq> []" "hd text' \<in> {CHR ''{'', CHR ''[''}"
  shows "sock_rpc E (Some (map Data ds)) s = map_option snd (update_host_map E text' s)"
proof -
  have ne: "\<forall>d \<in> set (send_loop ks w). d \<noteq> []" for w
    by (induction ks arbitrary: w) auto
  have tk: "concat ds = take (length (concat ds)) (client_request E socket_buffersize text')"
    using send_loop_prefix[of "client_request E socket_buffersize text'" ks] unfolding assms(1) by (metis append_eq_conv_conj)
  have "sock_rpc E (Some (map Data ds)) s = map_option snd (process_rpc E text' s)"
    by (rule sock_rpc_request[OF _ tk assms(2-5)]) (use ne assms(1) in simp)
  also have "\<dots> = map_option snd (update_host_map E text' s)"
    using assms(6,7) by (cases "update_host_map E text' s") (auto simp: process_rpc_def)
  finally show ?thesis .
qed

text \<open>However a connection ends, no more is received than was sent.\<close>

fun payload :: "segment list \<Rightarrow> nat" where
  "payload [] = 0"
| "payload (Data d # xs) = length d + payload xs"
| "payload (Fail # xs) = payload xs"

lemma recv_loop_length: "length (fst (recv_loop cap buf xs)) \<le> length buf + payload xs"
proof (induction cap buf xs rule: recv_loop.induct)
  case (2 cap buf x xs)
  show ?case
  proof (cases x)
    case (Data d)
    with 2 show ?thesis by fastforce
  next
    case Fail
    then show ?thesis by simp
  qed
qed simp

lemma sock_rpc_safe:
  assumes "hosts_ok s" "\<forall>rpc t. of_json E rpc = Some t \<longrightarrow> canon t \<and> rpc_safe t"
    and "payload (case conn of None \<Rightarrow> [Fail] | Some segs \<Rightarrow> segs) < socket_buffersize"
  shows "ok (sock_rpc E conn s) hosts_ok"
proof -
  obtain buf good where r: "recv_loop socket_buffersize [] (case conn of None \<Rightarrow> [Fail] | Some segs \<Rightarrow> segs) = (buf, good)"
    by fastforce
  let ?request = "buf @ replicate (socket_buffersize - length buf) nul"
  have "length buf < socket_buffersize" using recv_loop_length[of socket_buffersize "[]"] assms(3) r
    by (metis add_0 fst_conv le_less_trans list.size(3))
  then have "nul \<in> set ?request" by simp
  moreover have "ok (map_option snd (process_rpc E (c_string ?request) s)) hosts_ok"
    using process_rpc_safe[OF assms(1), of E "c_string ?request"] assms(2) by (auto elim!: okE)
  ultimately show ?thesis using assms(1) unfolding sock_rpc_def r Let_def prod.case by (cases good) simp_all
qed

section \<open>The loops end\<close>

lemma send_loop_all:
  assumes "\<forall>k \<in> set ks. 0 < k" "sum_list ks \<le> length w"
  shows "concat (send_loop ks w) = take (sum_list ks) w" "length (send_loop ks w) = length ks"
  using assms
proof (induction ks arbitrary: w)
  case (Cons k ks)
  {
    case 1
    then show ?case using Cons.IH(1)[of "drop k w"] by (auto simp: take_add)
  next
    case 2
    then show ?case using Cons.IH(2)[of "drop k w"] by auto
  }
qed simp_all

lemma sum_list_length: "\<forall>k \<in> set ks. 0 < k \<Longrightarrow> length ks \<le> sum_list (ks :: nat list)"
  by (induction ks) auto

text \<open>The state after some calls: the bytes each of them has moved.\<close>

definition moved :: "nat \<Rightarrow> nat \<times> nat \<Rightarrow> bool" where
  "moved size' = (\<lambda>(i, p). p \<le> size' \<and> (\<exists>ks. length ks = i \<and> (\<forall>k \<in> set ks. 0 < k) \<and> sum_list ks = p))"

lemma moved_step:
  assumes "\<forall>i n. call i n \<le> int n" "moved size' (i, p)" "0 < call i (size' - p)"
  shows "moved size' (Suc i, p + nat (call i (size' - p)))" "size' - (p + nat (call i (size' - p))) < size' - p"
proof -
  obtain ks where ks: "length ks = i" "\<forall>k \<in> set ks. 0 < k" "sum_list ks = p" and p: "p \<le> size'"
    using assms(2) by (auto simp: moved_def)
  have c: "call i (size' - p) \<le> int (size' - p)" using assms(1) by blast
  have "length (ks @ [nat (call i (size' - p))]) = Suc i" "\<forall>k \<in> set (ks @ [nat (call i (size' - p))]). 0 < k"
    "sum_list (ks @ [nat (call i (size' - p))]) = p + nat (call i (size' - p))" using ks assms(3) by auto
  moreover have "p + nat (call i (size' - p)) \<le> size'" using c p by linarith
  ultimately show "moved size' (Suc i, p + nat (call i (size' - p)))" unfolding moved_def by blast
  show "size' - (p + nat (call i (size' - p))) < size' - p" using c p assms(3) by linarith
qed

lemma io_loop_ends:
  assumes "\<forall>i n. call i n \<le> int n"
  shows "\<exists>i p. io_loop call size' = Some (i, p) \<and> moved size' (i, p) \<and> call i (size' - p) \<le> 0"
proof -
  let ?b = "\<lambda>(i, p). 0 < call i (size' - p)" and ?c = "\<lambda>(i, p). (Suc i, p + nat (call i (size' - p)))"
  have start: "moved size' (0, 0)" by (simp add: moved_def)
  have "\<exists>t. while_option ?b ?c (0, 0) = Some t"
    by (rule measure_while_option_Some[where P = "moved size'" and f = "\<lambda>(i, p). size' - p", OF _ start])
      (use moved_step[OF assms] in \<open>auto split: prod.splits\<close>)
  then obtain i p where r: "while_option ?b ?c (0, 0) = Some (i, p)" by force
  have "moved size' (i, p)"
    by (rule while_option_rule[where P = "moved size'", OF _ r start]) (use moved_step(1)[OF assms] in \<open>auto split: prod.splits\<close>)
  moreover have "call i (size' - p) \<le> 0" using while_option_stop[OF r] by simp
  ultimately show ?thesis using r unfolding io_loop_def by blast
qed

section \<open>Properties\<close>

text \<open>C20. The transfer ends: however the kernel splits it, the loop of sends or receives over a buffer returns, after at
  most as many successful calls as the buffer has bytes, at a position within the buffer, and only when a call fails
  or moves nothing; what has been sent is the part of the buffer before that position.\<close>

theorem transfer_ends:
  assumes "\<forall>i n. call i n \<le> int n"
  shows "\<exists>i p ks. io_loop call (length w) = Some (i, p) \<and> p \<le> length w \<and> i \<le> length w \<and> call i (length w - p) \<le> 0 \<and>
    length (send_loop ks w) = i \<and> concat (send_loop ks w) = take p w"
proof -
  obtain i p where r: "io_loop call (length w) = Some (i, p)" "moved (length w) (i, p)" "call i (length w - p) \<le> 0"
    using io_loop_ends[OF assms] by blast
  then obtain ks where ks: "length ks = i" "\<forall>k \<in> set ks. 0 < k" "sum_list ks = p" and p: "p \<le> length w"
    by (auto simp: moved_def)
  have "sum_list ks \<le> length w" using ks(3) p by simp
  from send_loop_all[OF ks(2) this] sum_list_length[OF ks(2)] r p ks show ?thesis by auto
qed

theorem transfer_ends_witness:
  "\<exists>i p ks. io_loop (\<lambda>i n. int (min 3 n)) (length ''report'') = Some (i, p) \<and> p = 6 \<and>
    concat (send_loop ks ''report'') = ''report''"
proof -
  obtain i p ks where "io_loop (\<lambda>i n. int (min 3 n)) (length ''report'') = Some (i, p)" "p \<le> length ''report''"
    "int (min 3 (length ''report'' - p)) \<le> 0" "concat (send_loop ks ''report'') = take p ''report''"
    using transfer_ends[of "\<lambda>i n. int (min 3 n)" "''report''"] by auto
  moreover from this have "p = 6" by simp
  ultimately show ?thesis by auto
qed


text \<open>C29. The segmentation of a connection does not matter: two connections that deliver the same bytes in
  non-empty segments of any sizes have the same effect on the server.\<close>

theorem sock_rpc_segmentation:
  assumes "\<forall>d \<in> set ds. d \<noteq> []" "\<forall>d \<in> set ds'. d \<noteq> []" "concat ds = concat ds'"
  shows "sock_rpc E (Some (map Data ds)) s = sock_rpc E (Some (map Data ds')) s"
  using recv_data[OF assms(1), of "[]" socket_buffersize] recv_data[OF assms(2), of "[]" socket_buffersize] assms(3)
  by (simp add: sock_rpc_def)

theorem sock_rpc_segmentation_witness:
  "sock_rpc plain_env (Some (map Data [''{'', ''}''])) (map_init []) =
    sock_rpc plain_env (Some (map Data [''{}''])) (map_init [])"
  by (rule sock_rpc_segmentation) auto

text \<open>C28. The round trip of a report: what the client sends of its buffer, however the kernel splits the sends
  and even if the connection ends within the padding, is processed by the server as the very text of the report
  (of at most 100 MB, without NUL and without percent sign).\<close>

theorem report_round_trip:
  assumes "ds = send_loop ks (client_request E socket_buffersize text')"
    and "length text' \<le> length (concat ds)" "length text' < socket_buffersize"
    and "nul \<notin> set text'" "CHR ''%'' \<notin> set text'" "text' \<noteq> []" "hd text' \<in> {CHR ''{'', CHR ''[''}"
  shows "sock_rpc E (Some (map Data ds)) s = map_option snd (update_host_map E text' s)"
  by (rule sends_processed[OF assms])

theorem report_round_trip_witness:
  "sock_rpc plain_env (Some (map Data (send_loop [1, 5] (client_request plain_env socket_buffersize ''{}'')))) (map_init []) =
    map_option snd (update_host_map plain_env ''{}'' (map_init []))"
proof (rule report_round_trip[OF refl])
  have r: "client_request plain_env socket_buffersize ''{}'' = ''{}'' @ replicate (socket_buffersize - 2) nul"
    by (simp add: client_request_def socket_buffersize_def)
  have "4 \<le> socket_buffersize - 2" by (simp add: socket_buffersize_def)
  then obtain m where "socket_buffersize - 2 = 4 + m" by (metis le_Suc_ex)
  then have "client_request plain_env socket_buffersize ''{}'' = ''{}'' @ replicate 4 nul @ replicate m nul"
    unfolding r by (simp only: replicate_add)
  then show "length ''{}'' \<le> length (concat (send_loop [1, 5] (client_request plain_env socket_buffersize ''{}'')))"
    by (simp add: numeral_eq_Suc)
qed (simp_all add: socket_buffersize_def nul_def)

text \<open>Availability: a server that has processed any sequence of connections, accepted or failed, however cut
  and however ended, of less than 100 MB each, is still running and its maps satisfy their invariant,
  provided that no report carries a null host name or a null nid.\<close>

theorem server_survives:
  assumes "hosts_ok s"
    and "\<forall>rpc t. of_json E rpc = Some t \<longrightarrow> canon t \<and> rpc_safe t"
    and "\<forall>segs. Some segs \<in> set conns \<longrightarrow> payload segs < socket_buffersize"
  shows "ok (serve E conns s) hosts_ok"
  unfolding serve_def
proof (rule ok_foldM_inv[where I = hosts_ok, OF assms(1)])
  fix conn t
  assume c: "conn \<in> set conns" and t: "hosts_ok t"
  have "payload (case conn of None \<Rightarrow> [Fail] | Some segs \<Rightarrow> segs) < socket_buffersize"
    using c assms(3) by (auto simp: socket_buffersize_def split: option.split)
  then show "ok (sock_rpc E conn t) hosts_ok" using sock_rpc_safe[OF t assms(2)] by blast
qed

theorem server_survives_witness:
  "ok (serve (plain_env\<lparr>of_json := (\<lambda>_. Some (TObject [(''hostname'', TString ''c1'')]))\<rparr>)
      [None, Some [Data ''{'', Fail], Some [Data ''{'', Data ''}'']] (map_init [])) hosts_ok"
proof (rule server_survives[OF map_init_ok])
  show "\<forall>rpc t. of_json (plain_env\<lparr>of_json := (\<lambda>_. Some (TObject [(''hostname'', TString ''c1'')]))\<rparr>) rpc = Some t \<longrightarrow>
      canon t \<and> rpc_safe t"
    by (auto simp: rpc_safe_def update_safe_def)
  show "\<forall>segs. Some segs \<in> set [None, Some [Data ''{'', Fail], Some [Data ''{'', Data ''}'']] \<longrightarrow>
      payload segs < socket_buffersize"
    by (auto simp: socket_buffersize_def)
qed

end
