(* ===== verification/CText.thy ===== *)
theory CText
  imports CLib
begin

text \<open>
  The parts of the C library that the configuration readers, the option parsers and the collectors use
  on text: \<open>strsep\<close>, \<open>getline\<close>, \<open>atoi\<close>, the conversions of \<open>sscanf\<close>, and the sequence of
  \<open>snprintf\<close> calls with a moving cursor that several functions of the sources build a line with.
\<close>

section \<open>Characters\<close>

definition is_space :: "char \<Rightarrow> bool" where
  "is_space c \<longleftrightarrow> c \<in> {CHR '' '', CHR 0x09, CHR 0x0A, CHR 0x0B, CHR 0x0C, CHR 0x0D}"

definition is_digit :: "char \<Rightarrow> bool" where
  "is_digit c \<longleftrightarrow> 48 \<le> (of_char c :: nat) \<and> (of_char c :: nat) \<le> 57"

definition digit_val :: "char \<Rightarrow> nat" where
  "digit_val c = of_char c - 48"

definition dec_val :: "string \<Rightarrow> nat" where
  "dec_val = foldl (\<lambda>n c. 10 * n + digit_val c) 0"

definition newline :: char where
  "newline = CHR 0x0A"

section \<open>Cutting text\<close>

text \<open>\<open>strsep\<close>: the token before the first delimiter, and the rest after it, if there is one.\<close>

definition strsep :: "string \<Rightarrow> string \<Rightarrow> string \<times> string option" where
  "strsep delims s =
    (let tok = takeWhile (\<lambda>c. c \<notin> set delims) s
     in (tok, if length tok < length s then Some (drop (Suc (length tok)) s) else None))"

lemma strsep_found:
  assumes "\<forall>c \<in> set k. c \<notin> set delims" "d \<in> set delims"
  shows "strsep delims (k @ d # v) = (k, Some v)"
proof -
  have "takeWhile (\<lambda>c. c \<notin> set delims) (k @ d # v) = k"
    using assms by (simp add: takeWhile_append2)
  then show ?thesis by (simp add: strsep_def)
qed

text \<open>\<open>getline\<close>: the lines of a file, each with its newline, the last one perhaps without.\<close>

fun getlines :: "string \<Rightarrow> string list" where
  "getlines [] = []"
| "getlines (c # cs) =
    (if c = newline then [newline] # getlines cs
     else (case getlines cs of
         [] \<Rightarrow> [[c]]
       | l # ls \<Rightarrow> (c # l) # ls))"

lemma concat_getlines: "concat (getlines s) = s"
  by (induction s) (auto split: list.splits)

lemma getlines_line:
  "newline \<notin> set l \<Longrightarrow> getlines (l @ newline # s) = (l @ [newline]) # getlines s"
  by (induction l) auto

lemma getlines_last: "newline \<notin> set l \<Longrightarrow> l \<noteq> [] \<Longrightarrow> getlines l = [l]"
proof (induction l)
  case (Cons c l)
  then show ?case by (cases l) auto
qed simp

section \<open>Numbers\<close>

definition sign_of :: "string \<Rightarrow> bool \<times> string" where
  "sign_of s = (case s of
      c # cs \<Rightarrow> if c = CHR ''-'' then (True, cs) else if c = CHR ''+'' then (False, cs) else (False, s)
    | [] \<Rightarrow> (False, s))"

text \<open>\<open>atoi\<close>: blanks, a sign, digits; 0 without digits.\<close>

definition atoi :: "string \<Rightarrow> int" where
  "atoi s =
    (let (neg, t) = sign_of (dropWhile is_space s); n = int (dec_val (takeWhile is_digit t))
     in if neg then - n else n)"

text \<open>The exponent of a decimal floating-point text, and what follows it.\<close>

definition exponent :: "string \<Rightarrow> int" where
  "exponent s = (case s of
      c # cs \<Rightarrow>
        if c = CHR ''e'' \<or> c = CHR ''E''
        then (let (neg, t) = sign_of cs; ds = takeWhile is_digit t
              in if ds = [] then 0 else if neg then - int (dec_val ds) else int (dec_val ds))
        else 0
    | [] \<Rightarrow> 0)"

definition scale10 :: "rat \<Rightarrow> int \<Rightarrow> rat" where
  "scale10 m e = (if 0 \<le> e then m * 10 ^ nat e else m / 10 ^ nat (- e))"

text \<open>The \<open>%lf\<close> conversion of \<open>sscanf\<close> on a decimal text; \<open>None\<close> when it does not match.  The other
  forms it accepts (hexadecimal, infinities, NaNs) are not modelled.\<close>

definition scan_lf :: "(rat \<Rightarrow> rat) \<Rightarrow> string \<Rightarrow> double option" where
  "scan_lf rnd s =
    (let (neg, t) = sign_of (dropWhile is_space s);
         ip = takeWhile is_digit t; r = dropWhile is_digit t;
         (fp, r') = (case r of
            c # cs \<Rightarrow> if c = CHR ''.'' then (takeWhile is_digit cs, dropWhile is_digit cs) else ([], r)
          | [] \<Rightarrow> ([], r));
         m = rat_of_nat (dec_val (ip @ fp)) * (if neg then -1 else 1)
     in if ip = [] \<and> fp = [] then None
        else Some (rnd (scale10 m (exponent r' - int (length fp)))))"

text \<open>\<open>atof\<close> is the same conversion with 0 for no match.\<close>

definition atof :: "(rat \<Rightarrow> rat) \<Rightarrow> string \<Rightarrow> double" where
  "atof rnd s = (case scan_lf rnd s of None \<Rightarrow> 0 | Some d \<Rightarrow> d)"

section \<open>Printing\<close>

definition digit_char :: "nat \<Rightarrow> char" where
  "digit_char d = char_of (48 + d mod 10)"

fun show_nat :: "nat \<Rightarrow> string" where
  "show_nat n = (if n < 10 then [digit_char n] else show_nat (n div 10) @ [digit_char n])"

declare show_nat.simps [simp del]

definition pad_left :: "nat \<Rightarrow> string \<Rightarrow> string" where
  "pad_left w s = replicate (w - length s) CHR '' '' @ s"

definition pad_right :: "nat \<Rightarrow> string \<Rightarrow> string" where
  "pad_right w s = s @ replicate (w - length s) CHR '' ''"

text \<open>Rounding to the nearest integer, ties to even, as the conversions \<open>%f\<close> do on the exact value.\<close>

definition round_even :: "rat \<Rightarrow> nat" where
  "round_even x =
    (let n = nat \<lfloor>x\<rfloor>; r = x - rat_of_nat n
     in if r < 1 / 2 then n else if 1 / 2 < r then Suc n else if even n then n else Suc n)"

text \<open>\<open>%.pf\<close> for a value: sign, integral digits, and \<open>p\<close> digits after the point.\<close>

definition fmt_fixed :: "nat \<Rightarrow> double \<Rightarrow> string" where
  "fmt_fixed p x =
    (let n = round_even (\<bar>x\<bar> * 10 ^ p); ds = show_nat n;
         ds' = replicate (Suc p - length ds) CHR ''0'' @ ds; k = length ds' - p
     in (if x < 0 then ''-'' else '''') @ take k ds' @ (if p = 0 then '''' else CHR ''.'' # drop k ds'))"

lemma length_pad [simp]: "length (pad_left w s) = max w (length s)" "length (pad_right w s) = max w (length s)"
  by (simp_all add: pad_left_def pad_right_def)

lemma length_fmt_fixed: "0 < p \<Longrightarrow> p + 2 \<le> length (fmt_fixed p x)"
  by (auto simp: fmt_fixed_def Let_def)

section \<open>A line built with a moving cursor\<close>

text \<open>\<open>cur += snprintf(cur, end - cur, ...)\<close>: the text is cut to the room that is left, but the cursor
  advances by the length of the whole text.  Once it is past the end, the room \<open>end - cur\<close> is negative, that is a
  huge \<open>size_t\<close>, and the next call writes outside of the buffer.\<close>

definition put :: "nat \<Rightarrow> string \<Rightarrow> nat \<times> string \<Rightarrow> (nat \<times> string) option" where
  "put cap txt' = (\<lambda>(cur, buf).
     if cap < cur then None else Some (cur + length txt', buf @ take (cap - cur - 1) txt'))"

fun put_all :: "nat \<Rightarrow> string list \<Rightarrow> nat \<times> string \<Rightarrow> (nat \<times> string) option" where
  "put_all cap [] st = Some st"
| "put_all cap (t # ts) st = (case put cap t st of None \<Rightarrow> None | Some st' \<Rightarrow> put_all cap ts st')"

definition total_length :: "string list \<Rightarrow> nat" where
  "total_length ts = (\<Sum>t \<leftarrow> ts. length t)"

text \<open>A line that fits is built completely.\<close>

lemma put_all_fits:
  assumes "length buf + total_length ts < cap"
  shows "put_all cap ts (length buf, buf) = Some (length buf + total_length ts, buf @ concat ts)"
  using assms
proof (induction ts arbitrary: buf)
  case Nil
  then show ?case by (simp add: total_length_def)
next
  case (Cons t ts)
  then have "length t \<le> cap - length buf - 1" by (simp add: total_length_def)
  then have "put cap t (length buf, buf) = Some (length (buf @ t), buf @ t)"
    using Cons.prems by (simp add: put_def total_length_def)
  moreover have "put_all cap ts (length (buf @ t), buf @ t) =
      Some (length (buf @ t) + total_length ts, (buf @ t) @ concat ts)"
    by (rule Cons.IH) (use Cons.prems in \<open>simp add: total_length_def\<close>)
  ultimately show ?case by (simp add: total_length_def)
qed

text \<open>Only the length of the texts decides whether the cursor leaves the buffer before the last one.\<close>

lemma put_all_defined:
  "put_all cap ts (cur, buf) \<noteq> None \<longleftrightarrow> ts = [] \<or> cur + total_length (butlast ts) \<le> cap"
proof (induction ts arbitrary: cur buf)
  case Nil
  then show ?case by simp
next
  case (Cons t ts)
  show ?case
  proof (cases "cap < cur")
    case True
    then show ?thesis by (simp add: put_def)
  next
    case False
    then show ?thesis using Cons.IH[of "cur + length t" "buf @ take (cap - cur - 1) t"]
      by (cases ts) (simp_all add: put_def total_length_def add.assoc)
  qed
qed

end
