(* ===== verification/Config.thy ===== *)
theory Config
  imports CText
begin

text \<open>
  The configuration files: \<open>read_conf_file\<close> of \<open>server/pfstrase_server.c\<close>, \<open>server/pfsql.c\<close> and
  \<open>client/pfstrase_client.c\<close>.  The three functions have one shape: every line is cut at the first
  blank, colon, tabulator or equals sign, and each recognised key assigns one variable of the program.

  The locale \<open>settings\<close> is that shape: a family of settings, each with the values it accepts, that do
  not interfere.  What follows (the last accepted value of a key wins, and nothing else in the file
  matters) is proved once and holds for the three programs by interpretation.
\<close>

section \<open>One line\<close>

definition conf_delims :: string where
  "conf_delims = '' :'' @ [CHR 0x09] @ ''=''"

text \<open>Key and rest of a line; a line without delimiter is skipped.\<close>

definition conf_line :: "string \<Rightarrow> (string \<times> string) option" where
  "conf_line l = (case strsep conf_delims l of (key, None) \<Rightarrow> None | (key, Some rest) \<Rightarrow> Some (key, rest))"

text \<open>\<open>line[strlen(line) - 1] = 0\<close>: on an empty rest it hits the delimiter that \<open>strsep\<close> has already
  cleared.\<close>

definition conf_string :: "string \<Rightarrow> string" where
  "conf_string rest = butlast rest"

section \<open>The three programs\<close>

record server_conf =
  s_port :: string
  s_shm_interval :: double
  s_dbserver :: "string option"
  s_dbname :: "string option"
  s_dbuser :: "string option"
  s_db_interval :: double

record pfsql_conf =
  q_port :: string
  q_dbserver :: "string option"
  q_dbname :: "string option"
  q_dbuser :: "string option"
  q_db_interval :: double

record client_conf =
  c_server :: "string option"
  c_port :: string
  c_freq :: double

definition server_default :: server_conf where
  "server_default = \<lparr>s_port = ''5672'', s_shm_interval = 1, s_dbserver = None, s_dbname = None,
    s_dbuser = None, s_db_interval = 30\<rparr>"

definition pfsql_default :: pfsql_conf where
  "pfsql_default = \<lparr>q_port = ''5433'', q_dbserver = None, q_dbname = None, q_dbuser = None, q_db_interval = 30\<rparr>"

definition client_default :: client_conf where
  "client_default = \<lparr>c_server = None, c_port = ''8312'', c_freq = 300\<rparr>"

text \<open>The bodies of the loops, for a server built with the database support (\<open>PSQL\<close>).\<close>

definition server_set :: "(rat \<Rightarrow> rat) \<Rightarrow> string \<times> string \<Rightarrow> server_conf \<Rightarrow> server_conf" where
  "server_set rnd = (\<lambda>(key, line) c.
     if key = ''port'' then c\<lparr>s_port := conf_string line\<rparr>
     else if key = ''sharedmem_interval'' then
       (case scan_lf rnd line of None \<Rightarrow> c | Some d \<Rightarrow> c\<lparr>s_shm_interval := d\<rparr>)
     else if key = ''dbserver'' then c\<lparr>s_dbserver := Some (conf_string line)\<rparr>
     else if key = ''dbname'' then c\<lparr>s_dbname := Some (conf_string line)\<rparr>
     else if key = ''dbuser'' then c\<lparr>s_dbuser := Some (conf_string line)\<rparr>
     else if key = ''db_interval'' then
       (case scan_lf rnd line of None \<Rightarrow> c | Some d \<Rightarrow> c\<lparr>s_db_interval := d\<rparr>)
     else c)"

definition pfsql_set :: "(rat \<Rightarrow> rat) \<Rightarrow> string \<times> string \<Rightarrow> pfsql_conf \<Rightarrow> pfsql_conf" where
  "pfsql_set rnd = (\<lambda>(key, line) c.
     if key = ''port'' then c\<lparr>q_port := conf_string line\<rparr>
     else if key = ''dbserver'' then c\<lparr>q_dbserver := Some (conf_string line)\<rparr>
     else if key = ''dbname'' then c\<lparr>q_dbname := Some (conf_string line)\<rparr>
     else if key = ''dbuser'' then c\<lparr>q_dbuser := Some (conf_string line)\<rparr>
     else if key = ''db_interval'' then
       (case scan_lf rnd line of None \<Rightarrow> c | Some d \<Rightarrow> c\<lparr>q_db_interval := d\<rparr>)
     else c)"

definition client_set :: "(rat \<Rightarrow> rat) \<Rightarrow> string \<times> string \<Rightarrow> client_conf \<Rightarrow> client_conf" where
  "client_set rnd = (\<lambda>(key, line) c.
     if key = ''server'' then c\<lparr>c_server := Some (conf_string line)\<rparr>
     else if key = ''port'' then c\<lparr>c_port := conf_string line\<rparr>
     else if key = ''frequency'' then
       (case scan_lf rnd line of None \<Rightarrow> c | Some d \<Rightarrow> c\<lparr>c_freq := d\<rparr>)
     else c)"

text \<open>The file: \<open>None\<close> when no name is set, \<open>Some None\<close> when it cannot be opened.  The result code is
  the code's: 0 without a file, -1 when it cannot be opened, and -1 also when it was read.\<close>

definition read_conf ::
    "(string \<times> string \<Rightarrow> 'c \<Rightarrow> 'c) \<Rightarrow> string option option \<Rightarrow> 'c \<Rightarrow> int \<times> 'c" where
  "read_conf set_key file c =
    (case file of
       None \<Rightarrow> (0, c)
     | Some None \<Rightarrow> (-1, c)
     | Some (Some text') \<Rightarrow> (-1, fold (\<lambda>l c. case conf_line l of None \<Rightarrow> c | Some kv \<Rightarrow> set_key kv c) (getlines text') c))"

definition server_read_conf :: "(rat \<Rightarrow> rat) \<Rightarrow> string option option \<Rightarrow> server_conf \<Rightarrow> int \<times> server_conf" where
  "server_read_conf rnd = read_conf (server_set rnd)"

definition pfsql_read_conf :: "(rat \<Rightarrow> rat) \<Rightarrow> string option option \<Rightarrow> pfsql_conf \<Rightarrow> int \<times> pfsql_conf" where
  "pfsql_read_conf rnd = read_conf (pfsql_set rnd)"

definition client_read_conf :: "(rat \<Rightarrow> rat) \<Rightarrow> string option option \<Rightarrow> client_conf \<Rightarrow> int \<times> client_conf" where
  "client_read_conf rnd = read_conf (client_set rnd)"

section \<open>The contract of the settings\<close>

datatype setting = Text "string option" | Number double

locale settings =
  fixes assign :: "string \<times> string \<Rightarrow> 'c \<Rightarrow> 'c"
    and accepts :: "string \<Rightarrow> string \<Rightarrow> setting option"
    and value_of :: "string \<Rightarrow> 'c \<Rightarrow> setting"
  assumes assign_same: "value_of k (assign (k, v) c) =
      (case accepts k v of None \<Rightarrow> value_of k c | Some x \<Rightarrow> x)"
    and assign_other: "k \<noteq> j \<Longrightarrow> value_of k (assign (j, v) c) = value_of k c"
begin

lemma last_setting:
  "value_of k (fold assign kvs c) =
    (case filter (\<lambda>(j, v). j = k \<and> accepts j v \<noteq> None) (rev kvs) of
       [] \<Rightarrow> value_of k c
     | (j, v) # _ \<Rightarrow> the (accepts k v))"
proof (induction kvs rule: rev_induct)
  case (snoc kv kvs)
  obtain j v where kv: "kv = (j, v)" by (cases kv)
  show ?case
  proof (cases "j = k")
    case True
    with snoc show ?thesis
      by (cases "accepts k v") (auto simp: kv assign_same split: list.splits prod.splits)
  next
    case False
    with snoc show ?thesis by (simp add: kv assign_other)
  qed
qed simp

end

text \<open>What the programs accept for a key, and the value of a key.\<close>

definition text_key :: "string set \<Rightarrow> string set \<Rightarrow> (rat \<Rightarrow> rat) \<Rightarrow> string \<Rightarrow> string \<Rightarrow> setting option" where
  "text_key texts numbers rnd k v =
    (if k \<in> texts then Some (Text (Some (conf_string v)))
     else if k \<in> numbers then map_option Number (scan_lf rnd v) else None)"

definition server_value :: "string \<Rightarrow> server_conf \<Rightarrow> setting" where
  "server_value k c =
    (if k = ''port'' then Text (Some (s_port c)) else if k = ''dbserver'' then Text (s_dbserver c)
     else if k = ''dbname'' then Text (s_dbname c) else if k = ''dbuser'' then Text (s_dbuser c)
     else if k = ''sharedmem_interval'' then Number (s_shm_interval c)
     else if k = ''db_interval'' then Number (s_db_interval c) else Text None)"

definition pfsql_value :: "string \<Rightarrow> pfsql_conf \<Rightarrow> setting" where
  "pfsql_value k c =
    (if k = ''port'' then Text (Some (q_port c)) else if k = ''dbserver'' then Text (q_dbserver c)
     else if k = ''dbname'' then Text (q_dbname c) else if k = ''dbuser'' then Text (q_dbuser c)
     else if k = ''db_interval'' then Number (q_db_interval c) else Text None)"

definition client_value :: "string \<Rightarrow> client_conf \<Rightarrow> setting" where
  "client_value k c =
    (if k = ''server'' then Text (c_server c) else if k = ''port'' then Text (Some (c_port c))
     else if k = ''frequency'' then Number (c_freq c) else Text None)"

definition server_texts :: "string set" where
  "server_texts = {''port'', ''dbserver'', ''dbname'', ''dbuser''}"

interpretation server_settings: settings "server_set rnd"
    "text_key server_texts {''sharedmem_interval'', ''db_interval''} rnd" server_value
  for rnd
  by unfold_locales
    (auto simp: server_set_def text_key_def server_value_def server_texts_def split: option.splits)

interpretation pfsql_settings: settings "pfsql_set rnd" "text_key server_texts {''db_interval''} rnd" pfsql_value
  for rnd
  by unfold_locales
    (auto simp: pfsql_set_def text_key_def pfsql_value_def server_texts_def split: option.splits)

interpretation client_settings: settings "client_set rnd" "text_key {''server'', ''port''} {''frequency''} rnd" client_value
  for rnd
  by unfold_locales
    (auto simp: client_set_def text_key_def client_value_def split: option.splits)

section \<open>Reading a file\<close>

definition conf_pairs :: "string \<Rightarrow> (string \<times> string) list" where
  "conf_pairs text' = List.map_filter conf_line (getlines text')"

lemma fold_conf_lines:
  "fold (\<lambda>l c. case conf_line l of None \<Rightarrow> c | Some kv \<Rightarrow> f kv c) ls c = fold f (List.map_filter conf_line ls) c"
  by (induction ls arbitrary: c) (auto simp: List.map_filter_simps split: option.splits)

lemma read_conf_file:
  "read_conf f (Some (Some text')) c = (-1, fold f (conf_pairs text') c)"
  by (simp add: read_conf_def conf_pairs_def fold_conf_lines)

text \<open>A line of the form key, delimiter, value.\<close>

lemma conf_pairs_line:
  assumes "\<forall>c \<in> set k. c \<notin> set conf_delims" "d \<in> set conf_delims" "newline \<notin> set (k @ d # v)"
  shows "conf_pairs ((k @ d # v) @ newline # rest) = (k, v @ [newline]) # conf_pairs rest"
proof -
  have "conf_line ((k @ d # v) @ [newline]) = Some (k, v @ [newline])"
    using strsep_found[OF assms(1,2), of "v @ [newline]"] by (simp add: conf_line_def)
  then show ?thesis
    using getlines_line[OF assms(3), of rest] by (simp add: conf_pairs_def List.map_filter_simps)
qed

lemma conf_string_line [simp]: "conf_string (v @ [newline]) = v"
  by (simp add: conf_string_def)

end
