(* ===== verification/Options.thy ===== *)
theory Options
  imports Config
begin

text \<open>
  The command lines of the programs: the \<open>getopt_long\<close> loops of the \<open>main\<close> functions of
  \<open>server/pfstrase_server.c\<close>, \<open>server/pfsql.c\<close> and \<open>client/pfstrase_client.c\<close>, followed by the
  configuration file, which they read after the options.

  \<open>getopt_long\<close> of the C library is modelled with what these programs use of it: grouped short
  options, attached and separate arguments, long options with unambiguous abbreviations, and the
  permutation of other arguments to the end.
\<close>

section \<open>getopt\_long\<close>

datatype opt = Opt char string | Bad

text \<open>A group of short options; the flag says that the last one takes the next argument.\<close>

fun short_group :: "(char \<times> bool) list \<Rightarrow> string \<Rightarrow> opt list \<times> char option" where
  "short_group sh [] = ([], None)"
| "short_group sh (c # cs) =
    (case map_of sh c of
       None \<Rightarrow> (let (os, n) = short_group sh cs in (Bad # os, n))
     | Some False \<Rightarrow> (let (os, n) = short_group sh cs in (Opt c '''' # os, n))
     | Some True \<Rightarrow> if cs = [] then ([], Some c) else ([Opt c cs], None))"

definition starts_with :: "string \<Rightarrow> string \<Rightarrow> bool" where
  "starts_with p s \<longleftrightarrow> take (length p) s = p"

definition long_match :: "(string \<times> bool \<times> char) list \<Rightarrow> string \<Rightarrow> (bool \<times> char) option" where
  "long_match lo name =
    (case map_of lo name of
       Some m \<Rightarrow> Some m
     | None \<Rightarrow> (case filter (\<lambda>(n, m). starts_with name n) lo of [(n, m)] \<Rightarrow> Some m | _ \<Rightarrow> None))"

fun getopt :: "(char \<times> bool) list \<Rightarrow> (string \<times> bool \<times> char) list \<Rightarrow> string list \<Rightarrow> opt list" where
  "getopt sh lo [] = []"
| "getopt sh lo (a # rest) =
    (if a = ''--'' then []
     else if starts_with ''--'' a then
       (let name = takeWhile (\<lambda>c. c \<noteq> CHR ''='') (drop 2 a);
            given = (if length name < length (drop 2 a) then Some (drop (length name + 3) a) else None)
        in case long_match lo name of
             None \<Rightarrow> Bad # getopt sh lo rest
           | Some (False, c) \<Rightarrow> (if given = None then Opt c '''' else Bad) # getopt sh lo rest
           | Some (True, c) \<Rightarrow>
               (case given of
                  Some v \<Rightarrow> Opt c v # getopt sh lo rest
                | None \<Rightarrow> (case rest of [] \<Rightarrow> [Bad] | v # rest' \<Rightarrow> Opt c v # getopt sh lo rest')))
     else if starts_with ''-'' a \<and> a \<noteq> ''-'' then
       (case short_group sh (tl a) of
          (os, None) \<Rightarrow> os @ getopt sh lo rest
        | (os, Some c) \<Rightarrow> os @ (case rest of [] \<Rightarrow> [Bad] | v # rest' \<Rightarrow> Opt c v # getopt sh lo rest'))
     else getopt sh lo rest)"

text \<open>The programs' loops stop at a wrong option with code 1 and at the help option with code 0.\<close>

datatype 'a outcome = Run 'a | Exit int

fun run_opts :: "(char \<Rightarrow> string \<Rightarrow> 'a \<Rightarrow> 'a) \<Rightarrow> opt list \<Rightarrow> 'a \<Rightarrow> 'a outcome" where
  "run_opts f [] st = Run st"
| "run_opts f (Bad # os) st = Exit 1"
| "run_opts f (Opt c v # os) st = (if c = CHR ''h'' then Exit 0 else run_opts f os (f c v st))"

section \<open>The programs\<close>

text \<open>The letters of all three programs: \<open>hds:f:c:l:p:\<close>.\<close>

definition short_opts :: "(char \<times> bool) list" where
  "short_opts = [(CHR ''h'', False), (CHR ''d'', False), (CHR ''s'', True), (CHR ''f'', True),
    (CHR ''c'', True), (CHR ''l'', True), (CHR ''p'', True)]"

definition server_long :: "(string \<times> bool \<times> char) list" where
  "server_long = [(''help'', False, CHR ''h''), (''daemon'', False, CHR ''d''),
    (''interval '', True, CHR ''i''), (''conf_file'', True, CHR ''c''), (''port'', True, CHR ''p'')]"

definition pfsql_long :: "(string \<times> bool \<times> char) list" where
  "pfsql_long = [(''help'', False, CHR ''h''), (''daemon'', False, CHR ''d''),
    (''interval '', True, CHR ''i''), (''conf_file'', True, CHR ''c''), (''port'', True, CHR ''p'')]"

definition client_long :: "(string \<times> bool \<times> char) list" where
  "client_long = [(''help'', False, CHR ''h''), (''daemon'', False, CHR ''d''),
    (''server'', True, CHR ''s''), (''freq '', True, CHR ''f''), (''conf_file'', True, CHR ''c''),
    (''log_file'', True, CHR ''l''), (''port'', True, CHR ''p'')]"

record 'c program =
  daemonmode :: bool
  conf_file_name :: "string option"
  log_file_name :: "string option"
  conf :: 'c

definition server_opt :: "(rat \<Rightarrow> rat) \<Rightarrow> char \<Rightarrow> string \<Rightarrow> server_conf program \<Rightarrow> server_conf program" where
  "server_opt rnd c optarg p =
    (if c = CHR ''d'' then p\<lparr>daemonmode := True\<rparr>
     else if c = CHR ''i'' then p\<lparr>conf := (conf p)\<lparr>s_shm_interval := atof rnd optarg\<rparr>\<rparr>
     else if c = CHR ''c'' then p\<lparr>conf_file_name := Some optarg\<rparr>
     else if c = CHR ''p'' then p\<lparr>conf := (conf p)\<lparr>s_port := optarg\<rparr>\<rparr>
     else p)"

definition pfsql_opt :: "char \<Rightarrow> string \<Rightarrow> pfsql_conf program \<Rightarrow> pfsql_conf program" where
  "pfsql_opt c optarg p =
    (if c = CHR ''d'' then p\<lparr>daemonmode := True\<rparr>
     else if c = CHR ''c'' then p\<lparr>conf_file_name := Some optarg\<rparr>
     else if c = CHR ''p'' then p\<lparr>conf := (conf p)\<lparr>q_port := optarg\<rparr>\<rparr>
     else p)"

definition client_opt :: "(rat \<Rightarrow> rat) \<Rightarrow> char \<Rightarrow> string \<Rightarrow> client_conf program \<Rightarrow> client_conf program" where
  "client_opt rnd c optarg p =
    (if c = CHR ''d'' then p\<lparr>daemonmode := True\<rparr>
     else if c = CHR ''s'' then p\<lparr>conf := (conf p)\<lparr>c_server := Some optarg\<rparr>\<rparr>
     else if c = CHR ''f'' then p\<lparr>conf := (conf p)\<lparr>c_freq := atof rnd optarg\<rparr>\<rparr>
     else if c = CHR ''c'' then p\<lparr>conf_file_name := Some optarg\<rparr>
     else if c = CHR ''l'' then p\<lparr>log_file_name := Some optarg\<rparr>
     else if c = CHR ''p'' then p\<lparr>conf := (conf p)\<lparr>c_port := optarg\<rparr>\<rparr>
     else p)"

text \<open>The files of the machine: \<open>None\<close> for one that cannot be opened.\<close>

definition conf_of :: "(string \<Rightarrow> string option) \<Rightarrow> 'c program \<Rightarrow> string option option" where
  "conf_of files p = map_option files (conf_file_name p)"

text \<open>The start of \<open>main\<close>, up to the point where the event loop is set up: options, then file.\<close>

definition server_start :: "(rat \<Rightarrow> rat) \<Rightarrow> (string \<Rightarrow> string option) \<Rightarrow> string list \<Rightarrow> server_conf program outcome" where
  "server_start rnd files args =
    (case run_opts (server_opt rnd) (getopt short_opts server_long args)
        \<lparr>daemonmode = False, conf_file_name = None, log_file_name = None, conf = server_default\<rparr> of
       Exit n \<Rightarrow> Exit n
     | Run p \<Rightarrow> Run (p\<lparr>conf := snd (server_read_conf rnd (conf_of files p) (conf p))\<rparr>))"

definition pfsql_start :: "(rat \<Rightarrow> rat) \<Rightarrow> (string \<Rightarrow> string option) \<Rightarrow> string list \<Rightarrow> pfsql_conf program outcome" where
  "pfsql_start rnd files args =
    (case run_opts pfsql_opt (getopt short_opts pfsql_long args)
        \<lparr>daemonmode = False, conf_file_name = None, log_file_name = None, conf = pfsql_default\<rparr> of
       Exit n \<Rightarrow> Exit n
     | Run p \<Rightarrow> Run (p\<lparr>conf := snd (pfsql_read_conf rnd (conf_of files p) (conf p))\<rparr>))"

text \<open>The client exits when neither the options nor the file name a server.\<close>

definition client_start :: "(rat \<Rightarrow> rat) \<Rightarrow> (string \<Rightarrow> string option) \<Rightarrow> string list \<Rightarrow> client_conf program outcome" where
  "client_start rnd files args =
    (case run_opts (client_opt rnd) (getopt short_opts client_long args)
        \<lparr>daemonmode = False, conf_file_name = None, log_file_name = None, conf = client_default\<rparr> of
       Exit n \<Rightarrow> Exit n
     | Run p \<Rightarrow>
         (let c = snd (client_read_conf rnd (conf_of files p) (conf p))
          in if c_server c = None then Exit 0 else Run (p\<lparr>conf := c\<rparr>)))"

section \<open>Properties\<close>

text \<open>C39. The configuration files: after the file was read, every setting of the three programs is the last value
  the file gives for its key (the text of the line after the delimiter without its last character,
  or the number it starts with), and the setting from before the file where it gives none; lines with
  other keys, lines without delimiter and numbers that do not parse have no effect.\<close>

theorem conf_last_setting:
  shows "(\<forall>c k. server_value k (snd (server_read_conf rnd (Some (Some text')) c)) =
      (case filter (\<lambda>(j, v). j = k \<and> text_key server_texts {''sharedmem_interval'', ''db_interval''} rnd j v \<noteq> None)
          (rev (conf_pairs text')) of
         [] \<Rightarrow> server_value k c
       | (j, v) # _ \<Rightarrow> the (text_key server_texts {''sharedmem_interval'', ''db_interval''} rnd k v))) \<and>
    (\<forall>c k. pfsql_value k (snd (pfsql_read_conf rnd (Some (Some text')) c)) =
      (case filter (\<lambda>(j, v). j = k \<and> text_key server_texts {''db_interval''} rnd j v \<noteq> None)
          (rev (conf_pairs text')) of
         [] \<Rightarrow> pfsql_value k c
       | (j, v) # _ \<Rightarrow> the (text_key server_texts {''db_interval''} rnd k v))) \<and>
    (\<forall>c k. client_value k (snd (client_read_conf rnd (Some (Some text')) c)) =
      (case filter (\<lambda>(j, v). j = k \<and> text_key {''server'', ''port''} {''frequency''} rnd j v \<noteq> None)
          (rev (conf_pairs text')) of
         [] \<Rightarrow> client_value k c
       | (j, v) # _ \<Rightarrow> the (text_key {''server'', ''port''} {''frequency''} rnd k v)))"
  unfolding server_read_conf_def pfsql_read_conf_def client_read_conf_def read_conf_file snd_conv
  by (intro conjI allI server_settings.last_setting pfsql_settings.last_setting client_settings.last_setting)

text \<open>The file wins over the command line: a server or client started with a port option and a file that has
  a port line uses the port of the file.\<close>

theorem conf_file_overrides_options:
  assumes "newline \<notin> set port" "files f = Some (''port '' @ port @ newline # rest)"
    and "\<forall>(k, v) \<in> set (conf_pairs rest). k \<noteq> ''port''" "f \<noteq> []" "a \<noteq> []"
  shows "\<exists>p. server_start rnd files [''-p'', a, ''-c'', f] = Run p \<and> s_port (conf p) = port"
proof -
  let ?c = "server_default\<lparr>s_port := a\<rparr>"
  let ?p = "\<lparr>daemonmode = False, conf_file_name = Some f, log_file_name = None, conf = ?c\<rparr>"
  have opts: "run_opts (server_opt rnd) (getopt short_opts server_long [''-p'', a, ''-c'', f])
      \<lparr>daemonmode = False, conf_file_name = None, log_file_name = None, conf = server_default\<rparr> = Run ?p"
    by (simp add: short_opts_def starts_with_def server_opt_def)
  have pairs: "conf_pairs ((''port'' @ CHR '' '' # port) @ newline # rest) = (''port'', port @ [newline]) # conf_pairs rest"
    by (rule conf_pairs_line) (use assms(1) in \<open>auto simp: conf_delims_def newline_def\<close>)
  have "fold (server_set rnd) kvs c = fold (server_set rnd) kvs c \<Longrightarrow> \<forall>(k, v) \<in> set kvs. k \<noteq> ''port'' \<Longrightarrow>
      s_port (fold (server_set rnd) kvs c) = s_port c" for kvs c
    by (induction kvs arbitrary: c) (auto simp: server_set_def split: option.splits)
  then have "s_port (fold (server_set rnd) (conf_pairs rest) c) = s_port c" for c using assms(3) by simp
  then have "s_port (snd (server_read_conf rnd (conf_of files ?p) ?c)) = port"
    using pairs assms(2) by (simp add: conf_of_def server_read_conf_def read_conf_file server_set_def)
  then show ?thesis using opts by (simp add: server_start_def)
qed

theorem conf_file_overrides_options_witness:
  "\<exists>p. server_start (\<lambda>x. x) (\<lambda>_. Some (''port '' @ ''5672'' @ newline # '''')) [''-p'', ''80'', ''-c'', ''f''] = Run p \<and>
    s_port (conf p) = ''5672''"
  by (rule conf_file_overrides_options[where rest = "''''"]) (simp_all add: newline_def conf_pairs_def List.map_filter_simps)

text \<open>The interval option of the usage text: the server does not know the documented letter and exits with
  code 1, whatever its argument, while the long form works as an abbreviation of the name that was declared with a
  trailing blank.\<close>

theorem interval_option:
  "server_start rnd files (''-i'' # args) = Exit 1 \<and>
    (\<exists>p. server_start rnd files [''--interval'', x] = Run p \<and> s_shm_interval (conf p) = atof rnd x)"
proof
  have "\<exists>os. getopt short_opts server_long (''-i'' # args) = Bad # os"
    by (simp add: starts_with_def short_opts_def)
  then show "server_start rnd files (''-i'' # args) = Exit 1"
    by (elim exE) (simp add: server_start_def del: getopt.simps)
  have "getopt short_opts server_long [''--interval'', x] = [Opt CHR ''i'' x]"
    by (simp add: starts_with_def server_long_def long_match_def)
  then show "\<exists>p. server_start rnd files [''--interval'', x] = Run p \<and> s_shm_interval (conf p) = atof rnd x"
    by (simp add: server_start_def server_opt_def conf_of_def server_read_conf_def read_conf_def)
qed

end
