(* ===== verification/Pq.thy ===== *)
theory Pq
  imports Grouping CText
begin

text \<open>
  \<open>pq_insert\<close> of \<open>server/pq.c\<close>: the rates of every server are written to the database as
  \<open>insert\<close> queries of at most 128000 bytes, one record per event with a positive value.

  The query buffer is a state (\<open>batch\<close>) with the two operations of the code, adding the records of a
  tuple and sending.  \<open>PQexec\<close> of libpq is the trace of the texts it is called with.  The
  properties say that batching loses and repeats nothing, name the size for which it does cut a record, and
  the tuples for which an uninitialised buffer is read.
\<close>

section \<open>The code\<close>

definition pq_prefix :: string where
  "pq_prefix = ''insert into host_data (time, host, system, fid, jid, uid, client, event, value) values ''"

definition query_cap :: nat where
  "query_cap = 128000"

record batch =
  qcur :: nat
  query :: string
  sent :: "string list"

definition empty_batch :: "string list \<Rightarrow> batch" where
  "empty_batch done' = \<lparr>qcur = length pq_prefix, query = pq_prefix, sent = done'\<rparr>"

text \<open>\<open>query[query_len - 2] = ';'\<close> and \<open>PQexec\<close>, if the query has any record.\<close>

definition finish_query :: "string \<Rightarrow> string" where
  "finish_query q = q[length q - 2 := CHR '';'']"

definition send_query :: "batch \<Rightarrow> batch" where
  "send_query b =
    (if length pq_prefix < length (query b) then b\<lparr>sent := sent b @ [finish_query (query b)]\<rparr> else b)"

definition add_record :: "string \<Rightarrow> batch \<Rightarrow> batch option" where
  "add_record record_str b =
    (let b1 = (if query_cap < qcur b + length record_str then (send_query b)\<lparr>qcur := length pq_prefix\<rparr> else b)
     in case put query_cap record_str (qcur b1, take (qcur b1) (query b1)) of
          None \<Rightarrow> None
        | Some (c, q) \<Rightarrow> Some (b1\<lparr>qcur := c, query := q\<rparr>))"

text \<open>The columns of a tuple: time, server and tags.\<close>

definition quoted :: "string \<Rightarrow> string" where
  "quoted s = CHR 0x27 # s @ [CHR 0x27] @ '', ''"

definition tag_column :: "env \<Rightarrow> heap \<Rightarrow> jval \<Rightarrow> string \<Rightarrow> string option" where
  "tag_column E h tags k =
    (case object_get_ex h tags k of
       None \<Rightarrow> Some (quoted ''*'')
     | Some tid \<Rightarrow> map_option quoted (get_string E h tid))"

definition tag_str :: "env \<Rightarrow> heap \<Rightarrow> jval \<Rightarrow> string \<Rightarrow> jval \<Rightarrow> string option" where
  "tag_str E h time s tags = do {
     system \<leftarrow> tag_column E h tags ''system'';
     fid \<leftarrow> tag_column E h tags ''fid'';
     jid \<leftarrow> tag_column E h tags ''jid'';
     uid \<leftarrow> tag_column E h tags ''uid'';
     client \<leftarrow> tag_column E h tags ''client'';
     (cur, str) \<leftarrow> put_all 1024
       [''to_timestamp('' @ fmt_fixed 6 (get_double E time) @ ''), '', quoted s, system, fid, jid, uid, client] (0, '''');
     Some str
   }"

text \<open>The records of the positive events.  Without one, \<open>record_str\<close> is read uninitialised.\<close>

definition event_record :: "string \<Rightarrow> string \<Rightarrow> double \<Rightarrow> string" where
  "event_record tags event v =
    ''('' @ tags @ '' '' @ [CHR 0x27] @ event @ [CHR 0x27] @ '', '' @ fmt_fixed 6 v @ ''), ''"

definition event_records :: "env \<Rightarrow> string \<Rightarrow> (string \<times> jval) list \<Rightarrow> string list" where
  "event_records E tags events =
    map (\<lambda>(event, val). event_record tags event (get_double E val)) (filter (\<lambda>(event, val). 0 < get_double E val) events)"

definition record_str :: "env \<Rightarrow> string \<Rightarrow> (string \<times> jval) list \<Rightarrow> string option" where
  "record_str E tags events =
    (if event_records E tags events = [] then None
     else map_option snd (put_all 8192 (event_records E tags events) (0, '''')))"

definition pq_tuple :: "env \<Rightarrow> jval \<Rightarrow> string \<Rightarrow> string \<times> jval \<Rightarrow> heap \<times> batch \<Rightarrow> (heap \<times> batch) option" where
  "pq_tuple E time s = (\<lambda>(t, te) (h, b).
     (if t = ''time'' then Some (h, b)
      else (case tokener_parse E t h of
          None \<Rightarrow> Some (h, b)
        | Some (tags, h1) \<Rightarrow> do {
            str \<leftarrow> tag_str E h1 time s tags;
            events \<leftarrow> object_foreach h1 te;
            r \<leftarrow> record_str E str events;
            b1 \<leftarrow> add_record r b;
            Some (h1, b1)
          })))"

definition pq_server :: "env \<Rightarrow> string \<times> jval \<Rightarrow> heap \<times> string list \<Rightarrow> (heap \<times> string list) option" where
  "pq_server E = (\<lambda>(s, se) (h, done').
     (case object_get_ex h se ''time'' of
        None \<Rightarrow> Some (h, done')
      | Some time \<Rightarrow> do {
          tuples \<leftarrow> object_foreach h se;
          (h1, b) \<leftarrow> foldM (pq_tuple E time s) tuples (h, empty_batch done');
          Some (h1, sent (send_query b))
        }))"

text \<open>The timer's callback, after \<open>get_shm_map\<close>: the state and the queries executed.\<close>

definition pq_insert :: "env \<Rightarrow> filters \<Rightarrow> stats \<Rightarrow> (stats \<times> string list) option" where
  "pq_insert E flt st = do {
     st1 \<leftarrow> group_ratesbytags E flt [''system'', ''fid'', ''server'', ''jid'', ''uid''] st;
     servers \<leftarrow> object_foreach (hp st1) (screen_map st1);
     (h, queries) \<leftarrow> foldM (pq_server E) servers (hp st1, []);
     Some (st1\<lparr>hp := h\<rparr>, queries)
   }"

text \<open>The records of a server, one after the other, and the final send.\<close>

fun add_all :: "string list \<Rightarrow> batch \<Rightarrow> batch option" where
  "add_all [] b = Some b"
| "add_all (r # rs) b = (case add_record r b of None \<Rightarrow> None | Some b' \<Rightarrow> add_all rs b')"

section \<open>Batching\<close>

definition payload_text :: "string list \<Rightarrow> string" where
  "payload_text g = pq_prefix @ concat g"

text \<open>No run of consecutive records fills the buffer to its last byte.\<close>

definition no_exact_fit :: "string list \<Rightarrow> bool" where
  "no_exact_fit rs \<longleftrightarrow> (\<forall>us g vs. rs = us @ g @ vs \<longrightarrow> length (payload_text g) \<noteq> query_cap)"

definition batched :: "string list \<Rightarrow> string list \<Rightarrow> batch \<Rightarrow> bool" where
  "batched done' ys b \<longleftrightarrow> (\<exists>gs g. concat gs @ g = ys \<and> [] \<notin> set gs \<and> (ys \<noteq> [] \<longrightarrow> g \<noteq> []) \<and>
    sent b = done' @ map (\<lambda>g. finish_query (payload_text g)) gs \<and>
    query b = payload_text g \<and> qcur b = length (query b) \<and> qcur b < query_cap)"

lemma add_record_room:
  assumes "query b = payload_text g" "qcur b = length (query b)" "qcur b + length r < query_cap"
  shows "add_record r b = Some (b\<lparr>qcur := length (payload_text (g @ [r])), query := payload_text (g @ [r])\<rparr>)"
  using assms by (simp add: add_record_def put_def payload_text_def)

lemma add_record_full:
  assumes "query b = payload_text g" "qcur b = length (query b)" "query_cap < qcur b + length r"
    and "concat g \<noteq> []" "length pq_prefix + length r < query_cap"
  shows "add_record r b = Some \<lparr>qcur = length (payload_text [r]), query = payload_text [r],
    sent = sent b @ [finish_query (payload_text g)]\<rparr>"
  using assms by (simp add: add_record_def put_def payload_text_def send_query_def)

lemma batched_step:
  assumes "batched done' ys b" "no_exact_fit (ys @ [r])" "\<forall>x \<in> set (ys @ [r]). x \<noteq> []"
    and "length pq_prefix + length r < query_cap"
  shows "ok (add_record r b) (batched done' (ys @ [r]))"
proof -
  obtain gs g where g: "concat gs @ g = ys" "[] \<notin> set gs" "ys \<noteq> [] \<longrightarrow> g \<noteq> []"
    "sent b = done' @ map (\<lambda>g. finish_query (payload_text g)) gs"
    "query b = payload_text g" "qcur b = length (query b)" "qcur b < query_cap"
    using assms(1) unfolding batched_def by blast
  have ne: "qcur b + length r \<noteq> query_cap"
  proof -
    have "ys @ [r] = concat gs @ (g @ [r]) @ []" using g(1) by simp
    then have "length (payload_text (g @ [r])) \<noteq> query_cap" using assms(2) unfolding no_exact_fit_def by blast
    then show ?thesis using g(5,6) by (simp add: payload_text_def)
  qed
  show ?thesis
  proof (cases "qcur b + length r < query_cap")
    case True
    then have eq: "add_record r b = Some (b\<lparr>qcur := length (payload_text (g @ [r])), query := payload_text (g @ [r])\<rparr>)"
      using add_record_room[OF g(5,6)] by blast
    have "length (payload_text (g @ [r])) < query_cap" using True g(5,6) by (simp add: payload_text_def)
    then show ?thesis
      unfolding eq ok_Some batched_def using g by (intro exI[of _ gs] exI[of _ "g @ [r]"]) auto
  next
    case False
    with ne have full: "query_cap < qcur b + length r" by simp
    have "g \<noteq> []"
    proof
      assume "g = []"
      then have "qcur b = length pq_prefix" using g(5,6) by (simp add: payload_text_def)
      with full assms(4) show False by simp
    qed
    then have "concat g \<noteq> []" using assms(3) g(1) by (cases g) auto
    then have eq: "add_record r b = Some \<lparr>qcur = length (payload_text [r]), query = payload_text [r],
        sent = sent b @ [finish_query (payload_text g)]\<rparr>"
      using add_record_full[OF g(5,6) full _ assms(4)] by blast
    have "length (payload_text [r]) < query_cap" using assms(4) by (simp add: payload_text_def)
    then show ?thesis
      unfolding eq ok_Some batched_def using g \<open>g \<noteq> []\<close>
      by (intro exI[of _ "gs @ [g]"] exI[of _ "[r]"]) auto
  qed
qed

lemma no_exact_fit_prefix: "no_exact_fit (xs @ ys) \<Longrightarrow> no_exact_fit xs"
  unfolding no_exact_fit_def by (metis append.assoc)

lemma add_all_append:
  "add_all (xs @ ys) b = (case add_all xs b of None \<Rightarrow> None | Some b' \<Rightarrow> add_all ys b')"
  by (induction xs arbitrary: b) (auto split: option.splits)

lemma batched_all:
  assumes "no_exact_fit rs" "\<forall>r \<in> set rs. r \<noteq> [] \<and> length pq_prefix + length r < query_cap"
  shows "ok (add_all rs (empty_batch done')) (batched done' rs)"
  using assms
proof (induction rs rule: rev_induct)
  case Nil
  have "batched done' [] (empty_batch done')"
    unfolding batched_def
    by (intro exI[of _ "[]"]) (simp add: empty_batch_def payload_text_def pq_prefix_def query_cap_def)
  then show ?case by simp
next
  case (snoc r rs)
  have "ok (add_all rs (empty_batch done')) (batched done' rs)"
    by (rule snoc.IH[OF no_exact_fit_prefix[OF snoc.prems(1)]]) (use snoc.prems(2) in auto)
  then obtain b where b: "add_all rs (empty_batch done') = Some b" "batched done' rs b" by (auto elim: okE)
  have "ok (add_record r b) (batched done' (rs @ [r]))"
    by (rule batched_step[OF b(2) snoc.prems(1)]) (use snoc.prems(2) in auto)
  then obtain b' where "add_record r b = Some b'" "batched done' (rs @ [r]) b'" by (auto elim: okE)
  with b show ?case by (simp add: add_all_append)
qed

section \<open>What reaches the database\<close>

definition insert_statement :: "string \<Rightarrow> bool" where
  "insert_statement q \<longleftrightarrow> take (length pq_prefix) q = pq_prefix \<and> length q < query_cap"

text \<open>The buffer starts with the head of the statement, and holds nothing or at least two characters after it.\<close>

definition headed :: "batch \<Rightarrow> bool" where
  "headed b \<longleftrightarrow> take (length pq_prefix) (query b) = pq_prefix \<and> length (query b) < query_cap \<and>
    (length (query b) = length pq_prefix \<and> qcur b = length pq_prefix \<or>
     Suc (Suc (length pq_prefix)) \<le> length (query b) \<and>
       (qcur b = length pq_prefix \<or> Suc (Suc (length pq_prefix)) \<le> qcur b)) \<and>
    (\<forall>q \<in> set (sent b). insert_statement q)"

lemma finish_headed:
  assumes "headed b" "length pq_prefix < length (query b)"
  shows "insert_statement (finish_query (query b))"
proof -
  have "take (length pq_prefix) ((query b)[length (query b) - 2 := c]) = take (length pq_prefix) (query b)" for c
    using assms unfolding headed_def by (intro take_update_cancel) auto
  then show ?thesis using assms by (simp add: insert_statement_def finish_query_def headed_def)
qed

lemma send_headed: "headed b \<Longrightarrow> \<forall>q \<in> set (sent (send_query b)). insert_statement q"
  using finish_headed[of b] by (auto simp: send_query_def headed_def)

lemma put_headed:
  assumes "headed b" "Suc (Suc 0) \<le> length r" "put query_cap r (qcur b, take (qcur b) (query b)) = Some (c, q)"
  shows "headed (b\<lparr>qcur := c, query := q\<rparr>)"
proof -
  let ?P = "length pq_prefix"
  have P: "?P < 100" "query_cap = 128000" by (simp_all add: pq_prefix_def query_cap_def)
  have c: "c = qcur b + length r" and cur: "qcur b \<le> query_cap"
    and q: "q = take (qcur b) (query b) @ take (query_cap - qcur b - 1) r"
    using assms(3) by (auto simp: put_def split: if_splits)
  have l: "length q = min (length (query b)) (qcur b) + min (length r) (query_cap - qcur b - 1)" by (simp add: q min.commute)
  have "?P \<le> qcur b" "?P \<le> length (query b)" "take ?P (query b) = pq_prefix" using assms(1) by (auto simp: headed_def)
  then have "take ?P q = pq_prefix" by (simp add: q min_def)
  moreover have "length q < query_cap" using l cur P assms(1) by (auto simp: headed_def min_def)
  moreover have "Suc (Suc ?P) \<le> length q" using l P assms(1,2) by (auto simp: headed_def min_def)
  ultimately show ?thesis using assms(1,2) c by (auto simp: headed_def)
qed

lemma add_record_headed:
  assumes "headed b" "Suc (Suc 0) \<le> length r"
  shows "whenever (add_record r b) headed"
proof -
  let ?b1 = "if query_cap < qcur b + length r then (send_query b)\<lparr>qcur := length pq_prefix\<rparr> else b"
  have "headed ?b1" using assms(1) send_headed[OF assms(1)] by (auto simp: headed_def send_query_def)
  then show ?thesis using put_headed[OF _ assms(2), of ?b1]
    unfolding add_record_def Let_def by (auto split: option.split)
qed

lemma put_all_grows: "put_all cap ts (c, buf) = Some (c', buf') \<Longrightarrow> length buf \<le> length buf'"
  by (induction ts arbitrary: c buf) (force simp: put_def split: option.splits if_splits)+

lemma record_long:
  assumes "record_str E tags events = Some r"
  shows "Suc (Suc 0) \<le> length r"
proof -
  obtain e es where e: "event_records E tags events = e # es" using assms
    by (cases "event_records E tags events") (auto simp: record_str_def)
  then have "e \<in> set (event_records E tags events)" by simp
  then have l: "Suc (Suc 0) \<le> length e" by (auto simp: event_records_def event_record_def)
  obtain c where "put_all 8192 (e # es) (0, '''') = Some (c, r)" using assms e by (auto simp: record_str_def)
  then have "put_all 8192 es (length e, take 8191 e) = Some (c, r)" by (simp add: put_def)
  from put_all_grows[OF this] l show ?thesis by simp
qed

lemma pq_tuple_headed:
  assumes "headed b"
  shows "whenever (pq_tuple E time s te (h, b)) (\<lambda>(h', b'). headed b')"
proof -
  obtain t v where te: "te = (t, v)" by (cases te)
  show ?thesis
  proof (cases "tokener_parse E t h")
    case None
    then show ?thesis using assms by (simp add: pq_tuple_def te)
  next
    case (Some r)
    obtain tags h1 where r: "r = (tags, h1)" by (cases r)
    have x: "whenever (record_str E str events) (\<lambda>r. whenever (add_record r b) headed)" for str events
      using add_record_headed[OF assms] record_long[of E str events] by (cases "record_str E str events") auto
    then have "whenever (tag_str E h1 time s tags) (\<lambda>str. whenever (object_foreach h1 v) (\<lambda>events.
        whenever (record_str E str events) (\<lambda>r. whenever (add_record r b) headed)))"
      unfolding whenever_def by simp
    then show ?thesis using assms Some r by (auto simp: pq_tuple_def te intro!: whenever_intro)
  qed
qed

lemma pq_server_statements:
  assumes "\<forall>q \<in> set qs. insert_statement q"
  shows "whenever (pq_server E se (h, qs)) (\<lambda>(h', qs'). \<forall>q \<in> set qs'. insert_statement q)"
proof -
  have P: "length pq_prefix < query_cap" by (simp add: pq_prefix_def query_cap_def)
  have "whenever (foldM (pq_tuple E time s) ts (h, empty_batch qs)) (\<lambda>(h', b). headed b)" for time s ts
    by (rule whenever_foldM_inv[where I = "\<lambda>(h', b). headed b"])
      (use assms P pq_tuple_headed in \<open>auto simp: headed_def empty_batch_def\<close>)
  then show ?thesis using assms send_headed
    by (cases se) (fastforce simp: pq_server_def whenever_def bind_eq_Some_conv split: option.splits prod.splits)
qed

lemma pq_insert_statements: "whenever (pq_insert E flt st) (\<lambda>(st', qs). \<forall>q \<in> set qs. insert_statement q)"
proof -
  have "whenever (foldM (pq_server E) ss (h, [])) (\<lambda>(h', qs). \<forall>q \<in> set qs. insert_statement q)" for ss h
    by (rule whenever_foldM_inv[where I = "\<lambda>(h', qs). \<forall>q \<in> set qs. insert_statement q"])
      (use pq_server_statements in auto)
  then show ?thesis unfolding pq_insert_def whenever_def bind_eq_Some_conv by (auto split: prod.splits)
qed

section \<open>Properties\<close>



text \<open>The off-by-one of the flush test: a record that fills the buffer to its last byte passes the test, loses its
  last byte to the terminator, and the semicolon that ends the query then replaces the closing
  parenthesis of the record instead of the comma.\<close>

theorem exact_fit_breaks_query:
  assumes "query b = pq_prefix @ body" "qcur b = length (query b)" "qcur b < query_cap"
    and "record = r @ ''), ''" "qcur b + length record = query_cap"
  shows "ok (add_record record b) (\<lambda>b'. query b' = pq_prefix @ body @ r @ ''),'' \<and>
    sent (send_query b') = sent b @ [pq_prefix @ body @ r @ '';,''])"
proof -
  have q: "query b @ take (query_cap - qcur b - 1) record = pq_prefix @ body @ r @ ''),''"
  proof -
    have "query_cap - qcur b - 1 = length (r @ ''),'')" using assms(4,5) by simp
    then show ?thesis using assms(1,4) by simp
  qed
  have "finish_query (pq_prefix @ body @ r @ ''),'') = pq_prefix @ body @ r @ '';,''"
    by (simp add: finish_query_def list_update_append)
  moreover have "add_record record b = Some (b\<lparr>qcur := query_cap, query := pq_prefix @ body @ r @ ''),''\<rparr>)"
    using assms(2,3,5) q by (simp add: add_record_def put_def)
  ultimately show ?thesis by (simp add: send_query_def)
qed

theorem exact_fit_breaks_query_witness:
  "\<exists>record b. ok (add_record record b) (\<lambda>b'. \<exists>body. sent (send_query b') = [pq_prefix @ body @ '';,''])"
proof -
  have len: "length pq_prefix = 87" by (simp add: pq_prefix_def)
  let ?r = "replicate (query_cap - 90) CHR ''1''"
  have "ok (add_record (?r @ ''), '') (empty_batch [])) (\<lambda>b'. query b' = pq_prefix @ [] @ ?r @ ''),'' \<and>
      sent (send_query b') = sent (empty_batch []) @ [pq_prefix @ [] @ ?r @ '';,''])"
    by (rule exact_fit_breaks_query[OF _ _ _ refl]) (simp_all add: empty_batch_def len query_cap_def)
  then show ?thesis
    by (intro exI[of _ "?r @ ''), ''"] exI[of _ "empty_batch []"])
      (auto elim!: ok_mono simp: empty_batch_def intro: exI[of _ ?r])
qed

text \<open>Idle tuples: a tuple of tags none of whose events is positive makes the code read its record buffer
  uninitialised (what is sent is then whatever the buffer holds, in practice the records of an
  earlier tuple once more).\<close>

theorem idle_tuple_undefined:
  assumes "tokener_parse E t h = Some (tags, h1)" "t \<noteq> ''time''" "node_of h1 te = Some (Obj events)"
    and "\<forall>(event, val) \<in> set events. get_double E val \<le> 0"
  shows "pq_tuple E time s (t, te) (h, b) = None"
proof -
  have "event_records E str events = []" for str
    using assms(4) by (auto simp: event_records_def filter_empty_conv)
  then have "record_str E str events = None" for str by (simp add: record_str_def)
  then show ?thesis
    using assms(1-3) by (cases "tag_str E h1 time s tags") (simp_all add: pq_tuple_def)
qed

theorem idle_tuple_undefined_witness:
  "pq_tuple (plain_env\<lparr>of_json := (\<lambda>_. Some (TObject []))\<rparr>) (JInt 5) ''mds1'' (''{}'', JRef 0)
    ([Obj [(''open'', JDouble 0)]], empty_batch []) = None"
proof (rule idle_tuple_undefined)
  show "tokener_parse (plain_env\<lparr>of_json := (\<lambda>_. Some (TObject []))\<rparr>) ''{}'' [Obj [(''open'', JDouble 0)]] =
      Some (JRef 1, [Obj [(''open'', JDouble 0)], Obj []])"
    by (simp add: tokener_parse_def new_node_def push_def)
  show "node_of [Obj [(''open'', JDouble 0)], Obj []] (JRef 0) = Some (Obj [(''open'', JDouble 0)])"
    by (simp add: node_of_def)
qed (simp_all add: get_double_def)

end
