(* ===== verification/Scan.thy ===== *)
theory Scan
  imports CText
begin

text \<open>
  The conversions of \<open>sscanf\<close> and \<open>fscanf\<close> that the collectors of the client use: unsigned numbers,
  words, and literal text, each reading from the front of the input and leaving the rest.  A conversion
  that does not match ends the call, which returns the number of conversions done before.

  The second half is the inverse: numbers printed in decimal are read back, by \<open>sscanf\<close> and by \<open>atoi\<close>.
\<close>

section \<open>Conversions\<close>

text \<open>\<open>%llu\<close> and \<open>%u\<close>: blanks, an optional sign, decimal digits.  As \<open>strtoull\<close>, a number beyond
  64 bits is read as the largest one, and a minus sign negates modulo \<open>2 ^ 64\<close>.\<close>

definition scan_u :: "string \<Rightarrow> (int64 \<times> string) option" where
  "scan_u s =
    (let (neg, t) = sign_of (dropWhile is_space s); ds = takeWhile is_digit t; n = dec_val ds;
         v = (if 2 ^ 64 \<le> n then - 1 else if neg then - word_of_nat n else word_of_nat n)
     in if ds = [] then None else Some (v, dropWhile is_digit t))"

text \<open>\<open>%s\<close>: blanks, then the longest run of other characters.\<close>

definition scan_s :: "string \<Rightarrow> (string \<times> string) option" where
  "scan_s s =
    (let t = dropWhile is_space s; w = takeWhile (\<lambda>c. \<not> is_space c) t
     in if w = [] then None else Some (w, dropWhile (\<lambda>c. \<not> is_space c) t))"

text \<open>A word of the format after a blank.\<close>

definition scan_word :: "string \<Rightarrow> string \<Rightarrow> string option" where
  "scan_word w s =
    (let t = dropWhile is_space s
     in if take (length w) t = w then Some (drop (length w) t) else None)"

section \<open>Decimal numbers\<close>

lemma is_digit_digit_char [simp]: "is_digit (digit_char d)"
  by (simp add: is_digit_def digit_char_def)

lemma digit_val_digit_char [simp]: "digit_val (digit_char d) = d mod 10"
  by (simp add: digit_val_def digit_char_def)

lemma is_digit_not_space: "is_digit c \<Longrightarrow> \<not> is_space c"
  by (auto simp: is_digit_def is_space_def)

lemma is_digit_no_sign: "is_digit c \<Longrightarrow> c \<noteq> CHR ''-'' \<and> c \<noteq> CHR ''+''"
  by (auto simp: is_digit_def)

lemma show_nat_digits: "c \<in> set (show_nat n) \<Longrightarrow> is_digit c"
proof (induction n rule: show_nat.induct)
  case (1 n)
  then show ?case by (subst (asm) (2) show_nat.simps) (auto split: if_splits)
qed

lemma show_nat_nonempty [simp]: "show_nat n \<noteq> []"
  by (subst show_nat.simps) simp

lemma dec_val_append: "dec_val (xs @ [c]) = 10 * dec_val xs + digit_val c"
  by (simp add: dec_val_def)

lemma dec_val_show_nat [simp]: "dec_val (show_nat n) = n"
proof (induction n rule: show_nat.induct)
  case (1 n)
  show ?case
  proof (cases "n < 10")
    case True
    then show ?thesis by (subst show_nat.simps) (simp add: dec_val_def)
  next
    case False
    with 1 have "dec_val (show_nat (n div 10) @ [digit_char n]) = n"
      by (simp add: dec_val_append)
    with False show ?thesis by (subst show_nat.simps) simp
  qed
qed

text \<open>Text that starts with something else than a digit ends a number, and blanks end a word.\<close>

definition stops :: "(char \<Rightarrow> bool) \<Rightarrow> string \<Rightarrow> bool" where
  "stops P s \<longleftrightarrow> s = [] \<or> \<not> P (hd s)"

lemma takeWhile_stops: "\<forall>c \<in> set w. P c \<Longrightarrow> stops P s \<Longrightarrow> takeWhile P (w @ s) = w"
  by (cases s) (auto simp: stops_def takeWhile_append2)

lemma dropWhile_stops: "\<forall>c \<in> set w. P c \<Longrightarrow> stops P s \<Longrightarrow> dropWhile P (w @ s) = s"
  by (cases s) (auto simp: stops_def dropWhile_append2)

lemma stops_space_digit: "stops is_digit (CHR '' '' # s)" "stops is_digit (newline # s)" "stops is_digit []"
  by (simp_all add: stops_def is_digit_def newline_def)

text \<open>The blanks before an item; the sources print one or more.\<close>

lemma skip_spaces: "\<forall>c \<in> set b. is_space c \<Longrightarrow> s \<noteq> [] \<Longrightarrow> \<not> is_space (hd s) \<Longrightarrow> dropWhile is_space (b @ s) = s"
  by (rule dropWhile_stops) (auto simp: stops_def)

lemma sign_of_show_nat: "sign_of (show_nat n @ s) = (False, show_nat n @ s)"
proof (cases "show_nat n")
  case (Cons c cs)
  then have "is_digit c" using show_nat_digits[of c n] by simp
  with Cons show ?thesis by (simp add: sign_of_def is_digit_no_sign)
qed simp

lemma hd_show_nat [simp]: "\<not> is_space (hd (show_nat n))"
proof (cases "show_nat n")
  case (Cons c cs)
  then have "is_digit c" using show_nat_digits[of c n] by simp
  with Cons show ?thesis by (simp add: is_digit_not_space)
qed (use show_nat_nonempty in blast)

lemma scan_show_nat:
  assumes "\<forall>c \<in> set b. is_space c" "stops is_digit s" "n < 2 ^ 64"
  shows "scan_u (b @ show_nat n @ s) = Some (word_of_nat n, s)"
proof -
  have "dropWhile is_space (b @ show_nat n @ s) = show_nat n @ s"
    by (rule skip_spaces[OF assms(1)]) simp_all
  then show ?thesis
    using takeWhile_stops[of "show_nat n" is_digit s] dropWhile_stops[of "show_nat n" is_digit s] assms(2,3)
    by (simp add: scan_u_def sign_of_show_nat show_nat_digits)
qed

lemma scan_s_word:
  assumes "\<forall>c \<in> set b. is_space c" "w \<noteq> []" "\<forall>c \<in> set w. \<not> is_space c" "stops (\<lambda>c. \<not> is_space c) s"
  shows "scan_s (b @ w @ s) = Some (w, s)"
proof -
  have "dropWhile is_space (b @ w @ s) = w @ s"
    by (rule skip_spaces[OF assms(1)]) (use assms(2,3) in \<open>auto simp: neq_Nil_conv\<close>)
  then show ?thesis
    using takeWhile_stops[of w "\<lambda>c. \<not> is_space c" s] dropWhile_stops[of w "\<lambda>c. \<not> is_space c" s] assms(2-4)
    by (simp add: scan_s_def)
qed

lemma scan_word_found:
  assumes "\<forall>c \<in> set b. is_space c" "w \<noteq> []" "\<not> is_space (hd w)"
  shows "scan_word w (b @ w @ s) = Some s"
proof -
  have "dropWhile is_space (b @ w @ s) = w @ s"
    by (rule skip_spaces[OF assms(1)]) (use assms(2,3) in simp_all)
  then show ?thesis by (simp add: scan_word_def)
qed

lemma atoi_show_nat: "atoi (show_nat n) = int n"
proof -
  have "dropWhile is_space (show_nat n) = show_nat n"
    using hd_show_nat[of n] by (cases "show_nat n") auto
  moreover have "takeWhile is_digit (show_nat n) = show_nat n"
    using show_nat_digits[of _ n] by (auto simp: takeWhile_eq_all_conv)
  moreover have "sign_of (show_nat n) = (False, show_nat n)" using sign_of_show_nat[of n "[]"] by simp
  ultimately show ?thesis by (simp only: atoi_def Let_def prod.case if_False dec_val_show_nat)
qed

end
