(* ===== verification/Collect.thy ===== *)
theory Collect
  imports Scan Json
begin

text \<open>
  The collectors of the client: \<open>client/collect.c\<close>, \<open>cpu.c\<close>, \<open>sysinfo.c\<close>, \<open>exports.c\<close>,
  \<open>target.c\<close>, \<open>llite.c\<close> and \<open>osc.c\<close>.

  The machine a client runs on is the record \<open>machine\<close>: its readable files, its directories in the
  order \<open>readdir\<close> gives (with the flag that the entry is a directory), its clock and its \<open>sysinfo\<close>.
  The collectors build fresh json objects that nothing else refers to, so the report is a tree.
  A collector is given the data array and returns its code with the extended array; \<open>None\<close> is
  undefined behaviour: a word of a file longer than the buffer it is read into, or a directory
  name from which more characters are cut than it has.
\<close>

section \<open>The machine and the device information\<close>

datatype device_class = MDS | OSS | OSC

record device_info =
  dev_hostname :: string
  dev_nid :: string
  dev_jid :: string
  dev_uid :: string
  llite_path :: string
  osc_path :: string
  oss_nid_path :: string
  class_str :: string
  dev_class :: device_class

record sysinfo =
  loads :: "int64 \<times> int64 \<times> int64"
  mem_unit :: int64
  freeram :: int64
  bufferram :: int64
  totalram :: int64

record machine =
  file_text :: "string \<Rightarrow> string option"
  dir_list :: "string \<Rightarrow> (string \<times> bool) list option"
  clock :: "int \<times> int"
  sys_info :: "sysinfo option"
  float_rnd :: "rat \<Rightarrow> rat"     \<comment> \<open>rounding of single precision arithmetic\<close>

type_synonym fields = "(string \<times> json) list"

section \<open>Files (collect.c)\<close>

definition blank_delims :: string where
  "blank_delims = '' :'' @ [CHR 0x09, CHR 0x0A, CHR 0x0B, CHR 0x0C, CHR 0x0D]"

text \<open>The line format \<open>%llu samples %s %*u %*u %llu\<close>: the count, the units, and the sum; \<open>None\<close>
  for what was not converted.\<close>

definition scan_stats :: "string \<Rightarrow> (int64 \<times> string option \<times> int64 option) option" where
  "scan_stats line =
    (case scan_u line of
       None \<Rightarrow> None
     | Some (count, r1) \<Rightarrow> Some (count,
         (case Option.bind (scan_word ''samples'' r1) scan_s of
            None \<Rightarrow> (None, None)
          | Some (units, r2) \<Rightarrow> (Some units, do {
              (mn, r3) \<leftarrow> scan_u r2;
              (mx, r4) \<leftarrow> scan_u r3;
              (sm, r5) \<leftarrow> scan_u r4;
              Some sm
            }))))"

definition collect_line :: "string \<Rightarrow> fields \<Rightarrow> fields option" where
  "collect_line line stats =
    (case strsep blank_delims line of
       (key, None) \<Rightarrow> Some stats
     | (key, Some rest) \<Rightarrow>
         if key = ''snapshot_time'' then Some stats
         else (case scan_stats rest of
             None \<Rightarrow> Some stats
           | Some (count, None, _) \<Rightarrow> Some (AList.update key (TInt count) stats)
           | Some (count, Some units, sm) \<Rightarrow>
               if 16 \<le> length units then None
               else (let stats1 = AList.update key (TInt count) stats
                     in case sm of
                          None \<Rightarrow> Some stats1
                        | Some t \<Rightarrow> Some (AList.update (snprintf_s 32 (key @ ''_'' @ units)) (TInt t) stats1))))"

definition collect_stats :: "machine \<Rightarrow> string \<Rightarrow> fields \<Rightarrow> (int \<times> fields) option" where
  "collect_stats M path stats =
    (case file_text M path of
       None \<Rightarrow> Some (-1, stats)
     | Some contents \<Rightarrow> map_option (Pair 0) (foldM collect_line (getlines contents) stats))"

definition collect_single :: "machine \<Rightarrow> string \<Rightarrow> fields \<Rightarrow> string \<Rightarrow> int \<times> fields" where
  "collect_single M filepath stats key =
    (case Option.bind (file_text M filepath) scan_u of
       None \<Rightarrow> (-1, stats)
     | Some (val, r) \<Rightarrow> (0, AList.update key (TInt val) stats))"

definition collect_string :: "machine \<Rightarrow> string \<Rightarrow> fields \<Rightarrow> string \<Rightarrow> (int \<times> fields) option" where
  "collect_string M filepath stats key =
    (case Option.bind (file_text M filepath) scan_s of
       None \<Rightarrow> Some (-1, stats)
     | Some (val, r) \<Rightarrow> if 32 \<le> length val then None else Some (0, AList.update key (TString val) stats))"

text \<open>The end of every collector: a report without statistics is dropped.\<close>

definition add_report :: "fields \<Rightarrow> fields \<Rightarrow> json list \<Rightarrow> json list" where
  "add_report tags_json stats_json jarray =
    (if stats_json \<noteq> [] then jarray @ [TObject (AList.update ''stats'' (TObject stats_json) tags_json)]
     else jarray)"

section \<open>Processor and memory (cpu.c, sysinfo.c)\<close>

fun scan_us :: "nat \<Rightarrow> string \<Rightarrow> int64 list" where
  "scan_us 0 s = []"
| "scan_us (Suc n) s = (case scan_u s of None \<Rightarrow> [] | Some (v, r) \<Rightarrow> v # scan_us n r)"

definition cpu_events :: "string list" where
  "cpu_events = [''user'', ''nice'', ''system'', ''idle'', ''iowait'', ''irq'', ''softirq'']"

text \<open>The numbers after \<open>cpu\<close> in the first line that starts with it; what is missing is 0.\<close>

definition cpu_values :: "string \<Rightarrow> int64 list" where
  "cpu_values contents =
    (let vs = (case List.find (\<lambda>l. take 4 l = ''cpu '') (getlines contents) of
         None \<Rightarrow> []
       | Some line \<Rightarrow> (case strsep blank_delims line of (cpu, None) \<Rightarrow> [] | (cpu, Some rest) \<Rightarrow> scan_us 7 rest))
     in vs @ replicate (7 - length vs) 0)"

definition collect_cpu :: "machine \<Rightarrow> json list \<Rightarrow> int \<times> json list" where
  "collect_cpu M jarray =
    (case file_text M ''/proc/stat'' of
       None \<Rightarrow> (-1, jarray)
     | Some contents \<Rightarrow> (0, add_report [(''stats_type'', TString ''cpu'')]
         (zip cpu_events (map TInt (cpu_values contents))) jarray))"

definition f_load :: rat where
  "f_load = 1 / 65536"

definition load_avg :: "machine \<Rightarrow> int64 \<Rightarrow> json" where
  "load_avg M l = TDouble (float_rnd M (f_load * float_rnd M (rat_of_nat (unat l))))"

definition collect_sysinfo :: "machine \<Rightarrow> json list \<Rightarrow> int \<times> json list" where
  "collect_sysinfo M jarray =
    (case sys_info M of
       None \<Rightarrow> (-1, jarray)
     | Some i \<Rightarrow> (case loads i of (l1, l5, l15) \<Rightarrow>
         (0, add_report [(''stats_type'', TString ''sysinfo'')]
           [(''loadavg1m'', load_avg M l1), (''loadavg5m'', load_avg M l5), (''loadavg15m'', load_avg M l15),
            (''freeram'', TInt (mem_unit i * freeram i)), (''bufferram'', TInt (mem_unit i * bufferram i)),
            (''totalram'', TInt (mem_unit i * totalram i))] jarray)))"

section \<open>Servers (exports.c, target.c)\<close>

definition visible :: "(string \<times> bool) list \<Rightarrow> string list" where
  "visible es = map fst (filter (\<lambda>(name, is_dir). is_dir \<and> take 1 name \<noteq> ''.'') es)"

definition path_cat :: "string \<Rightarrow> string \<Rightarrow> string" where
  "path_cat p name = snprintf_s 256 (p @ ''/'' @ name)"

definition collect_export ::
    "machine \<Rightarrow> string \<Rightarrow> string \<Rightarrow> string \<Rightarrow> string \<Rightarrow> json list \<Rightarrow> json list option" where
  "collect_export M exportpath ty target nid jarray = do {
     (rc, stats_json) \<leftarrow> collect_stats M (snprintf_s 256 (exportpath @ ''/'' @ nid @ ''/stats'')) [];
     Some (add_report [(''stats_type'', TString ty), (''target'', TString target), (''client_nid'', TString nid)]
       stats_json jarray)
   }"

definition collect_exports_of ::
    "machine \<Rightarrow> string \<Rightarrow> string \<Rightarrow> string \<Rightarrow> json list \<Rightarrow> json list option" where
  "collect_exports_of M typepath ty target jarray =
    (let exportpath = snprintf_s 256 (typepath @ ''/'' @ target @ ''/exports'')
     in case dir_list M exportpath of
          None \<Rightarrow> Some jarray
        | Some es \<Rightarrow> foldM (collect_export M exportpath ty target) (visible es) jarray)"

text \<open>For a client (\<open>OSC\<close>) the path and the type would not be initialised.\<close>

definition collect_exports :: "machine \<Rightarrow> device_class \<Rightarrow> json list \<Rightarrow> (int \<times> json list) option" where
  "collect_exports M cls jarray = do {
     (typepath, ty) \<leftarrow> (case cls of
         MDS \<Rightarrow> Some (''/proc/fs/lustre/mdt'', ''mds'')
       | OSS \<Rightarrow> Some (''/proc/fs/lustre/obdfilter'', ''oss'')
       | OSC \<Rightarrow> None);
     (case dir_list M typepath of
        None \<Rightarrow> Some (-1, jarray)
      | Some es \<Rightarrow> map_option (Pair 0) (foldM (collect_exports_of M typepath ty) (visible es) jarray))
   }"

definition target_files :: "string list" where
  "target_files = [''filesfree'', ''filestotal'', ''kbytesavail'', ''kbytesfree'', ''kbytestotal'']"

definition collect_one_target :: "machine \<Rightarrow> string \<Rightarrow> string option \<Rightarrow> string \<Rightarrow> json list \<Rightarrow> json list option" where
  "collect_one_target M typepath type' target jarray = do {
     ty \<leftarrow> type';
     let devpath = path_cat typepath target;
     let stats_json = fold (\<lambda>k st. snd (collect_single M (path_cat devpath k) st k)) target_files [];
     Some (add_report [(''stats_type'', TString ty), (''target'', TString target)] stats_json jarray)
   }"

definition collect_target :: "machine \<Rightarrow> device_class \<Rightarrow> json list \<Rightarrow> (int \<times> json list) option" where
  "collect_target M cls jarray =
    (case dir_list M ''/proc/fs/lustre/osd-ldiskfs'' of
       None \<Rightarrow> Some (-1, jarray)
     | Some es \<Rightarrow> map_option (Pair 0)
         (foldM (collect_one_target M ''/proc/fs/lustre/osd-ldiskfs''
           (case cls of MDS \<Rightarrow> Some ''mdt'' | OSS \<Rightarrow> Some ''ost'' | OSC \<Rightarrow> None)) (visible es) jarray))"

section \<open>Clients (llite.c, osc.c)\<close>

text \<open>The terminator is written \<open>k\<close> characters before the end of the name.\<close>

definition trim_name :: "nat \<Rightarrow> string \<Rightarrow> string option" where
  "trim_name k name = (if k \<le> length name then Some (take (length name - k) name) else None)"

definition llite_files :: "string list" where
  "llite_files = [''max_cached_mb'', ''read_ahead_stats'', ''stats'', ''statahead_stats'', ''unstable_stats'']"

definition collect_files :: "machine \<Rightarrow> string \<Rightarrow> string list \<Rightarrow> fields option" where
  "collect_files M devpath ks =
    foldM (\<lambda>k st. map_option snd (collect_stats M (path_cat devpath k) st)) ks []"

definition collect_one_llite :: "machine \<Rightarrow> string \<Rightarrow> string \<Rightarrow> json list \<Rightarrow> json list option" where
  "collect_one_llite M base name jarray =
    (let devpath = path_cat base name
     in if length name < 16 then Some jarray
        else do {
          target \<leftarrow> trim_name 17 name;
          stats_json \<leftarrow> collect_files M devpath llite_files;
          Some (add_report [(''stats_type'', TString ''llite''), (''target'', TString target)] stats_json jarray)
        })"

definition collect_llite :: "machine \<Rightarrow> string \<Rightarrow> json list \<Rightarrow> (int \<times> json list) option" where
  "collect_llite M base jarray =
    (case dir_list M base of
       None \<Rightarrow> Some (-1, jarray)
     | Some es \<Rightarrow> map_option (Pair 0) (foldM (collect_one_llite M base) (visible es) jarray))"

definition collect_one_osc ::
    "machine \<Rightarrow> string \<Rightarrow> string \<Rightarrow> string \<Rightarrow> json list \<Rightarrow> json list option" where
  "collect_one_osc M nid_base base name jarray =
    (let osspath = snprintf_s 256 (nid_base @ ''/'' @ name @ ''/ost_conn_uuid''); devpath = path_cat base name
     in if length name < 16 then Some jarray
        else do {
          target \<leftarrow> trim_name 21 name;
          (rc, tags_json) \<leftarrow> collect_string M osspath
            [(''stats_type'', TString ''osc''), (''target'', TString target)] ''server_nid'';
          stats_json \<leftarrow> collect_files M devpath [''stats''];
          Some (add_report tags_json stats_json jarray)
        })"

definition collect_osc :: "machine \<Rightarrow> string \<Rightarrow> string \<Rightarrow> json list \<Rightarrow> (int \<times> json list) option" where
  "collect_osc M nid_base base jarray =
    (case dir_list M nid_base of
       None \<Rightarrow> Some (-1, jarray)
     | Some es \<Rightarrow> map_option (Pair 0) (foldM (collect_one_osc M nid_base base) (visible es) jarray))"

section \<open>The report (collect_devices)\<close>

definition report_head :: "env \<Rightarrow> machine \<Rightarrow> device_info \<Rightarrow> fields \<Rightarrow> fields" where
  "report_head E M info jobj =
    (let (sec, nsec) = clock M;
         j1 = AList.update ''time''
           (TDouble (fl E (rat_of_int sec + fl E (fl E (1 / 10 ^ 9) * rat_of_int nsec)))) jobj;
         j2 = AList.update ''nid'' (TString (dev_nid info))
           (AList.update ''hostname'' (TString (dev_hostname info))
             (AList.update ''obdclass'' (TString (class_str info)) j1))
     in if dev_class info = OSC
        then AList.update ''uid'' (TString (dev_uid info)) (AList.update ''jid'' (TString (dev_jid info)) j2)
        else j2)"

definition collect_data :: "machine \<Rightarrow> device_info \<Rightarrow> json list option" where
  "collect_data M info =
    (let (rc1, d1) = collect_sysinfo M []; (rc2, d2) = collect_cpu M d1
     in do {
       d4 \<leftarrow> (if dev_class info = MDS \<or> dev_class info = OSS then do {
           (rc3, d3) \<leftarrow> collect_exports M (dev_class info) d2;
           (rc4, d4) \<leftarrow> collect_target M (dev_class info) d3;
           Some d4
         } else Some d2);
       (if dev_class info = OSC then do {
           (rc5, d5) \<leftarrow> collect_llite M (llite_path info) d4;
           (rc6, d6) \<leftarrow> collect_osc M (oss_nid_path info) (osc_path info) d5;
           Some d6
         } else Some d4)
     })"

definition collect_devices :: "env \<Rightarrow> machine \<Rightarrow> device_info \<Rightarrow> fields \<Rightarrow> fields option" where
  "collect_devices E M info jobj = do {
     data_json \<leftarrow> collect_data M info;
     Some (AList.update ''data'' (TArray data_json) (report_head E M info jobj))
   }"

end
