(* ===== verification/Reports.thy ===== *)
theory Reports
  imports Collect
begin

text \<open>
  What the collectors of the client promise.  Every collector only appends well-typed entries to the
  data array (locale \<open>collector\<close>, interpreted for the six of them), a statistics file is read back as
  what the file system wrote into it, and collection is defined on a machine whose names and words have
  the lengths the code relies on.
\<close>

section \<open>Well-typed entries\<close>

definition numeric :: "json \<Rightarrow> bool" where
  "numeric t \<longleftrightarrow> (\<exists>i. t = TInt i) \<or> (\<exists>d. t = TDouble d)"

definition numbers :: "fields \<Rightarrow> bool" where
  "numbers st \<longleftrightarrow> distinct (keys st) \<and> (\<forall>(k, t) \<in> set st. numeric t)"

definition texts :: "fields \<Rightarrow> bool" where
  "texts fs \<longleftrightarrow> distinct (keys fs) \<and> (\<forall>(k, t) \<in> set fs. k \<noteq> ''stats'' \<and> (\<exists>s. t = TString s))"

definition report_ok :: "json \<Rightarrow> bool" where
  "report_ok t \<longleftrightarrow> (\<exists>tags st ty. t = TObject (tags @ [(''stats'', TObject st)]) \<and> texts tags \<and>
    numbers st \<and> st \<noteq> [] \<and> map_of tags ''stats_type'' = Some (TString ty))"

lemma set_update_cases: "(j, y) \<in> set (AList.update k x kvs) \<Longrightarrow> (j, y) = (k, x) \<or> (j, y) \<in> set kvs"
  by (induction kvs) (auto split: if_splits)

lemma numbers_update: "numbers st \<Longrightarrow> numeric t \<Longrightarrow> numbers (AList.update k t st)"
  by (auto simp: numbers_def dest!: set_update_cases)

lemma numbers_Nil [simp]: "numbers []"
  by (simp add: numbers_def)

lemma numeric_int [simp]: "numeric (TInt i)"
  by (simp add: numeric_def)

lemma texts_update: "texts fs \<Longrightarrow> k \<noteq> ''stats'' \<Longrightarrow> texts (AList.update k (TString s) fs)"
  by (auto simp: texts_def dest!: set_update_cases)

lemma collect_line_numbers: "numbers st \<Longrightarrow> whenever (collect_line l st) numbers"
  unfolding collect_line_def
  by (auto split: prod.splits option.splits simp: Let_def intro!: numbers_update)

lemma collect_stats_numbers: "numbers st \<Longrightarrow> whenever (collect_stats M path st) (\<lambda>(rc, st'). numbers st')"
proof -
  assume st: "numbers st"
  have "whenever (foldM collect_line ls st) numbers" for ls
    by (rule whenever_foldM_inv[where I = numbers, OF st]) (rule collect_line_numbers)
  then show ?thesis using st by (auto simp: collect_stats_def whenever_def split: option.splits)
qed

lemma collect_files_numbers: "whenever (collect_files M p ks) numbers"
  unfolding collect_files_def
proof (rule whenever_foldM_inv[where I = numbers])
  fix k st
  assume st: "numbers st"
  then show "whenever (map_option snd (collect_stats M (path_cat p k) st)) numbers"
    using collect_stats_numbers[OF st, of M "path_cat p k"] by (auto simp: whenever_def)
qed simp

lemma collect_single_numbers: "numbers st \<Longrightarrow> numbers (snd (collect_single M p st k))"
  by (auto simp: collect_single_def split: option.splits intro: numbers_update)

lemma fold_single_numbers: "numbers st \<Longrightarrow> numbers (fold (\<lambda>k st. snd (collect_single M (f k) st k)) ks st)"
  by (induction ks arbitrary: st) (simp_all add: collect_single_numbers)

text \<open>The step all collectors end with.\<close>

definition extends :: "json list \<Rightarrow> json list \<Rightarrow> bool" where
  "extends arr arr' \<longleftrightarrow> (\<exists>new. arr' = arr @ new \<and> (\<forall>t \<in> set new. report_ok t))"

lemma extends_refl [simp]: "extends arr arr"
  by (simp add: extends_def)

lemma extends_trans: "extends a b \<Longrightarrow> extends b c \<Longrightarrow> extends a c"
  by (auto simp: extends_def)

lemma extends_report:
  assumes "texts tags" "map_of tags ''stats_type'' = Some (TString ty)" "numbers st"
  shows "extends arr (add_report tags st arr)"
proof -
  have "''stats'' \<notin> set (keys tags)" using assms(1) by (auto simp: texts_def)
  then have "AList.update ''stats'' (TObject st) tags = tags @ [(''stats'', TObject st)]"
    by (rule update_fresh)
  then show ?thesis using assms by (auto simp: extends_def add_report_def report_ok_def)
qed

lemma extends_foldM:
  assumes "\<And>x t. x \<in> set xs \<Longrightarrow> whenever (f x t) (extends t)"
  shows "whenever (foldM f xs arr) (extends arr)"
  by (rule whenever_foldM_inv[where I = "extends arr"])
    (auto intro: whenever_mono[OF assms] extends_trans)

section \<open>The interface\<close>

locale collector =
  fixes collect :: "json list \<Rightarrow> (int \<times> json list) option"
  assumes appends: "collect arr = Some (rc, arr') \<Longrightarrow> extends arr arr'"
    and fails_clean: "collect arr = Some (rc, arr') \<Longrightarrow> rc < 0 \<Longrightarrow> arr' = arr"
    and code: "collect arr = Some (rc, arr') \<Longrightarrow> rc \<in> {-1, 0}"
begin

lemma collect_extends: "whenever (collect arr) (\<lambda>(rc, arr'). extends arr arr')"
  by (auto simp: whenever_def dest: appends)

lemma collect_keeps: "\<forall>t \<in> set arr. report_ok t \<Longrightarrow> collect arr = Some (rc, arr') \<Longrightarrow> \<forall>t \<in> set arr'. report_ok t"
  by (drule appends) (auto simp: extends_def)

lemma grown_success: "collect arr = Some (rc, arr') \<Longrightarrow> arr' \<noteq> arr \<Longrightarrow> rc = 0"
  using fails_clean code by fastforce

end

text \<open>The collectors that walk a directory.\<close>

lemma directory_collector:
  assumes "\<And>arr. c arr = (case d of None \<Rightarrow> Some (-1, arr) | Some es \<Rightarrow> map_option (Pair 0) (foldM f (visible es) arr))"
    and "\<And>x t. whenever (f x t) (extends t)"
  shows "collector c"
proof
  fix arr rc arr'
  assume c: "c arr = Some (rc, arr')"
  have "whenever (foldM f xs arr) (extends arr)" for xs
    by (rule extends_foldM) (rule assms(2))
  then show "extends arr arr'"
    using c by (auto simp: assms(1) whenever_def split: option.splits)
  show "rc < 0 \<Longrightarrow> arr' = arr" "rc \<in> {-1, 0}"
    using c by (auto simp: assms(1) split: option.splits)
qed

lemma report_tags: "texts [(''stats_type'', TString ty)]" "texts [(''stats_type'', TString ty), (''target'', TString t)]"
  "texts [(''stats_type'', TString ty), (''target'', TString t), (''client_nid'', TString n)]"
  by (simp_all add: texts_def)

section \<open>The six collectors\<close>

lemma length_cpu_values: "length (cpu_values contents) = 7"
proof -
  have us: "length (scan_us n s) \<le> n" for n s
    by (induction n s rule: scan_us.induct) (auto split: option.splits)
  show ?thesis using us[of 7] by (auto simp: cpu_values_def Let_def split: option.splits prod.splits)
qed

lemma cpu_numbers: "numbers (zip cpu_events (map TInt (cpu_values contents)))"
proof -
  have "keys (zip cpu_events (map TInt (cpu_values contents))) = cpu_events"
    by (simp add: length_cpu_values cpu_events_def)
  moreover have "distinct cpu_events" by (simp add: cpu_events_def)
  ultimately show ?thesis by (auto simp: numbers_def dest!: set_zip_rightD)
qed

interpretation cpu: collector "\<lambda>jarray. Some (collect_cpu M jarray)"
  by unfold_locales (auto simp: collect_cpu_def split: option.splits
    intro!: extends_report cpu_numbers report_tags)

interpretation sysinfo: collector "\<lambda>jarray. Some (collect_sysinfo M jarray)"
  by unfold_locales (auto simp: collect_sysinfo_def load_avg_def numbers_def numeric_def split: option.splits prod.splits
    intro!: extends_report report_tags)

lemma collect_export_extends: "whenever (collect_export M p ty target nid arr) (extends arr)"
  using collect_stats_numbers[of "[]" M "snprintf_s 256 (p @ ''/'' @ nid @ ''/stats'')"]
  by (auto simp: collect_export_def whenever_def bind_eq_Some_conv intro!: extends_report report_tags)

lemma collect_exports_of_extends: "whenever (collect_exports_of M p ty target arr) (extends arr)"
  by (auto simp: collect_exports_of_def Let_def intro!: whenever_intro extends_foldM collect_export_extends)

interpretation exports: collector "collect_exports M cls"
proof (cases cls)
  case MDS
  show "collector (collect_exports M cls)"
    by (rule directory_collector[where d = "dir_list M ''/proc/fs/lustre/mdt''"
          and f = "collect_exports_of M ''/proc/fs/lustre/mdt'' ''mds''"])
      (simp_all add: collect_exports_def MDS collect_exports_of_extends)
next
  case OSS
  show "collector (collect_exports M cls)"
    by (rule directory_collector[where d = "dir_list M ''/proc/fs/lustre/obdfilter''"
          and f = "collect_exports_of M ''/proc/fs/lustre/obdfilter'' ''oss''"])
      (simp_all add: collect_exports_def OSS collect_exports_of_extends)
next
  case OSC
  show "collector (collect_exports M cls)"
    by unfold_locales (simp_all add: collect_exports_def OSC)
qed

lemma collect_one_target_extends: "whenever (collect_one_target M p ty target arr) (extends arr)"
  using fold_single_numbers[OF numbers_Nil, of M "path_cat (path_cat p target)"]
  by (auto simp: collect_one_target_def whenever_def bind_eq_Some_conv Let_def intro!: extends_report report_tags)

interpretation target: collector "collect_target M cls"
  by (rule directory_collector[OF collect_target_def collect_one_target_extends])

lemma collect_one_llite_extends: "whenever (collect_one_llite M base name arr) (extends arr)"
  using collect_files_numbers[of M "path_cat base name" llite_files]
  by (auto simp: collect_one_llite_def whenever_def bind_eq_Some_conv Let_def intro!: extends_report report_tags)

interpretation llite: collector "collect_llite M base"
  by (rule directory_collector[OF collect_llite_def collect_one_llite_extends])

lemma collect_string_texts:
  "texts fs \<Longrightarrow> k \<notin> {''stats'', ''stats_type''} \<Longrightarrow>
    whenever (collect_string M p fs k) (\<lambda>(rc, fs'). texts fs' \<and> map_of fs' ''stats_type'' = map_of fs ''stats_type'')"
  by (auto simp: collect_string_def intro!: whenever_intro texts_update split: option.splits if_splits)

lemma collect_one_osc_extends: "whenever (collect_one_osc M nid_base base name arr) (extends arr)"
proof -
  have "whenever (collect_string M p [(''stats_type'', TString ''osc''), (''target'', TString t)] ''server_nid'')
      (\<lambda>(rc, fs). texts fs \<and> map_of fs ''stats_type'' = Some (TString ''osc''))" for p t
    using collect_string_texts[OF report_tags(2), of "''server_nid''" M p "''osc''" t] by simp
  then show ?thesis
    using collect_files_numbers[of M "path_cat base name" "[''stats'']"]
    unfolding collect_one_osc_def whenever_def
    by (fastforce simp: bind_eq_Some_conv Let_def split: if_splits intro!: extends_report)
qed

interpretation osc: collector "collect_osc M nid_base base"
  by (rule directory_collector[OF collect_osc_def collect_one_osc_extends])

section \<open>Statistics files\<close>

text \<open>A line of a Lustre statistics file: the name of the event, blanks, the number of samples, the unit
  in brackets, and for some events the least, the largest and the sum of the values.\<close>

record stat_entry =
  ev_name :: string
  ev_gap :: nat
  ev_count :: nat
  ev_units :: string
  ev_values :: "(nat \<times> nat \<times> nat) option"

definition stat_line :: "stat_entry \<Rightarrow> string" where
  "stat_line e = ev_name e @ replicate (Suc (ev_gap e)) CHR '' '' @ show_nat (ev_count e) @ '' samples '' @ ev_units e @
    (case ev_values e of
       None \<Rightarrow> ''''
     | Some (mn, mx, sm) \<Rightarrow> '' '' @ show_nat mn @ '' '' @ show_nat mx @ '' '' @ show_nat sm)"

definition stat_entry_ok :: "stat_entry \<Rightarrow> bool" where
  "stat_entry_ok e \<longleftrightarrow> set (ev_name e) \<inter> set blank_delims = {} \<and> ev_name e \<noteq> ''snapshot_time'' \<and>
    ev_count e < 2 ^ 64 \<and> ev_units e \<noteq> '''' \<and> (\<forall>c \<in> set (ev_units e). \<not> is_space c) \<and> length (ev_units e) < 16 \<and>
    (\<forall>mn mx sm. ev_values e = Some (mn, mx, sm) \<longrightarrow> mn < 2 ^ 64 \<and> mx < 2 ^ 64 \<and> sm < 2 ^ 64)"

text \<open>What the entry contributes to the statistics.\<close>

definition stat_fields :: "stat_entry \<Rightarrow> fields \<Rightarrow> fields" where
  "stat_fields e st =
    (let st1 = AList.update (ev_name e) (TInt (word_of_nat (ev_count e))) st
     in case ev_values e of
          None \<Rightarrow> st1
        | Some (mn, mx, sm) \<Rightarrow>
            AList.update (snprintf_s 32 (ev_name e @ ''_'' @ ev_units e)) (TInt (word_of_nat sm)) st1)"

lemma scan_stats_line:
  assumes "stat_entry_ok e"
  shows "scan_stats (replicate n CHR '' '' @ show_nat (ev_count e) @ '' samples '' @ ev_units e @
      (case ev_values e of
         None \<Rightarrow> ''''
       | Some (mn, mx, sm) \<Rightarrow> '' '' @ show_nat mn @ '' '' @ show_nat mx @ '' '' @ show_nat sm) @ [newline]) =
    Some (word_of_nat (ev_count e), Some (ev_units e), map_option (\<lambda>(mn, mx, sm). word_of_nat sm) (ev_values e))"
proof -
  let ?tail = "(case ev_values e of
         None \<Rightarrow> ''''
       | Some (mn, mx, sm) \<Rightarrow> '' '' @ show_nat mn @ '' '' @ show_nat mx @ '' '' @ show_nat sm) @ [newline]"
  have sp: "\<forall>c \<in> set (replicate n CHR '' ''). is_space c" "\<forall>c \<in> set '' ''. is_space c"
    by (simp_all add: is_space_def)
  have st: "stops (\<lambda>c. \<not> is_space c) ?tail"
    by (cases "ev_values e") (auto simp: stops_def is_space_def newline_def)
  have u: "scan_u (replicate n CHR '' '' @ show_nat (ev_count e) @ '' samples '' @ ev_units e @ ?tail) =
      Some (word_of_nat (ev_count e), '' samples '' @ ev_units e @ ?tail)"
    by (rule scan_show_nat[OF sp(1)]) (use assms stops_space_digit in \<open>auto simp: stat_entry_ok_def\<close>)
  have w: "scan_word ''samples'' ('' '' @ ''samples'' @ ('' '' @ ev_units e @ ?tail)) = Some ('' '' @ ev_units e @ ?tail)"
    by (rule scan_word_found[OF sp(2)]) (simp_all add: is_space_def)
  have s: "scan_s ('' '' @ ev_units e @ ?tail) = Some (ev_units e, ?tail)"
    by (rule scan_s_word[OF sp(2) _ _ st]) (use assms in \<open>auto simp: stat_entry_ok_def\<close>)
  have n: "scan_u ('' '' @ show_nat k @ r) = Some (word_of_nat k, r)" if "stops is_digit r" "k < 2 ^ 64" for k r
    by (rule scan_show_nat[OF sp(2) that])
  show ?thesis
  proof (cases "ev_values e")
    case None
    have "scan_u [newline] = None" by (simp add: scan_u_def sign_of_def is_space_def newline_def)
    then show ?thesis using u w s None by (simp add: scan_stats_def)
  next
    case (Some t)
    obtain mn mx sm where t: "t = (mn, mx, sm)" by (cases t)
    have "mn < 2 ^ 64" "mx < 2 ^ 64" "sm < 2 ^ 64" using assms Some t by (auto simp: stat_entry_ok_def)
    then show ?thesis
      using u w s Some t n[of "'' '' @ show_nat mx @ '' '' @ show_nat sm @ [newline]" mn]
        n[of "'' '' @ show_nat sm @ [newline]" mx] n[of "[newline]" sm]
      by (simp add: scan_stats_def stops_space_digit)
  qed
qed

lemma collect_stat_line:
  assumes "stat_entry_ok e"
  shows "collect_line (stat_line e @ [newline]) st = Some (stat_fields e st)"
proof -
  have "strsep blank_delims (ev_name e @ CHR '' '' # r) = (ev_name e, Some r)" for r
    by (rule strsep_found) (use assms in \<open>auto simp: stat_entry_ok_def blank_delims_def\<close>)
  then show ?thesis
    using assms scan_stats_line[OF assms, of "ev_gap e"]
    by (cases "ev_values e") (auto simp: collect_line_def stat_line_def stat_fields_def stat_entry_ok_def Let_def)
qed

lemma stat_line_no_newline: "stat_entry_ok e \<Longrightarrow> newline \<notin> set (stat_line e)"
proof -
  assume e: "stat_entry_ok e"
  have d: "newline \<notin> set (show_nat n)" for n
    using show_nat_digits[of newline n] by (auto simp: is_digit_def newline_def)
  have "newline \<in> set blank_delims" "is_space newline"
    by (simp_all add: blank_delims_def newline_def is_space_def)
  then have "newline \<notin> set (ev_name e)" "newline \<notin> set (ev_units e)" using e by (auto simp: stat_entry_ok_def)
  moreover have "newline \<notin> set '' samples ''" "newline \<noteq> CHR '' ''" by (simp_all add: newline_def)
  ultimately show ?thesis by (cases "ev_values e") (auto simp: stat_line_def d simp del: replicate_Suc)
qed

lemma collect_stat_lines:
  assumes "\<forall>e \<in> set es. stat_entry_ok e"
  shows "foldM collect_line (getlines (concat (map (\<lambda>e. stat_line e @ [newline]) es))) st = Some (fold stat_fields es st)"
  using assms
proof (induction es arbitrary: st)
  case (Cons e es)
  then have e: "stat_entry_ok e" by simp
  have "getlines (concat (map (\<lambda>e. stat_line e @ [newline]) (e # es))) =
      (stat_line e @ [newline]) # getlines (concat (map (\<lambda>e. stat_line e @ [newline]) es))"
    using getlines_line[OF stat_line_no_newline[OF e]] by simp
  with Cons collect_stat_line[OF e] show ?case by simp
qed simp

section \<open>Machines on which collection is defined\<close>

definition words_short :: "string \<Rightarrow> bool" where
  "words_short contents \<longleftrightarrow> (\<forall>line \<in> set (getlines contents). \<forall>key rest count units sm.
    strsep blank_delims line = (key, Some rest) \<longrightarrow> scan_stats rest = Some (count, Some units, sm) \<longrightarrow> length units < 16)"

definition uuid_short :: "machine \<Rightarrow> string \<Rightarrow> bool" where
  "uuid_short M path \<longleftrightarrow> (\<forall>w r. Option.bind (file_text M path) scan_s = Some (w, r) \<longrightarrow> length w < 32)"

definition names_ok :: "machine \<Rightarrow> string \<Rightarrow> (nat \<Rightarrow> bool) \<Rightarrow> bool" where
  "names_ok M base P \<longleftrightarrow> (\<forall>es. dir_list M base = Some es \<longrightarrow> (\<forall>name \<in> set (visible es). P (length name)))"

definition machine_ok :: "machine \<Rightarrow> device_info \<Rightarrow> bool" where
  "machine_ok M info \<longleftrightarrow>
    (\<forall>path contents. file_text M path = Some contents \<longrightarrow> words_short contents) \<and>
    (\<forall>path. uuid_short M path) \<and>
    names_ok M (llite_path info) (\<lambda>n. n \<noteq> 16) \<and> names_ok M (oss_nid_path info) (\<lambda>n. n < 16 \<or> 21 \<le> n)"

abbreviation defined :: "'a option \<Rightarrow> bool" where
  "defined m \<equiv> ok m (\<lambda>_. True)"

lemma defined_foldM: "(\<And>x t. x \<in> set xs \<Longrightarrow> defined (f x t)) \<Longrightarrow> defined (foldM f xs s)"
  by (rule ok_foldM_inv[where I = "\<lambda>_. True"]) auto

lemma defined_map_option [simp]: "defined (map_option f m) = defined m"
  by (auto simp: ok_def)

lemma defined_bind: "defined m \<Longrightarrow> (\<And>x. defined (f x)) \<Longrightarrow> defined (m \<bind> f)"
  by (rule ok_bind) auto

lemma collect_stats_defined:
  assumes "\<forall>contents. file_text M path = Some contents \<longrightarrow> words_short contents"
  shows "defined (collect_stats M path st)"
proof (cases "file_text M path")
  case (Some contents)
  have "defined (collect_line l t)" if l: "l \<in> set (getlines contents)" for l t
  proof -
    have w: "words_short contents" using assms Some by simp
    show ?thesis
    proof (cases "strsep blank_delims l")
      case (Pair key r)
      then show ?thesis using w l unfolding words_short_def
        by (fastforce simp: collect_line_def Let_def split: option.splits)
    qed
  qed
  then show ?thesis by (simp add: collect_stats_def Some defined_foldM)
qed (simp add: collect_stats_def)

lemma directory_defined:
  assumes "\<And>es name t. d = Some es \<Longrightarrow> name \<in> set (visible es) \<Longrightarrow> defined (f name t)"
  shows "defined (case d of None \<Rightarrow> Some (-1, arr) | Some es \<Rightarrow> map_option (Pair 0) (foldM f (visible es) arr))"
  using assms by (cases d) (auto intro: defined_foldM)

lemma trim_defined: "k \<le> length name \<Longrightarrow> defined (trim_name k name)"
  by (simp add: trim_name_def)

text \<open>The parts of the report.\<close>

lemma report_head_eq:
  "\<exists>d. report_head E M info [] = [(''time'', TDouble d), (''obdclass'', TString (class_str info)),
      (''hostname'', TString (dev_hostname info)), (''nid'', TString (dev_nid info))] @
    (if dev_class info = OSC then [(''jid'', TString (dev_jid info)), (''uid'', TString (dev_uid info))] else [])"
  by (cases "clock M") (simp add: report_head_def)

lemma collect_data_ok: "whenever (collect_data M info) (\<lambda>data. \<forall>t \<in> set data. report_ok t)"
proof -
  obtain rc1 d1 where d1: "collect_sysinfo M [] = (rc1, d1)" by (cases "collect_sysinfo M []")
  obtain rc2 d2 where d2: "collect_cpu M d1 = (rc2, d2)" by (cases "collect_cpu M d1")
  have "\<forall>t \<in> set d2. report_ok t"
    using sysinfo.collect_keeps[of "[]" M rc1 d1] cpu.collect_keeps[of d1 M rc2 d2] d1 d2 by simp
  then show ?thesis
    by (cases "dev_class info")
      (auto simp: collect_data_def d1 d2 whenever_def bind_eq_Some_conv
        dest!: exports.collect_keeps[rotated] target.collect_keeps[rotated] llite.collect_keeps[rotated]
          osc.collect_keeps[rotated])
qed

lemma exports_defined:
  assumes "machine_ok M info" "cls \<noteq> OSC"
  shows "defined (collect_exports M cls arr)"
proof -
  have x: "defined (collect_exports_of M p ty target arr)" for p ty target arr
    unfolding collect_exports_of_def collect_export_def Let_def using assms(1)
    by (auto intro!: ok_case_option defined_foldM defined_bind collect_stats_defined simp: machine_ok_def split: option.split)
  show ?thesis
    using assms(2) by (cases cls) (auto simp: collect_exports_def intro!: directory_defined x)
qed

lemma target_defined: "cls \<noteq> OSC \<Longrightarrow> defined (collect_target M cls arr)"
  by (cases cls) (auto simp: collect_target_def collect_one_target_def intro!: directory_defined)

lemma files_defined: "machine_ok M info \<Longrightarrow> defined (collect_files M p ks)"
  unfolding collect_files_def by (intro defined_foldM) (auto simp: machine_ok_def intro!: collect_stats_defined)

lemma llite_defined:
  assumes "machine_ok M info"
  shows "defined (collect_llite M (llite_path info) arr)"
  unfolding collect_llite_def
proof (rule directory_defined)
  fix es name t
  assume "dir_list M (llite_path info) = Some es" "name \<in> set (visible es)"
  then have "length name \<noteq> 16" using assms by (auto simp: machine_ok_def names_ok_def)
  then show "defined (collect_one_llite M (llite_path info) name t)"
    by (auto simp: collect_one_llite_def Let_def intro!: defined_bind trim_defined files_defined[OF assms])
qed

lemma osc_defined:
  assumes "machine_ok M info"
  shows "defined (collect_osc M (oss_nid_path info) (osc_path info) arr)"
  unfolding collect_osc_def
proof (rule directory_defined)
  fix es name t
  assume "dir_list M (oss_nid_path info) = Some es" "name \<in> set (visible es)"
  then have "length name < 16 \<or> 21 \<le> length name" using assms by (auto simp: machine_ok_def names_ok_def)
  moreover have "defined (collect_string M p fs k)" for p fs k
    using assms unfolding machine_ok_def uuid_short_def by (fastforce simp: collect_string_def split: option.split)
  ultimately show "defined (collect_one_osc M (oss_nid_path info) (osc_path info) name t)"
    by (auto simp: collect_one_osc_def Let_def intro!: defined_bind trim_defined files_defined[OF assms])
qed

lemma devices_defined:
  assumes "machine_ok M info"
  shows "defined (collect_devices E M info jobj)"
proof -
  obtain rc1 d1 where d1: "collect_sysinfo M [] = (rc1, d1)" by (cases "collect_sysinfo M []")
  obtain rc2 d2 where d2: "collect_cpu M d1 = (rc2, d2)" by (cases "collect_cpu M d1")
  have "defined (collect_data M info)"
    using exports_defined[OF assms] target_defined llite_defined[OF assms] osc_defined[OF assms]
    by (cases "dev_class info") (auto simp: collect_data_def d1 d2 intro!: defined_bind)
  then show ?thesis by (auto simp: collect_devices_def intro!: defined_bind)
qed

section \<open>A sample machine\<close>

text \<open>A metadata server with one target and one client.\<close>

definition sample_entries :: "stat_entry list" where
  "sample_entries =
    [\<lparr>ev_name = ''open'', ev_gap = 20, ev_count = 3, ev_units = ''[reqs]'', ev_values = None\<rparr>,
     \<lparr>ev_name = ''read'', ev_gap = 9, ev_count = 2, ev_units = ''[bytes]'', ev_values = Some (4, 6, 10)\<rparr>]"

definition sample_stats_path :: string where
  "sample_stats_path = ''/proc/fs/lustre/mdt/blue-MDT0000/exports/10.0.0.7@o2ib/stats''"

definition sample_machine :: machine where
  "sample_machine =
    \<lparr>file_text = [''/proc/stat'' \<mapsto> ''cpu 1 2 3 4 5 6 7'',
       sample_stats_path \<mapsto> concat (map (\<lambda>e. stat_line e @ [newline]) sample_entries)],
     dir_list = [''/proc/fs/lustre/mdt'' \<mapsto> [(''.'', True), (''blue-MDT0000'', True)],
       ''/proc/fs/lustre/mdt/blue-MDT0000/exports'' \<mapsto> [(''clear'', False), (''10.0.0.7@o2ib'', True)],
       ''/sys/kernel/debug/lustre/llite'' \<mapsto> [(''blue-ffff88010203'', True)]],
     clock = (100, 0), sys_info = None, float_rnd = (\<lambda>x. x)\<rparr>"

definition sample_info :: device_info where
  "sample_info = \<lparr>dev_hostname = ''mds1'', dev_nid = ''10.0.0.1@o2ib'', dev_jid = ''-'', dev_uid = ''-'',
    llite_path = ''/proc/fs/lustre/llite'', osc_path = ''/proc/fs/lustre/osc'', oss_nid_path = ''/proc/fs/lustre/osc'',
    class_str = ''mds'', dev_class = MDS\<rparr>"

lemma sample_entries_ok: "\<forall>e \<in> set sample_entries. stat_entry_ok e"
  by (simp add: sample_entries_def stat_entry_ok_def blank_delims_def is_space_def)

lemma sample_machine_stats:
  "file_text sample_machine sample_stats_path = Some (concat (map (\<lambda>e. stat_line e @ [newline]) sample_entries))"
  by (simp add: sample_machine_def)

text \<open>Reading the lines back gives words of at most seven characters.\<close>

lemma stat_lines_short:
  assumes "\<forall>e \<in> set es. stat_entry_ok e"
  shows "words_short (concat (map (\<lambda>e. stat_line e @ [newline]) es))"
  using assms
proof (induction es)
  case Nil
  then show ?case by (simp add: words_short_def)
next
  case (Cons e es)
  then have e: "stat_entry_ok e" by simp
  have l: "getlines (concat (map (\<lambda>e. stat_line e @ [newline]) (e # es))) =
      (stat_line e @ [newline]) # getlines (concat (map (\<lambda>e. stat_line e @ [newline]) es))"
    using getlines_line[OF stat_line_no_newline[OF e]] by simp
  have "strsep blank_delims (ev_name e @ CHR '' '' # r) = (ev_name e, Some r)" for r
    by (rule strsep_found) (use e in \<open>auto simp: stat_entry_ok_def blank_delims_def\<close>)
  then have "length units < 16"
    if "strsep blank_delims (stat_line e @ [newline]) = (key, Some rest)" "scan_stats rest = Some (count, Some units, sm)"
    for key rest count units sm
    using that scan_stats_line[OF e, of "ev_gap e"] e by (auto simp: stat_line_def stat_entry_ok_def)
  with Cons show ?case unfolding words_short_def l by auto
qed

lemma sample_machine_ok: "machine_ok sample_machine sample_info"
proof -
  have "getlines ''cpu 1 2 3 4 5 6 7'' = [''cpu 1 2 3 4 5 6 7'']" by (rule getlines_last) (simp_all add: newline_def)
  then have "words_short ''cpu 1 2 3 4 5 6 7''"
    by (simp add: words_short_def strsep_def blank_delims_def scan_stats_def scan_u_def scan_word_def is_space_def
        sign_of_def is_digit_def Let_def del: getlines.simps)
  moreover have "words_short (concat (map (\<lambda>e. stat_line e @ [newline]) sample_entries))"
    by (rule stat_lines_short[OF sample_entries_ok])
  moreover have "uuid_short sample_machine path" for path
    by (auto simp: uuid_short_def sample_machine_def sample_entries_def stat_line_def scan_s_def is_space_def
        newline_def Let_def split: if_splits)
  ultimately show ?thesis
    by (auto simp: machine_ok_def names_ok_def sample_machine_def sample_info_def)
qed

section \<open>Properties\<close>

text \<open>The report of a client has the type the server expects, whatever is in the file system: a time, an object
  class, a host name and a nid, the job and user of a Lustre client, and an array of entries each with its type,
  other textual tags, and a non-empty object of numbers.\<close>

theorem report_well_typed:
  assumes "collect_devices E M info [] = Some jobj"
  shows "\<exists>d data. map_of jobj ''time'' = Some (TDouble d) \<and> map_of jobj ''data'' = Some (TArray data) \<and>
    map_of jobj ''hostname'' = Some (TString (dev_hostname info)) \<and> map_of jobj ''nid'' = Some (TString (dev_nid info)) \<and>
    map_of jobj ''obdclass'' = Some (TString (class_str info)) \<and>
    (''jid'' \<in> set (keys jobj) \<longleftrightarrow> dev_class info = OSC) \<and> distinct (keys jobj) \<and> (\<forall>t \<in> set data. report_ok t)"
proof -
  obtain data where d: "collect_data M info = Some data" "jobj = AList.update ''data'' (TArray data) (report_head E M info [])"
    using assms by (auto simp: collect_devices_def bind_eq_Some_conv)
  have "\<forall>t \<in> set data. report_ok t" using collect_data_ok[of M info] d(1) by simp
  then show ?thesis using report_head_eq[of E M info] d(2) by (auto split: if_splits)
qed

theorem report_well_typed_witness:
  "\<exists>jobj d data. collect_devices plain_env sample_machine sample_info [] = Some jobj \<and>
    map_of jobj ''time'' = Some (TDouble d) \<and> map_of jobj ''data'' = Some (TArray data) \<and> (\<forall>t \<in> set data. report_ok t)"
proof -
  obtain jobj where "collect_devices plain_env sample_machine sample_info [] = Some jobj"
    using devices_defined[OF sample_machine_ok, of plain_env "[]"] by (auto simp: ok_def)
  with report_well_typed[OF this] show ?thesis by blast
qed

text \<open>C21. A statistics file is read back as it was written: after reading the lines of any list of entries, the
  statistics hold exactly the counts and sums of these entries.\<close>

theorem stats_file_round_trip:
  assumes "file_text M path = Some (concat (map (\<lambda>e. stat_line e @ [newline]) es))"
    and "\<forall>e \<in> set es. stat_entry_ok e"
  shows "collect_stats M path st = Some (0, fold stat_fields es st)"
  using collect_stat_lines[OF assms(2)] assms(1) by (simp add: collect_stats_def)

theorem stats_file_round_trip_witness:
  "collect_stats sample_machine sample_stats_path [] =
    Some (0, [(''open'', TInt 3), (''read'', TInt 2), (''read_[bytes]'', TInt 10)])"
proof -
  have "fold stat_fields sample_entries [] = [(''open'', TInt 3), (''read'', TInt 2), (''read_[bytes]'', TInt 10)]"
    by (simp add: sample_entries_def stat_fields_def snprintf_s_def)
  then show ?thesis using stats_file_round_trip[OF sample_machine_stats sample_entries_ok, of "[]"] by simp
qed

text \<open>Collection is defined, that is the client neither overruns a buffer nor cuts more than a name has, on
  every machine whose statistics units have less than 16 characters, whose uuids have less than 32, and whose
  device names do not have a length the two cutting rules miss.\<close>

theorem collect_devices_defined:
  assumes "machine_ok M info"
  shows "defined (collect_devices E M info jobj)"
  by (rule devices_defined[OF assms])

theorem collect_devices_defined_witness: "defined (collect_devices plain_env sample_machine sample_info [])"
  by (rule collect_devices_defined[OF sample_machine_ok])

text \<open>The check of the name length is weaker than the cut: an llite directory whose name has 16 characters
  passes the check, and the terminator is written before the name.\<close>

theorem short_obd_name_undefined:
  assumes "dir_list M base = Some es" "name \<in> set (visible es)" "length name = 16"
  shows "collect_llite M base arr = None"
proof -
  have n: "collect_one_llite M base name t = None" for t
    using assms(3) by (simp add: collect_one_llite_def trim_name_def Let_def)
  obtain us vs where "visible es = us @ name # vs" using assms(2) by (metis split_list)
  then show ?thesis using n by (simp add: collect_llite_def assms(1) foldM_append split: option.split)
qed

theorem short_obd_name_undefined_witness:
  "collect_llite (sample_machine\<lparr>dir_list := [''/proc/fs/lustre/llite'' \<mapsto> [(''blue-ffff8801020'', True)]]\<rparr>)
    ''/proc/fs/lustre/llite'' [] = None"
  by (rule short_obd_name_undefined[where es = "[(''blue-ffff8801020'', True)]" and name = "''blue-ffff8801020''"])
    (simp_all add: visible_def)

end
