(* ===== verification/Devices.thy ===== *)
theory Devices
  imports Collect
begin

text \<open>
  \<open>client/lfs_utils.c\<close>: what the client finds out about its host when it starts.  The devices file gives
  the class of the host (metadata server, object server or client), the file of the network interfaces its
  nid.  The buffers have fixed sizes and \<open>sscanf\<close> writes without a limit, so a longer word is undefined.
\<close>

section \<open>The constructor devices\_discover\<close>

text \<open>\<open>%s\<close> conversions into buffers of the given sizes; the words converted, and the rest.\<close>

fun scan_words :: "nat list \<Rightarrow> string \<Rightarrow> (string list \<times> string) option" where
  "scan_words [] s = Some ([], s)"
| "scan_words (cap # caps) s =
    (case scan_s s of
       None \<Rightarrow> Some ([], s)
     | Some (w, r) \<Rightarrow> if cap \<le> length w then None
         else (case scan_words caps r of None \<Rightarrow> None | Some (ws, r') \<Rightarrow> Some (w # ws, r')))"

text \<open>The device type of a line of the devices file, if all six conversions succeed.\<close>

definition device_type :: "string \<Rightarrow> string option option" where
  "device_type line =
    (case scan_u line of
       None \<Rightarrow> Some None
     | Some (num, r) \<Rightarrow>
         (case scan_words [32, 32, 64, 64] r of
            None \<Rightarrow> None
          | Some ([state, type', detail, uuid], r') \<Rightarrow> Some (if scan_u r' = None then None else Some type')
          | Some (ws, r') \<Rightarrow> Some None))"

definition class_of :: "string \<Rightarrow> (device_class \<times> string) option" where
  "class_of type' =
    (if type' = ''mdt'' then Some (MDS, ''mds'')
     else if type' = ''obdfilter'' then Some (OSS, ''oss'')
     else if type' = ''osc'' then Some (OSC, ''osc'')
     else None)"

fun discover_class :: "string list \<Rightarrow> device_info \<Rightarrow> device_info option" where
  "discover_class [] info = Some info"
| "discover_class (line # ls) info =
    (case device_type line of
       None \<Rightarrow> None
     | Some t \<Rightarrow>
         (case Option.bind t class_of of
            None \<Rightarrow> discover_class ls info
          | Some (c, s) \<Rightarrow> Some (info\<lparr>dev_class := c, class_str := s\<rparr>)))"

text \<open>The local variable \<open>nid\<close> keeps its value when a line has no word; before the first word it is not
  initialised.\<close>

fun discover_nid :: "env \<Rightarrow> string list \<Rightarrow> string option \<Rightarrow> device_info \<Rightarrow> device_info option" where
  "discover_nid E [] nid info = Some info"
| "discover_nid E (line # ls) nid info =
    (case scan_words [32] line of
       None \<Rightarrow> None
     | Some (ws, r) \<Rightarrow>
         (case (if ws = [] then nid else Some (hd ws)) of
            None \<Rightarrow> None
          | Some n \<Rightarrow>
              if strstr n ''@o2ib'' then Some (info\<lparr>dev_nid := snprintf_fmt E 32 n\<rparr>)
              else discover_nid E ls (Some n) info))"

definition blank_info :: "string \<Rightarrow> device_info" where
  "blank_info hostname = \<lparr>dev_hostname = hostname, dev_nid = ''-'', dev_jid = ''-'', dev_uid = ''-'',
    llite_path = '''', osc_path = '''', oss_nid_path = '''', class_str = '''', dev_class = MDS\<rparr>"

text \<open>\<open>devices_path\<close> with the paths that go with it, and \<open>nid_path\<close>: the first file of the two that opens.\<close>

definition open_devices :: "machine \<Rightarrow> device_info \<Rightarrow> (string \<times> device_info) option" where
  "open_devices M info =
    (case file_text M ''/sys/kernel/debug/lustre/devices'' of
       Some contents \<Rightarrow> Some (contents, info\<lparr>llite_path := ''/sys/kernel/debug/lustre/llite'',
         osc_path := ''/sys/kernel/debug/lustre/osc'', oss_nid_path := ''/sys/fs/lustre/osc''\<rparr>)
     | None \<Rightarrow>
         (case file_text M ''/proc/fs/lustre/devices'' of
            Some contents \<Rightarrow> Some (contents, info\<lparr>llite_path := ''/proc/fs/lustre/llite'',
              osc_path := ''/proc/fs/lustre/osc'', oss_nid_path := ''/proc/fs/lustre/osc''\<rparr>)
          | None \<Rightarrow> None))"

definition open_nis :: "machine \<Rightarrow> string option" where
  "open_nis M =
    (case file_text M ''/sys/kernel/debug/lnet/nis'' of
       Some contents \<Rightarrow> Some contents
     | None \<Rightarrow> file_text M ''/proc/sys/lnet/nis'')"

text \<open>Without a file of network interfaces the program prints the path buffer, which it has not set.\<close>

definition devices_discover :: "env \<Rightarrow> machine \<Rightarrow> string \<Rightarrow> device_info option" where
  "devices_discover E M hostname =
    (case open_devices M (blank_info hostname) of
       None \<Rightarrow> Some (blank_info hostname)
     | Some (devs, info) \<Rightarrow> do {
         info1 \<leftarrow> discover_class (getlines devs) info;
         nis \<leftarrow> open_nis M;
         discover_nid E (getlines nis) None info1
       })"

section \<open>Device lines\<close>

record device =
  dv_num :: nat
  dv_state :: string
  dv_type :: string
  dv_detail :: string
  dv_uuid :: string
  dv_refs :: nat

definition word_ok :: "nat \<Rightarrow> string \<Rightarrow> bool" where
  "word_ok cap w \<longleftrightarrow> w \<noteq> '''' \<and> (\<forall>c \<in> set w. \<not> is_space c) \<and> length w < cap"

definition device_ok :: "device \<Rightarrow> bool" where
  "device_ok d \<longleftrightarrow> dv_num d < 2 ^ 64 \<and> dv_refs d < 2 ^ 64 \<and> word_ok 32 (dv_state d) \<and> word_ok 32 (dv_type d) \<and>
    word_ok 64 (dv_detail d) \<and> word_ok 64 (dv_uuid d)"

definition device_line :: "device \<Rightarrow> string" where
  "device_line d = '' '' @ show_nat (dv_num d) @ '' '' @ dv_state d @ '' '' @ dv_type d @ '' '' @ dv_detail d @ '' '' @
    dv_uuid d @ '' '' @ show_nat (dv_refs d) @ [newline]"

lemma blank: "\<forall>c \<in> set '' ''. is_space c"
  by (simp add: is_space_def)

lemma scan_words_step:
  assumes "word_ok cap w" "stops (\<lambda>c. \<not> is_space c) s"
  shows "scan_words (cap # caps) ('' '' @ w @ s) =
    (case scan_words caps s of None \<Rightarrow> None | Some (ws, r') \<Rightarrow> Some (w # ws, r'))"
  using scan_s_word[OF blank, of w s] assms by (simp add: word_ok_def)

lemma stops_blank: "stops (\<lambda>c. \<not> is_space c) ('' '' @ s)"
  by (simp add: stops_def is_space_def)

lemma device_type_line:
  assumes "device_ok d"
  shows "device_type (device_line d) = Some (Some (dv_type d))"
proof -
  let ?r5 = "'' '' @ show_nat (dv_refs d) @ [newline]"
  let ?r4 = "'' '' @ dv_uuid d @ ?r5"
  let ?r3 = "'' '' @ dv_detail d @ ?r4"
  let ?r2 = "'' '' @ dv_type d @ ?r3"
  let ?r1 = "'' '' @ dv_state d @ ?r2"
  have ok: "word_ok 32 (dv_state d)" "word_ok 32 (dv_type d)" "word_ok 64 (dv_detail d)" "word_ok 64 (dv_uuid d)"
    "dv_num d < 2 ^ 64" "dv_refs d < 2 ^ 64" using assms by (auto simp: device_ok_def)
  have "stops is_digit ?r1" by (simp add: stops_def is_digit_def)
  then have n: "scan_u ('' '' @ show_nat (dv_num d) @ ?r1) = Some (word_of_nat (dv_num d), ?r1)"
    using scan_show_nat[OF blank _ ok(5)] by blast
  have r: "scan_u ?r5 = Some (word_of_nat (dv_refs d), [newline])"
    using scan_show_nat[OF blank stops_space_digit(2)[of "[]"] ok(6)] by simp
  have w: "scan_words [32, 32, 64, 64] ?r1 = Some ([dv_state d, dv_type d, dv_detail d, dv_uuid d], ?r5)"
    using scan_words_step[OF ok(1) stops_blank, of "[32, 64, 64]"] scan_words_step[OF ok(2) stops_blank, of "[64, 64]"]
      scan_words_step[OF ok(3) stops_blank, of "[64]"] scan_words_step[OF ok(4) stops_blank, of "[]"]
    by (simp only: scan_words.simps(1) option.case prod.case)
  show ?thesis using n w r by (simp add: device_type_def device_line_def)
qed

text \<open>The lines of the printed file.\<close>

lemma device_line_ends:
  assumes "device_ok d"
  shows "\<exists>l. device_line d = l @ [newline] \<and> newline \<notin> set l"
proof -
  have w: "newline \<notin> set w" if "word_ok n w" for n w using that by (auto simp: word_ok_def is_space_def newline_def)
  have d: "newline \<notin> set (show_nat n)" for n
    using show_nat_digits[of newline n] by (auto simp: is_digit_def newline_def)
  have "newline \<noteq> CHR '' ''" by (simp add: newline_def)
  then show ?thesis using assms
    by (auto simp: device_line_def device_ok_def d dest: w intro!: exI[of _ "butlast (device_line d)"])
qed

lemma getlines_devices:
  "\<forall>d \<in> set ds. device_ok d \<Longrightarrow> getlines (concat (map device_line ds)) = map device_line ds"
proof (induction ds)
  case (Cons d ds)
  then obtain l where "device_line d = l @ [newline]" "newline \<notin> set l" using device_line_ends[of d] by auto
  with Cons getlines_line[of l "concat (map device_line ds)"] show ?case by simp
qed simp

section \<open>Properties\<close>

text \<open>C40. The class of a host is that of its first device whose type decides: a list of well-formed device
  lines, read back by the client, gives class and class name by the first line of type mdt,
  obdfilter or osc, and leaves the information unchanged if there is none.\<close>

theorem class_by_first_device:
  assumes "\<forall>d \<in> set ds. device_ok d"
  shows "discover_class (getlines (concat (map device_line ds))) info = Some
    (case List.find (\<lambda>d. class_of (dv_type d) \<noteq> None) ds of
       None \<Rightarrow> info
     | Some d \<Rightarrow> info\<lparr>dev_class := fst (the (class_of (dv_type d))), class_str := snd (the (class_of (dv_type d)))\<rparr>)"
  unfolding getlines_devices[OF assms] using assms
proof (induction ds)
  case (Cons d ds)
  then show ?case by (cases "class_of (dv_type d)") (auto simp: device_type_line)
qed simp

theorem class_by_first_device_witness:
  "discover_class (getlines (concat (map device_line
      [\<lparr>dv_num = 0, dv_state = ''UP'', dv_type = ''osd-ldiskfs'', dv_detail = ''blue-OST0000-osd'', dv_uuid = ''u'', dv_refs = 4\<rparr>,
       \<lparr>dv_num = 3, dv_state = ''UP'', dv_type = ''obdfilter'', dv_detail = ''blue-OST0000'', dv_uuid = ''v'', dv_refs = 4\<rparr>])))
      (blank_info ''oss1'') = Some ((blank_info ''oss1'')\<lparr>dev_class := OSS, class_str := ''oss''\<rparr>)"
  using class_by_first_device[of
      "[\<lparr>dv_num = 0, dv_state = ''UP'', dv_type = ''osd-ldiskfs'', dv_detail = ''blue-OST0000-osd'', dv_uuid = ''u'', dv_refs = 4\<rparr>,
       \<lparr>dv_num = 3, dv_state = ''UP'', dv_type = ''obdfilter'', dv_detail = ''blue-OST0000'', dv_uuid = ''v'', dv_refs = 4\<rparr>]"
      "blank_info ''oss1''"]
  by (simp add: device_ok_def word_ok_def is_space_def class_of_def)

text \<open>A host without Lustre reports itself as a metadata server: when no devices file can be read, the
  discovery succeeds, the class is the zero of the enumeration, and the class name is empty.\<close>

theorem undiscovered_host_is_mds:
  assumes "file_text M ''/sys/kernel/debug/lustre/devices'' = None" "file_text M ''/proc/fs/lustre/devices'' = None"
  shows "ok (devices_discover E M hostname) (\<lambda>info. dev_class info = MDS \<and> class_str info = '''' \<and> dev_nid info = ''-'' \<and>
    dev_hostname info = hostname)"
  using assms by (simp add: devices_discover_def open_devices_def blank_info_def)

theorem undiscovered_host_is_mds_witness:
  "ok (devices_discover plain_env \<lparr>file_text = (\<lambda>_. None), dir_list = (\<lambda>_. None), clock = (0, 0), sys_info = None,
      float_rnd = (\<lambda>x. x)\<rparr> ''login1'') (\<lambda>info. dev_class info = MDS \<and> class_str info = '''' \<and> dev_nid info = ''-'' \<and>
    dev_hostname info = ''login1'')"
  by (rule undiscovered_host_is_mds) simp_all

end
