(* ===== verification/Screen.thy ===== *)
theory Screen
  imports Grouping Options Shm
begin

text \<open>
  The viewer \<open>pfstop\<close> (\<open>server/screen.c\<close>): its state, the key commands, the timer that loads and
  regroups the shared map, the rows of the table with their sorting, and the text it prints.

  The terminal is output only: \<open>screen_refresh_cb\<close> returns the texts it prints with their line and
  column.  The size of the terminal, the clock, the user and the text of \<open>ctime\<close> are arguments, and
  so is the \<open>qsort\<close> behind \<open>json_object_array_sort\<close>, whose result C leaves open when the
  comparison is not consistent.  C integers are \<open>int\<close>; that they stay in 32 bits is a property.
\<close>

section \<open>State\<close>

record screen =
  sst :: stats
  groupby :: int
  detailed :: bool
  scroll_start :: int
  scroll_delta :: int
  status_bar :: string
  status_bar_time :: double
  sortbykey :: string
  da_refresh_flag :: bool
  scrdata_array :: jval
  screvents :: jval
  da_len :: int
  refresh_pending :: bool
  quit :: bool

text \<open>\<open>screen_init\<close> and the assignments of \<open>screen_start\<close>.\<close>

definition screen_start :: "stats \<Rightarrow> screen" where
  "screen_start s =
    (let (arr, h1) = new_array (hp s); (evs, h2) = new_object h1
     in \<lparr>sst = s\<lparr>hp := h2\<rparr>, groupby = 0, detailed = False, scroll_start = 0, scroll_delta = 0, status_bar = '''',
         status_bar_time = 0, sortbykey = ''load_eff'', da_refresh_flag = True, scrdata_array = arr, screvents = evs,
         da_len = 0, refresh_pending = False, quit = False\<rparr>)"

definition screen_refresh :: "screen \<Rightarrow> screen" where
  "screen_refresh s = s\<lparr>refresh_pending := True\<rparr>"

text \<open>\<open>status_bar_printf\<close> of a formatted text.\<close>

definition status_bar_printf :: "double \<Rightarrow> string \<Rightarrow> screen \<Rightarrow> screen" where
  "status_bar_printf ev_now t s = s\<lparr>status_bar := snprintf_s 256 t, status_bar_time := ev_now\<rparr>"

lemma status_bar_printf_fields [simp]:
  "sst (status_bar_printf now t s) = sst s" "scroll_start (status_bar_printf now t s) = scroll_start s"
  "scroll_delta (status_bar_printf now t s) = scroll_delta s" "da_len (status_bar_printf now t s) = da_len s"
  "groupby (status_bar_printf now t s) = groupby s" "detailed (status_bar_printf now t s) = detailed s"
  "sortbykey (status_bar_printf now t s) = sortbykey s" "quit (status_bar_printf now t s) = quit s"
  "status_bar (status_bar_printf now t s) = snprintf_s 256 t" "status_bar_time (status_bar_printf now t s) = now"
  by (simp_all add: status_bar_printf_def)

section \<open>Keys\<close>

text \<open>The key codes of curses.\<close>

definition KEY_DOWN :: int where "KEY_DOWN = 258"
definition KEY_UP :: int where "KEY_UP = 259"
definition KEY_HOME :: int where "KEY_HOME = 262"
definition KEY_NPAGE :: int where "KEY_NPAGE = 338"
definition KEY_PPAGE :: int where "KEY_PPAGE = 339"
definition KEY_END :: int where "KEY_END = 360"

definition key :: "char \<Rightarrow> int" where
  "key c = of_char c"

definition c_tolower :: "int \<Rightarrow> int" where
  "c_tolower k = (if 65 \<le> k \<and> k \<le> 90 then k + 32 else k)"

definition set_groupby :: "int \<Rightarrow> int option" where
  "set_groupby k = map_of [(key CHR ''f'', 1), (key CHR ''u'', 2), (key CHR ''j'', 3), (key CHR ''c'', 4),
    (key CHR ''s'', 5), (key CHR ''n'', 6)] k"

definition set_sortbykey :: "int \<Rightarrow> string option" where
  "set_sortbykey k = map_of [(key CHR ''l'', ''load_eff''), (key CHR ''i'', ''iops''), (key CHR ''b'', ''bytes'')] k"

definition int_max :: int where
  "int_max = 2 ^ 31 - 1"

definition int_min :: int where
  "int_min = - (2 ^ 31)"

text \<open>\<open>INT_MIN / 2\<close> and \<open>INT_MAX / 2\<close> truncate towards zero.\<close>

definition set_scroll :: "int \<Rightarrow> int \<Rightarrow> int \<Rightarrow> int option" where
  "set_scroll LINES delta k = map_of [(KEY_DOWN, delta + 1), (KEY_HOME, - (2 ^ 30)), (KEY_END, 2 ^ 30 - 1),
    (KEY_UP, delta - 1), (KEY_NPAGE, delta + LINES), (KEY_PPAGE, delta - LINES)] k"

definition unknown_command :: "int \<Rightarrow> string" where
  "unknown_command k = snprintf_s 256 (''unknown command `'' @ [char_of k] @ [CHR 0x27])"

definition screen_key_cb :: "int \<Rightarrow> double \<Rightarrow> int \<Rightarrow> screen \<Rightarrow> screen" where
  "screen_key_cb LINES ev_now k s =
    (let c = c_tolower k in
     if c = key CHR ''q'' then s\<lparr>quit := True\<rparr>
     else (let s1 =
         (if c = key CHR '' '' then s
          else if c = 10 then screen_refresh s
          else if set_groupby c \<noteq> None then s\<lparr>groupby := the (set_groupby c)\<rparr>
          else if set_sortbykey c \<noteq> None then s\<lparr>sortbykey := the (set_sortbykey c)\<rparr>
          else if c = key CHR ''d'' then s\<lparr>detailed := \<not> detailed s\<rparr>
          else if set_scroll LINES (scroll_delta s) c \<noteq> None
            then s\<lparr>scroll_delta := the (set_scroll LINES (scroll_delta s) c), da_refresh_flag := False\<rparr>
          else if 0 \<le> k \<and> k < 128
            then s\<lparr>status_bar_time := ev_now, status_bar := unknown_command k, da_refresh_flag := False\<rparr>
          else s\<lparr>da_refresh_flag := False\<rparr>)
       in screen_refresh (s1\<lparr>da_refresh_flag := False\<rparr>)))"

section \<open>Sorting\<close>

definition sort_value :: "env \<Rightarrow> heap \<Rightarrow> string \<Rightarrow> jval \<Rightarrow> double option" where
  "sort_value E h k row = map_option (\<lambda>val. fl E (get_double E val * 100)) (object_get_ex h row k)"

text \<open>The conversion of a double to \<open>int\<close> truncates, and is undefined outside of the range.\<close>

definition truncate :: "double \<Rightarrow> int" where
  "truncate x = (if 0 \<le> x then \<lfloor>x\<rfloor> else \<lceil>x\<rceil>)"

definition to_int :: "double \<Rightarrow> int option" where
  "to_int x = (if int_min \<le> truncate x \<and> truncate x \<le> int_max then Some (truncate x) else None)"

definition sort_da :: "env \<Rightarrow> heap \<Rightarrow> string \<Rightarrow> jval \<Rightarrow> jval \<Rightarrow> int option" where
  "sort_da E h k row1 row2 =
    (case (sort_value E h k row1, sort_value E h k row2) of
       (None, None) \<Rightarrow> Some 0
     | (None, Some d2) \<Rightarrow> Some 1
     | (Some d1, None) \<Rightarrow> Some (-1)
     | (Some d1, Some d2) \<Rightarrow> to_int (fl E (d2 - d1)))"

definition sort_rows :: "((jval \<Rightarrow> jval \<Rightarrow> int) \<Rightarrow> jval list \<Rightarrow> jval list) \<Rightarrow> env \<Rightarrow> heap \<Rightarrow> string \<Rightarrow> jval list \<Rightarrow> jval list option" where
  "sort_rows qsort E h k rows =
    (if \<forall>a \<in> set rows. \<forall>b \<in> set rows. sort_da E h k a b \<noteq> None
     then Some (qsort (\<lambda>a b. the (sort_da E h k a b)) rows) else None)"

section \<open>Rows\<close>

definition columns :: "string list" where
  "columns = [''nclients'', ''load'', ''load_eff'', ''iops'', ''bytes'']"

definition hidden_event :: "string \<Rightarrow> bool" where
  "hidden_event e \<longleftrightarrow> e \<in> {''load'', ''load_eff'', ''read_bytes'', ''write_bytes'', ''iops'', ''bytes''} \<or> strstr e ''[usec''"

definition detail_event :: "env \<Rightarrow> jval \<Rightarrow> jval \<Rightarrow> string \<times> jval \<Rightarrow> heap \<Rightarrow> heap option" where
  "detail_event E evs tags = (\<lambda>(event, val) h.
     (if hidden_event event \<or> get_double E val < 2 then Some h
      else do {
        h1 \<leftarrow> object_add evs event (JString '''') h;
        object_add tags event val h1
      }))"

definition da_row :: "env \<Rightarrow> bool \<Rightarrow> jval \<Rightarrow> jval \<Rightarrow> string \<times> jval \<Rightarrow> heap \<Rightarrow> heap option" where
  "da_row E det arr evs = (\<lambda>(t, te) h.
     (if t = ''time'' then Some h
      else (case tokener_parse E t h of
          None \<Rightarrow> Some h
        | Some (tags, h1) \<Rightarrow> do {
            h2 \<leftarrow> copy_tags te (map (\<lambda>c. (c, c)) columns) tags h1;
            h3 \<leftarrow> (if det then do {
                events \<leftarrow> object_foreach h2 te;
                foldM (detail_event E evs tags) events h2
              } else Some h2);
            array_add arr tags h3
          })))"

definition da_server :: "env \<Rightarrow> bool \<Rightarrow> jval \<Rightarrow> jval \<Rightarrow> string \<times> jval \<Rightarrow> heap \<Rightarrow> heap option" where
  "da_server E det arr evs = (\<lambda>(s, se) h. do {
     entries \<leftarrow> object_foreach h se;
     foldM (da_row E det arr evs) entries h
   })"

definition da_refresh :: "env \<Rightarrow> ((jval \<Rightarrow> jval \<Rightarrow> int) \<Rightarrow> jval list \<Rightarrow> jval list) \<Rightarrow> screen \<Rightarrow> screen option" where
  "da_refresh E qsort s =
    (let (arr, h1) = new_array (hp (sst s)); (evs, h2) = new_object h1
     in do {
       h3 \<leftarrow> foldM (\<lambda>c. object_add evs c (JString '''')) columns h2;
       servers \<leftarrow> object_foreach h3 (screen_map (sst s));
       h4 \<leftarrow> foldM (da_server E (detailed s) arr evs) servers h3;
       rows \<leftarrow> arr_of h4 arr;
       sorted' \<leftarrow> sort_rows qsort E h4 (sortbykey s) rows;
       Some (s\<lparr>sst := (sst s)\<lparr>hp := store arr (Arr sorted') h4\<rparr>, scrdata_array := arr, screvents := evs,
         da_len := int (length sorted')\<rparr>)
     })"

section \<open>The table\<close>

definition show_int :: "int \<Rightarrow> string" where
  "show_int i = (if i < 0 then ''-'' @ show_nat (nat (- i)) else show_nat (nat i))"

text \<open>The formats \<open>%-16.16s\<close>, \<open>%14.14s\<close>, \<open>%14.2f\<close> and \<open>%14.1f\<close>, each followed by a blank.\<close>

definition tag_cell :: "string \<Rightarrow> string" where
  "tag_cell t = pad_right 16 (take 16 t) @ '' ''"

definition head_cell :: "string \<Rightarrow> string" where
  "head_cell e = pad_left 14 (take 14 e) @ '' ''"

definition number_cell :: "nat \<Rightarrow> double \<Rightarrow> string" where
  "number_cell p x = pad_left 14 (fmt_fixed p x) @ '' ''"

definition header_line :: "string list \<Rightarrow> string list \<Rightarrow> string option" where
  "header_line tags evs = map_option snd (put_all 2048 (map tag_cell tags @ map head_cell evs) (0, ''''))"

text \<open>The text of a tag; a tag that is a json null would be a NULL string.\<close>

definition row_tag :: "env \<Rightarrow> heap \<Rightarrow> jval \<Rightarrow> string \<Rightarrow> string option" where
  "row_tag E h de t =
    (case object_get_ex h de t of None \<Rightarrow> Some (tag_cell '''') | Some tid \<Rightarrow> map_option tag_cell (get_string E h tid))"

definition row_event :: "env \<Rightarrow> heap \<Rightarrow> jval \<Rightarrow> string \<Rightarrow> string" where
  "row_event E h de e =
    (case object_get_ex h de e of None \<Rightarrow> number_cell 1 0 | Some eid \<Rightarrow> number_cell 2 (get_double E eid))"

definition row_line :: "env \<Rightarrow> heap \<Rightarrow> string list \<Rightarrow> string list \<Rightarrow> jval \<Rightarrow> string option" where
  "row_line E h tags evs de =
    (if \<exists>t \<in> set tags. row_tag E h de t = None then None
     else map_option snd (put_all 512 (map (\<lambda>t. the (row_tag E h de t)) tags @ map (row_event E h de) evs) (0, '''')))"

text \<open>The loop over the visible rows: the pairs of row and screen line.\<close>

function visible_rows :: "int \<Rightarrow> int \<Rightarrow> int \<Rightarrow> int \<Rightarrow> (int \<times> int) list" where
  "visible_rows LINES len j line =
    (if j < len \<and> line < LINES - 1 then (j, line) # visible_rows LINES len (j + 1) (line + 1) else [])"
  by pat_completeness auto
termination by (relation "measure (\<lambda>(LINES, len, j, line). nat (len - j))") auto

declare visible_rows.simps [simp del]

definition clamp_start :: "int \<Rightarrow> int \<Rightarrow> int \<Rightarrow> int" where
  "clamp_start LINES len start = max (min start (len - (LINES - 1 - 1))) 0"

definition print_row :: "env \<Rightarrow> heap \<Rightarrow> string list \<Rightarrow> string list \<Rightarrow> jval \<Rightarrow>
    int \<times> int \<Rightarrow> (int \<times> int \<times> string) list \<Rightarrow> (int \<times> int \<times> string) list option" where
  "print_row E h tags evs arr = (\<lambda>(j, line) printed. do {
     de \<leftarrow> array_get_idx h arr (nat j);
     r \<leftarrow> row_line E h tags evs de;
     Some (printed @ [(line, 0, r)])
   })"

definition status_text :: "int \<Rightarrow> int \<Rightarrow> int \<Rightarrow> string" where
  "status_text start j len =
    show_int (start + (if len \<noteq> 0 then 1 else 0)) @ ''-'' @ show_int j @ '' out of '' @ show_int len"

text \<open>\<open>now\<close> is \<open>ev_now\<close> cut to whole seconds; \<open>prog\<close> is the name of the program and \<open>ct\<close> the text
  of \<open>ctime\<close>.  The pair of results is the state and what was printed: line, column and text.\<close>

definition screen_refresh_cb ::
    "env \<Rightarrow> ((jval \<Rightarrow> jval \<Rightarrow> int) \<Rightarrow> jval list \<Rightarrow> jval list) \<Rightarrow> string \<Rightarrow> (int \<Rightarrow> string) \<Rightarrow> int \<Rightarrow> int \<Rightarrow> double \<Rightarrow>
     screen \<Rightarrow> (screen \<times> (int \<times> int \<times> string) list) option" where
  "screen_refresh_cb E qsort prog ct LINES COLS ev_now s0 = do {
     let now = \<lfloor>ev_now\<rfloor>;
     s \<leftarrow> (if da_refresh_flag s0 then da_refresh E qsort s0 else Some s0);
     let h = hp (sst s);
     tags \<leftarrow> object_foreach h (group_tags (sst s));
     evs \<leftarrow> object_foreach h (screvents s);
     header \<leftarrow> header_line (keys tags) (keys evs);
     let new_start = clamp_start LINES (da_len s) (scroll_start s + scroll_delta s);
     let shown = visible_rows LINES (da_len s) new_start 1;
     rows \<leftarrow> foldM (print_row E h (keys tags) (keys evs) (scrdata_array s)) shown [];
     let j = new_start + int (length shown);
     let moved = (new_start \<noteq> scroll_start s \<or> status_bar_time s < rat_of_int now);
     let s1 = (if moved then status_bar_printf ev_now (status_text new_start j (da_len s)) s else s);
     let bar = status_bar s1;
     let ctime_len = int (length prog) + 28;
     let clock_text = (if int (length bar) + ctime_len < COLS
       then [(LINES - 1, COLS - ctime_len, prog @ '' - '' @ ct now)] else []);
     Some (s1\<lparr>scroll_start := new_start, scroll_delta := 0, da_refresh_flag := True\<rparr>,
       [(0, 0, header)] @ rows @ [(LINES - 1, 0, take (nat COLS) bar)] @ clock_text)
   }"

section \<open>The timer\<close>

definition group_list :: "int \<Rightarrow> string list" where
  "group_list g =
    (if g = 4 then [''system'', ''fid'', ''server'', ''client'', ''jid'', ''uid'']
     else if g = 3 then [''system'', ''fid'', ''server'', ''jid'', ''uid'']
     else if g = 2 then [''system'', ''fid'', ''server'', ''uid'']
     else if g = 1 then [''system'', ''fid'', ''server'']
     else if g = 5 then [''system'', ''server'']
     else if g = 6 then [''server'']
     else [''system'', ''fid'', ''server'', ''jid'', ''uid''])"

definition refresh_timer_cb ::
    "env \<Rightarrow> filters \<Rightarrow> ((jval \<Rightarrow> jval \<Rightarrow> int) \<Rightarrow> jval list \<Rightarrow> jval list) \<Rightarrow> string \<Rightarrow> (int \<Rightarrow> string) \<Rightarrow> int \<Rightarrow> int \<Rightarrow>
     double \<Rightarrow> string \<Rightarrow> screen \<Rightarrow> (screen \<times> (int \<times> int \<times> string) list) option" where
  "refresh_timer_cb E flt qsort prog ct LINES COLS ev_now mem s = do {
     let st = (if da_refresh_flag s then load_shm E mem (sst s) else sst s);
     st1 \<leftarrow> group_ratesbytags E flt (group_list (groupby s)) st;
     (s1, printed) \<leftarrow> screen_refresh_cb E qsort prog ct LINES COLS ev_now (s\<lparr>sst := st1\<rparr>);
     Some (s1\<lparr>refresh_pending := False\<rparr>, printed)
   }"

section \<open>The program\<close>

definition admin_group :: int where
  "admin_group = 815499"

definition in_admin_group :: "int list \<Rightarrow> bool" where
  "in_admin_group groups \<longleftrightarrow> admin_group \<in> set groups \<or> 0 \<in> set groups"

definition pfstop_short :: "(char \<times> bool) list" where
  "pfstop_short = [(CHR ''h'', False), (CHR ''n'', True), (CHR ''u'', True), (CHR ''c'', True), (CHR ''s'', True),
    (CHR ''j'', True)]"

definition pfstop_long :: "(string \<times> bool \<times> char) list" where
  "pfstop_long = [(''help'', False, CHR ''h''), (''interval'', True, CHR ''n''), (''user'', True, CHR ''u''),
    (''client'', True, CHR ''c''), (''server'', True, CHR ''s''), (''job'', True, CHR ''j'')]"

definition pfstop_opt :: "(rat \<Rightarrow> rat) \<Rightarrow> char \<Rightarrow> string \<Rightarrow> double \<times> filters \<Rightarrow> double \<times> filters" where
  "pfstop_opt rnd c optarg = (\<lambda>(interval, flt).
     (if c = CHR ''n'' then (atof rnd optarg, flt)
      else if c = CHR ''u'' then (interval, flt\<lparr>filter_user := Some optarg\<rparr>)
      else if c = CHR ''c'' then (interval, flt\<lparr>filter_client := Some optarg\<rparr>)
      else if c = CHR ''s'' then (interval, flt\<lparr>filter_server := Some optarg\<rparr>)
      else if c = CHR ''j'' then (interval, flt\<lparr>filter_job := Some optarg\<rparr>)
      else (interval, flt)))"

text \<open>The refresh interval and the filters the viewer runs with, for the user name and the groups of the caller.\<close>

definition pfstop_start :: "(rat \<Rightarrow> rat) \<Rightarrow> string \<Rightarrow> int list \<Rightarrow> string list \<Rightarrow> (double \<times> filters) outcome" where
  "pfstop_start rnd pw_name groups args =
    (case run_opts (pfstop_opt rnd) (getopt pfstop_short pfstop_long args) (3, no_filters) of
       Exit n \<Rightarrow> Exit n
     | Run (interval, flt) \<Rightarrow>
         Run (interval, if in_admin_group groups then flt else flt\<lparr>filter_user := Some pw_name\<rparr>))"

end
