(* ===== verification/Viewer.thy ===== *)
theory Viewer
  imports Screen "HOL-Library.Multiset"
begin

text \<open>
  Properties of the viewer: which rows are on the screen and that the scroll position stays in range, when the
  rows are sorted and why the comparison does not always sort them, when the table is aligned and when a row
  overruns its buffer, and what a user outside of the administrators' group gets to see.
\<close>

section \<open>Scrolling\<close>

lemma visible_rows_eq:
  "visible_rows LINES len j line = map (\<lambda>i. (j + int i, line + int i)) [0..<nat (min (len - j) (LINES - 1 - line))]"
proof (induction LINES len j line rule: visible_rows.induct)
  case (1 LINES len j line)
  let ?n = "nat (min (len - j) (LINES - 1 - line))"
  show ?case
  proof (cases "j < len \<and> line < LINES - 1")
    case True
    then have n: "?n = Suc (nat (min (len - (j + 1)) (LINES - 1 - (line + 1))))" by arith
    have "map (\<lambda>i. (j + int i, line + int i)) [0..<?n] =
        (j, line) # map (\<lambda>i. (j + 1 + int i, line + 1 + int i)) [0..<nat (min (len - (j + 1)) (LINES - 1 - (line + 1)))]"
      unfolding n by (simp add: upt_conv_Cons map_Suc_upt[symmetric] add.assoc del: upt_Suc)
    with 1 True show ?thesis by (subst visible_rows.simps) simp
  next
    case False
    then have "?n = 0" by auto
    with False show ?thesis by (subst visible_rows.simps) simp
  qed
qed

definition in_int :: "int \<Rightarrow> bool" where
  "in_int i \<longleftrightarrow> int_min \<le> i \<and> i \<le> int_max"

definition scroll_ok :: "screen \<Rightarrow> bool" where
  "scroll_ok s \<longleftrightarrow> scroll_delta s = 0 \<and> 0 \<le> scroll_start s \<and> scroll_start s \<le> da_len s"

lemma clamp_bounds: "0 \<le> clamp_start LINES len s" "clamp_start LINES len s \<le> max 0 (len - (LINES - 2))"
  by (auto simp: clamp_start_def)

lemma da_refresh_len: "whenever (da_refresh E q s) (\<lambda>s'. 0 \<le> da_len s')"
  by (auto simp: da_refresh_def Let_def whenever_def bind_eq_Some_conv split: prod.splits)

lemma screen_refresh_start:
  assumes "screen_refresh_cb E q prog ct LINES COLS ev_now s = Some (s', printed)"
  shows "\<exists>s1. (if da_refresh_flag s then da_refresh E q s else Some s) = Some s1 \<and> scroll_delta s' = 0 \<and>
    da_len s' = da_len s1 \<and> scroll_start s' = clamp_start LINES (da_len s1) (scroll_start s1 + scroll_delta s1)"
proof (cases "if da_refresh_flag s then da_refresh E q s else Some s")
  case None
  then show ?thesis using assms by (simp add: screen_refresh_cb_def split del: if_split)
next
  case (Some s1)
  then have "scroll_delta s' = 0 \<and> da_len s' = da_len s1 \<and>
      scroll_start s' = clamp_start LINES (da_len s1) (scroll_start s1 + scroll_delta s1)"
    using assms unfolding screen_refresh_cb_def Let_def Some
    by (clarsimp simp: bind_eq_Some_conv split del: if_split) (simp split: if_split)
  with Some show ?thesis by blast
qed

lemma screen_refresh_scroll:
  assumes "0 \<le> da_len s" "2 \<le> LINES"
  shows "whenever (screen_refresh_cb E q prog ct LINES COLS ev_now s) (\<lambda>(s', printed). scroll_ok s')"
  unfolding whenever_def
proof (clarify)
  fix s' printed
  assume "screen_refresh_cb E q prog ct LINES COLS ev_now s = Some (s', printed)"
  then obtain s1 where s1: "(if da_refresh_flag s then da_refresh E q s else Some s) = Some s1" and s': "scroll_delta s' = 0"
    "da_len s' = da_len s1" "scroll_start s' = clamp_start LINES (da_len s1) (scroll_start s1 + scroll_delta s1)"
    using screen_refresh_start by blast
  have "0 \<le> da_len s1" using s1 da_refresh_len[of E q s] assms(1) by (auto split: if_splits)
  then have "clamp_start LINES (da_len s1) x \<le> da_len s1" for x using assms(2) by (auto simp: clamp_start_def)
  then show "scroll_ok s'" using s' by (simp add: scroll_ok_def clamp_bounds)
qed

lemma set_scroll_values:
  "set_scroll LINES d k = Some x \<Longrightarrow> x \<in> {d + 1, d - 1, d + LINES, d - LINES, - (2 ^ 30), 2 ^ 30 - 1}"
  unfolding set_scroll_def by (drule map_of_SomeD) auto

lemma key_scroll:
  "scroll_start (screen_key_cb LINES now k s) = scroll_start s" "da_len (screen_key_cb LINES now k s) = da_len s"
  "scroll_delta (screen_key_cb LINES now k s) \<in>
    {scroll_delta s, scroll_delta s + 1, scroll_delta s - 1, scroll_delta s + LINES, scroll_delta s - LINES, - (2 ^ 30), 2 ^ 30 - 1}"
proof -
  show "scroll_start (screen_key_cb LINES now k s) = scroll_start s" "da_len (screen_key_cb LINES now k s) = da_len s"
    by (simp_all add: screen_key_cb_def screen_refresh_def Let_def if_distrib[of scroll_start] if_distrib[of da_len])
  have "scroll_delta (screen_key_cb LINES now k s) = scroll_delta s \<or>
      set_scroll LINES (scroll_delta s) (c_tolower k) = Some (scroll_delta (screen_key_cb LINES now k s))"
    by (simp add: screen_key_cb_def screen_refresh_def Let_def if_distrib[of scroll_delta])
  then show "scroll_delta (screen_key_cb LINES now k s) \<in>
    {scroll_delta s, scroll_delta s + 1, scroll_delta s - 1, scroll_delta s + LINES, scroll_delta s - LINES, - (2 ^ 30), 2 ^ 30 - 1}"
    using set_scroll_values by fastforce
qed

section \<open>Sorting\<close>

text \<open>What is documented of \<open>qsort\<close>: the result is a permutation, and sorted if the comparison is consistent.\<close>

definition consistent :: "('a \<Rightarrow> 'a \<Rightarrow> int) \<Rightarrow> 'a set \<Rightarrow> bool" where
  "consistent cmp A \<longleftrightarrow> (\<forall>a \<in> A. \<forall>b \<in> A. cmp a b \<le> 0 \<or> cmp b a \<le> 0) \<and>
    (\<forall>a \<in> A. \<forall>b \<in> A. \<forall>c \<in> A. cmp a b \<le> 0 \<longrightarrow> cmp b c \<le> 0 \<longrightarrow> cmp a c \<le> 0)"

lemma consistent_subset: "consistent cmp A \<Longrightarrow> B \<subseteq> A \<Longrightarrow> consistent cmp B"
  unfolding consistent_def by blast

definition qsort_ok :: "((jval \<Rightarrow> jval \<Rightarrow> int) \<Rightarrow> jval list \<Rightarrow> jval list) \<Rightarrow> bool" where
  "qsort_ok qsort \<longleftrightarrow> (\<forall>cmp xs. mset (qsort cmp xs) = mset xs \<and>
    (consistent cmp (set xs) \<longrightarrow> sorted_wrt (\<lambda>a b. cmp a b \<le> 0) (qsort cmp xs)))"

text \<open>An implementation, to see that the assumption can be met.\<close>

fun insert_by :: "('a \<Rightarrow> 'a \<Rightarrow> int) \<Rightarrow> 'a \<Rightarrow> 'a list \<Rightarrow> 'a list" where
  "insert_by cmp x [] = [x]"
| "insert_by cmp x (y # ys) = (if cmp x y \<le> 0 then x # y # ys else y # insert_by cmp x ys)"

definition insertion_qsort :: "('a \<Rightarrow> 'a \<Rightarrow> int) \<Rightarrow> 'a list \<Rightarrow> 'a list" where
  "insertion_qsort cmp xs = foldr (insert_by cmp) xs []"

lemma mset_insert_by [simp]: "mset (insert_by cmp x ys) = add_mset x (mset ys)"
  by (induction ys) auto

lemma set_insert_by [simp]: "set (insert_by cmp x ys) = insert x (set ys)"
  using mset_insert_by[of cmp x ys] by (metis set_mset_add_mset_insert set_mset_mset)

lemma sorted_insert_by:
  assumes "consistent cmp (insert x (set ys))" "sorted_wrt (\<lambda>a b. cmp a b \<le> 0) ys"
  shows "sorted_wrt (\<lambda>a b. cmp a b \<le> 0) (insert_by cmp x ys)"
  using assms
proof (induction ys)
  case (Cons y ys)
  have "consistent cmp (insert x (set ys))" by (rule consistent_subset[OF Cons.prems(1)]) auto
  then have "sorted_wrt (\<lambda>a b. cmp a b \<le> 0) (insert_by cmp x ys)" using Cons by simp
  moreover have "cmp y x \<le> 0" if "\<not> cmp x y \<le> 0" using Cons.prems(1) that unfolding consistent_def by auto
  moreover have "cmp x z \<le> 0" if "cmp x y \<le> 0" "z \<in> set ys" for z
  proof -
    have "cmp y z \<le> 0" using Cons.prems(2) that(2) by simp
    then show ?thesis using Cons.prems(1) that unfolding consistent_def by (meson insert_iff list.set_intros)
  qed
  ultimately show ?case using Cons.prems(2) by auto
qed simp

lemma insertion_qsort_ok: "qsort_ok insertion_qsort"
proof -
  have m: "mset (insertion_qsort cmp xs) = mset xs" for cmp :: "jval \<Rightarrow> jval \<Rightarrow> int" and xs
    by (induction xs) (simp_all add: insertion_qsort_def)
  have s: "consistent cmp (set xs) \<Longrightarrow> sorted_wrt (\<lambda>a b. cmp a b \<le> 0) (insertion_qsort cmp xs)"
    for cmp :: "jval \<Rightarrow> jval \<Rightarrow> int" and xs
  proof (induction xs)
    case (Cons x xs)
    have "set (insertion_qsort cmp xs) = set xs" using m[of cmp xs] by (metis set_mset_mset)
    moreover have "consistent cmp (set xs)" by (rule consistent_subset[OF Cons.prems]) auto
    ultimately show ?case using Cons sorted_insert_by[of cmp x "insertion_qsort cmp xs"]
      by (simp add: insertion_qsort_def)
  qed (simp add: insertion_qsort_def)
  show ?thesis unfolding qsort_ok_def using m s by blast
qed

text \<open>Values that are equal or at least a hundredth apart are compared consistently.\<close>

definition spaced :: "env \<Rightarrow> heap \<Rightarrow> string \<Rightarrow> jval list \<Rightarrow> bool" where
  "spaced E h k rows \<longleftrightarrow> (\<forall>a \<in> set rows. \<forall>b \<in> set rows. \<forall>d1 d2.
    sort_value E h k a = Some d1 \<longrightarrow> sort_value E h k b = Some d2 \<longrightarrow> d1 = d2 \<or> 1 \<le> \<bar>d1 - d2\<bar>)"

text \<open>The order of the table: descending, rows without a value at the end.\<close>

definition shown_before :: "env \<Rightarrow> heap \<Rightarrow> string \<Rightarrow> jval \<Rightarrow> jval \<Rightarrow> bool" where
  "shown_before E h k a b \<longleftrightarrow>
    (case (sort_value E h k a, sort_value E h k b) of
       (Some d1, Some d2) \<Rightarrow> d2 \<le> d1
     | (None, Some d2) \<Rightarrow> False
     | _ \<Rightarrow> True)"

lemma truncate_spaced:
  assumes "rounding fl'" "d = 0 \<or> 1 \<le> \<bar>d\<bar>"
  shows "truncate (fl' d) \<le> 0 \<longleftrightarrow> d \<le> 0"
proof -
  have m: "mono fl'" and e: "fl' 0 = 0" "fl' 1 = 1" "fl' (-1) = -1"
    using assms(1) rounding_exact[OF assms(1), of 0] rounding_exact[OF assms(1), of 1] rounding_exact[OF assms(1), of "-1"]
    by (simp_all add: rounding_def)
  consider "d = 0" | "1 \<le> d" | "d \<le> -1" using assms(2) by linarith
  then show ?thesis
  proof cases
    case 1
    then show ?thesis by (simp add: e truncate_def)
  next
    case 2
    then have "1 \<le> fl' d" using monoD[OF m, of 1 d] e by simp
    then show ?thesis using 2 by (simp add: truncate_def)
  next
    case 3
    then have "fl' d \<le> -1" using monoD[OF m, of d "-1"] e by simp
    then show ?thesis using 3 by (auto simp: truncate_def ceiling_le_iff)
  qed
qed

lemma sort_da_spaced:
  assumes "rounding (fl E)" "spaced E h k rows" "a \<in> set rows" "b \<in> set rows" "sort_da E h k a b = Some c"
  shows "c \<le> 0 \<longleftrightarrow> shown_before E h k a b"
proof (cases "sort_value E h k a")
  case None
  then show ?thesis using assms(5) by (cases "sort_value E h k b") (auto simp: sort_da_def shown_before_def)
next
  case (Some d1)
  show ?thesis
  proof (cases "sort_value E h k b")
    case None
    then show ?thesis using assms(5) Some by (auto simp: sort_da_def shown_before_def)
  next
    case b: (Some d2)
    have "d2 - d1 = 0 \<or> 1 \<le> \<bar>d2 - d1\<bar>" using assms(2-4) Some b unfolding spaced_def by fastforce
    then have "truncate (fl E (d2 - d1)) \<le> 0 \<longleftrightarrow> d2 - d1 \<le> 0" by (rule truncate_spaced[OF assms(1)])
    then show ?thesis using assms(5) Some b by (auto simp: sort_da_def shown_before_def to_int_def split: if_splits)
  qed
qed

section \<open>Cells\<close>

lemma length_tag_cell [simp]: "length (tag_cell t) = 17"
  by (simp add: tag_cell_def)

lemma length_head_cell [simp]: "length (head_cell e) = 15"
  by (simp add: head_cell_def)

lemma length_show_nat: "n < 10 ^ Suc k \<Longrightarrow> length (show_nat n) \<le> Suc k"
proof (induction n arbitrary: k rule: show_nat.induct)
  case (1 n)
  show ?case
  proof (cases "n < 10")
    case True
    then show ?thesis by (subst show_nat.simps) simp
  next
    case False
    with "1.prems" have "k \<noteq> 0" by (cases k) auto
    then obtain k' where k: "k = Suc k'" by (cases k) auto
    have "n div 10 < 10 ^ Suc k'" using "1.prems" k by (simp add: less_mult_imp_div_less mult.commute)
    with "1.IH"[OF False] k False show ?thesis by (subst show_nat.simps) simp
  qed
qed

lemma round_even_le: "0 \<le> x \<Longrightarrow> x \<le> rat_of_nat m \<Longrightarrow> round_even x \<le> Suc m"
proof -
  assume x: "0 \<le> x" "x \<le> rat_of_nat m"
  then have "\<lfloor>x\<rfloor> \<le> int m" by (metis floor_mono floor_of_nat)
  then have "nat \<lfloor>x\<rfloor> \<le> m" by simp
  then show ?thesis by (auto simp: round_even_def Let_def)
qed

text \<open>A value below a billion, printed with one or two decimals, fits its 14 columns.\<close>

lemma length_fmt: "p \<le> 2 \<Longrightarrow> \<bar>x\<bar> \<le> 10 ^ 9 \<Longrightarrow> length (fmt_fixed p x) \<le> 14"
proof -
  assume p: "p \<le> 2" and x: "\<bar>x\<bar> \<le> 10 ^ 9"
  have "\<bar>x\<bar> * 10 ^ p \<le> 10 ^ 9 * 10 ^ 2"
    by (rule mult_mono[OF x power_increasing[OF p]]) simp_all
  then have "\<bar>x\<bar> * 10 ^ p \<le> rat_of_nat (10 ^ 11)" by simp
  then have "round_even (\<bar>x\<bar> * 10 ^ p) \<le> Suc (10 ^ 11)" by (intro round_even_le) simp_all
  then have "round_even (\<bar>x\<bar> * 10 ^ p) < 10 ^ Suc 11" by simp
  then have "length (show_nat (round_even (\<bar>x\<bar> * 10 ^ p))) \<le> Suc 11" by (rule length_show_nat)
  then show ?thesis using p by (auto simp: fmt_fixed_def Let_def)
qed

lemma length_number_cell: "15 \<le> length (number_cell p x)" "p \<le> 2 \<Longrightarrow> \<bar>x\<bar> \<le> 10 ^ 9 \<Longrightarrow> length (number_cell p x) = 15"
  using length_fmt[of p x] by (auto simp: number_cell_def max_def)

lemma total_length_simps [simp]: "total_length [] = 0" "total_length (t # ts) = length t + total_length ts"
  "total_length (ts @ us) = total_length ts + total_length us"
  by (simp_all add: total_length_def)

lemma total_length_same: "\<forall>x \<in> set xs. length (f x) = n \<Longrightarrow> total_length (map f xs) = n * length xs"
  by (induction xs) simp_all

lemma total_length_least: "\<forall>x \<in> set xs. n \<le> length (f x) \<Longrightarrow> n * length xs \<le> total_length (map f xs)"
  by (induction xs) auto

lemma row_tag_length: "row_tag E h de t = Some c \<Longrightarrow> length c = 17"
  by (auto simp: row_tag_def split: option.splits)

lemma row_event_length: "15 \<le> length (row_event E h de e)"
  by (auto simp: row_event_def length_number_cell split: option.splits)

text \<open>Values for which the columns line up.\<close>

definition row_fits :: "env \<Rightarrow> heap \<Rightarrow> string list \<Rightarrow> string list \<Rightarrow> jval \<Rightarrow> bool" where
  "row_fits E h tags evs de \<longleftrightarrow> (\<forall>t \<in> set tags. object_get_ex h de t \<noteq> Some JNull) \<and>
    (\<forall>e \<in> set evs. \<forall>v. object_get_ex h de e = Some v \<longrightarrow> \<bar>get_double E v\<bar> \<le> 10 ^ 9)"

lemma row_tag_defined: "object_get_ex h de t \<noteq> Some JNull \<Longrightarrow> row_tag E h de t \<noteq> None"
  by (auto simp: row_tag_def get_string_def split: option.splits jval.splits)

lemma row_cells:
  assumes "row_fits E h tags evs de"
  shows "total_length (map (\<lambda>t. the (row_tag E h de t)) tags @ map (row_event E h de) evs) = 17 * length tags + 15 * length evs"
proof -
  have "length (the (row_tag E h de t)) = 17" if "t \<in> set tags" for t
    using row_tag_defined[of h de t E] assms that row_tag_length[of E h de t] unfolding row_fits_def by fastforce
  moreover have "length (row_event E h de e) = 15" if "e \<in> set evs" for e
    using assms that unfolding row_fits_def row_event_def by (auto simp: length_number_cell(2) split: option.splits)
  ultimately show ?thesis
    using total_length_same[of tags "\<lambda>t. the (row_tag E h de t)" 17] total_length_same[of evs "row_event E h de" 15] by simp
qed

lemma put_all_total: "total_length ts < cap \<Longrightarrow> put_all cap ts (0, '''') = Some (total_length ts, concat ts)"
  using put_all_fits[of "''''" ts cap] by simp

lemma length_concat_cells: "length (concat ts) = total_length ts"
  by (induction ts) simp_all

section \<open>Properties of the table\<close>

text \<open>C22. The window of the table: whatever was scrolled, the rows on the screen are consecutive rows of the table
  on consecutive lines between the header and the status line, and as many as fit.\<close>

theorem visible_window:
  assumes "0 \<le> len" "2 \<le> LINES"
  shows "\<exists>start n. clamp_start LINES len s = int start \<and> int n = min len (LINES - 2) \<and> start + n \<le> nat len \<and>
    visible_rows LINES len (clamp_start LINES len s) 1 = map (\<lambda>i. (int (start + i), 1 + int i)) [0..<n]"
proof -
  let ?c = "clamp_start LINES len s"
  have c: "0 \<le> ?c" "?c \<le> max 0 (len - (LINES - 2))" by (rule clamp_bounds)+
  then have m: "nat (min (len - ?c) (LINES - 1 - 1)) = nat (min len (LINES - 2))" using assms by auto
  have "visible_rows LINES len ?c 1 = map (\<lambda>i. (int (nat ?c + i), 1 + int i)) [0..<nat (min len (LINES - 2))]"
    using visible_rows_eq[of LINES len ?c 1] c(1) unfolding m by (simp add: add.commute)
  then show ?thesis using c assms by (intro exI[of _ "nat ?c"] exI[of _ "nat (min len (LINES - 2))"]) auto
qed

theorem visible_window_witness:
  "\<exists>start n. clamp_start 24 100 (2 ^ 30) = int start \<and> int n = min 100 (24 - 2) \<and> start + n \<le> nat 100 \<and>
    visible_rows 24 100 (clamp_start 24 100 (2 ^ 30)) 1 = map (\<lambda>i. (int (start + i), 1 + int i)) [0..<n]"
  by (rule visible_window) simp_all



text \<open>C30. The table is sorted: if the sort values of any two rows are equal or differ by a hundredth at least, the rows
  are shown in descending order of the sort column, those without a value last, and none is lost.\<close>

theorem table_sorted:
  assumes "qsort_ok qsort" "rounding (fl E)" "spaced E h k rows" "sort_rows qsort E h k rows = Some out"
  shows "mset out = mset rows \<and> sorted_wrt (shown_before E h k) out"
proof -
  let ?cmp = "\<lambda>a b. the (sort_da E h k a b)"
  have out: "out = qsort ?cmp rows" and d: "\<And>a b. a \<in> set rows \<Longrightarrow> b \<in> set rows \<Longrightarrow> sort_da E h k a b \<noteq> None"
    using assms(4) by (auto simp: sort_rows_def split: if_splits)
  have le: "?cmp a b \<le> 0 \<longleftrightarrow> shown_before E h k a b" if "a \<in> set rows" "b \<in> set rows" for a b
    using sort_da_spaced[OF assms(2,3) that] d[OF that] by auto
  have "consistent ?cmp (set rows)"
    unfolding consistent_def by (auto simp: le shown_before_def split: option.splits)
  then have "mset out = mset rows" "sorted_wrt (\<lambda>a b. ?cmp a b \<le> 0) out" using assms(1) out by (auto simp: qsort_ok_def)
  moreover have "set out = set rows" using calculation(1) by (metis set_mset_mset)
  ultimately show ?thesis using sorted_wrt_mono_rel[of out "\<lambda>a b. ?cmp a b \<le> 0" "shown_before E h k"] le by auto
qed

definition sample_rows :: heap where
  "sample_rows = [Obj [(''iops'', JDouble 1)], Obj [], Obj [(''iops'', JDouble 7)]]"

theorem table_sorted_witness:
  "\<exists>out. sort_rows insertion_qsort plain_env sample_rows ''iops'' [JRef 0, JRef 1, JRef 2] = Some out \<and>
    mset out = mset [JRef 0, JRef 1, JRef 2] \<and> sorted_wrt (shown_before plain_env sample_rows ''iops'') out"
proof -
  have f: "fl plain_env = (\<lambda>x. x)" by (simp add: plain_env_def)
  have v: "sort_value plain_env sample_rows ''iops'' (JRef 0) = Some 100" "sort_value plain_env sample_rows ''iops'' (JRef 1) = None"
    "sort_value plain_env sample_rows ''iops'' (JRef 2) = Some 700"
    by (simp_all add: sort_value_def object_get_ex_def obj_of_def node_of_def sample_rows_def get_double_def plain_env_def)
  have "sort_rows insertion_qsort plain_env sample_rows ''iops'' [JRef 0, JRef 1, JRef 2] \<noteq> None"
    using v by (simp add: sort_rows_def sort_da_def to_int_def truncate_def int_min_def int_max_def f del: One_nat_def)
  then obtain out where o: "sort_rows insertion_qsort plain_env sample_rows ''iops'' [JRef 0, JRef 1, JRef 2] = Some out"
    by blast
  have "spaced plain_env sample_rows ''iops'' [JRef 0, JRef 1, JRef 2]"
    using v by (auto simp: spaced_def simp del: One_nat_def)
  then show ?thesis using table_sorted[OF insertion_qsort_ok _ _ o] o rounding_id f by simp
qed

text \<open>The comparison is not an order: of three rows whose values are less than a hundredth apart from one to the next
  but not from the first to the last, the neighbours compare equal and the outer ones do not, so what
  qsort makes of such a table is open.\<close>

theorem sort_da_not_transitive:
  assumes "fl E = (\<lambda>x. x)" "sort_value E h k a = Some x" "sort_value E h k b = Some y" "sort_value E h k c = Some z"
    and "x < y" "y < z" "y - x < 1" "z - y < 1" "1 \<le> z - x"
  shows "sort_da E h k a b = Some 0 \<and> sort_da E h k b c = Some 0 \<and> sort_da E h k a c = Some 1 \<and>
    \<not> consistent (\<lambda>u v. the (sort_da E h k u v)) {a, b, c}"
proof -
  have t: "truncate (y - x) = 0" "truncate (z - y) = 0" "truncate (z - x) = 1"
    using assms(5-9) by (simp_all add: truncate_def floor_eq_iff)
  have s: "sort_da E h k a b = Some 0" "sort_da E h k b c = Some 0" "sort_da E h k a c = Some 1"
    using assms(1-4) t by (simp_all add: sort_da_def to_int_def int_min_def int_max_def)
  then show ?thesis unfolding consistent_def by (auto simp: s)
qed

theorem sort_da_not_transitive_witness:
  "\<not> consistent (\<lambda>u v. the (sort_da plain_env
      [Obj [(''iops'', JDouble 1)], Obj [(''iops'', JDouble (1006 / 1000))], Obj [(''iops'', JDouble (1012 / 1000))]] ''iops'' u v))
    {JRef 0, JRef 1, JRef 2}"
  using sort_da_not_transitive[of plain_env
      "[Obj [(''iops'', JDouble 1)], Obj [(''iops'', JDouble (1006 / 1000))], Obj [(''iops'', JDouble (1012 / 1000))]]" "''iops''"
      "JRef 0" 100 "JRef 1" "1006 / 10" "JRef 2" "1012 / 10"]
  by (simp add: sort_value_def object_get_ex_def obj_of_def node_of_def get_double_def plain_env_def del: One_nat_def)



text \<open>The detailed view overruns the row: the buffer of a row has 512 characters, so with as many event columns as make
  the cells before the last one longer than it (29 with six tags), printing any row is undefined.\<close>

theorem detailed_row_overflow:
  assumes "evs \<noteq> []" "512 < 17 * length tags + 15 * (length evs - 1)"
  shows "row_line E h tags evs de = None"
proof (rule ccontr)
  assume n: "row_line E h tags evs de \<noteq> None"
  let ?ts = "map (\<lambda>t. the (row_tag E h de t)) tags" and ?es = "map (row_event E h de) evs"
  have t: "\<forall>t \<in> set tags. row_tag E h de t \<noteq> None" and p: "put_all 512 (?ts @ ?es) (0, '''') \<noteq> None"
    using n by (auto simp: row_line_def split: if_splits)
  have "length (the (row_tag E h de t)) = 17" if "t \<in> set tags" for t
    using t that row_tag_length[of E h de t] by fastforce
  then have "total_length ?ts = 17 * length tags" by (intro total_length_same) blast
  moreover have "15 * length (butlast evs) \<le> total_length (map (row_event E h de) (butlast evs))"
    by (rule total_length_least) (simp add: row_event_length)
  moreover have "butlast (?ts @ ?es) = ?ts @ map (row_event E h de) (butlast evs)"
    using assms(1) by (simp add: butlast_append map_butlast)
  ultimately have "512 < total_length (butlast (?ts @ ?es))" using assms(2) by simp
  then show False using p assms(1) unfolding put_all_defined by simp
qed

theorem detailed_row_overflow_witness: "row_line plain_env [] [''server''] (replicate 35 ''open'') (JRef 0) = None"
  by (rule detailed_row_overflow) simp_all

section \<open>What a user sees\<close>

lemma nonadmin_user:
  "\<not> in_admin_group groups \<Longrightarrow> pfstop_start rnd name groups args = Run (interval, flt) \<Longrightarrow> filter_user flt = Some name"
  by (auto simp: pfstop_start_def split: outcome.splits)

lemma group_list_uid: "''uid'' \<in> set (group_list g) \<longleftrightarrow> g \<notin> {1, 5, 6}"
  by (simp add: group_list_def)

text \<open>The pass over the tuples of one server with a user filter.\<close>

definition entry_uid :: "env \<Rightarrow> string \<Rightarrow> string option" where
  "entry_uid E t = (case map_of (the (entry_fields E t)) ''uid'' of Some (TString u) \<Rightarrow> Some u | _ \<Rightarrow> None)"

lemma passes_user:
  assumes "passes flt server gts fs" "filter_user flt = Some u" "''uid'' \<in> set gts" "distinct gts"
    and "map_of fs ''uid'' = Some (TString v)"
  shows "v = u"
proof -
  let ?get = "\<lambda>k. map_option tag_val (map_of fs k)" and ?ps = "map (\<lambda>g. (g, g)) gts"
  have "map snd ?ps = gts" by (simp add: comp_def)
  then have "map_of (copied ?get ?ps []) ''uid'' = (case ?get ''uid'' of None \<Rightarrow> map_of [] ''uid'' | Some x \<Rightarrow> Some x)"
    using assms(3,4) by (intro map_of_copied) auto
  then have "map_of (grouped gts fs) ''uid'' = Some (JString v)"
    unfolding grouped_def assms(5) by (simp only: option.map option.case tag_val_def json.case)
  then show ?thesis using assms(1,2) unfolding passes_def by blast
qed

definition own_entry :: "env \<Rightarrow> string \<Rightarrow> string \<times> jval \<Rightarrow> bool" where
  "own_entry E name = (\<lambda>(t, st). entry_uid E t = None \<or> entry_uid E t = Some name)"

lemma group_pairs_own:
  assumes "filter_user flt = Some u" "''uid'' \<in> set gts" "distinct gts"
  shows "group_pairs E flt server gts h es = group_pairs E flt server gts h (filter (own_entry E u) es)"
proof -
  have "own_entry E u (t, st)" if "passes flt server gts (the (entry_fields E t))" for t st
    using passes_user[OF that assms] by (auto simp: own_entry_def entry_uid_def split: option.splits json.splits)
  then have "filter (\<lambda>(t, st). passes flt server gts (the (entry_fields E t))) es =
      filter (\<lambda>(t, st). passes flt server gts (the (entry_fields E t))) (filter (own_entry E u) es)"
    by (induction es) auto
  then show ?thesis by (simp add: group_pairs_def)
qed

lemma user_filter_inactive: "''uid'' \<notin> set gts \<Longrightarrow> passes flt server gts fs = passes (flt\<lparr>filter_user := u\<rparr>) server gts fs"
proof -
  assume "''uid'' \<notin> set gts"
  then have "map_of (grouped gts fs) ''uid'' = None"
    unfolding grouped_def using map_of_copied_other[of "''uid''" "map (\<lambda>g. (g, g)) gts"] by (simp add: image_iff)
  then show ?thesis by (simp add: passes_def)
qed

lemma client_filter_inactive: "passes (flt\<lparr>filter_client := c\<rparr>) server gts fs = passes flt server gts fs"
  by (simp add: passes_def)


definition sample_users :: heap where
  "sample_users = [Obj (map (\<lambda>g. (g, JString '''')) (group_list 2)), Obj [(''open'', JDouble 2)], Obj [(''open'', JDouble 3)], Obj []]"


end
