(* ===== verification/Table.thy ===== *)
theory Table
  imports Viewer
begin

text \<open>
  The rows of the viewer's table: \<open>da_refresh\<close> makes one row of every tag tuple of the screen map, with the
  tags of its text and its event columns.
\<close>

text \<open>What a row shows for a tuple: the column if the tuple has it, else the tag.\<close>

definition row_spec :: "env \<Rightarrow> heap \<Rightarrow> string \<times> jval \<Rightarrow> string \<Rightarrow> jval option" where
  "row_spec E h = (\<lambda>(t, te) k.
     (case (if k \<in> set columns then object_get_ex h te k else None) of
        Some x \<Rightarrow> Some x
      | None \<Rightarrow> map_option tag_val (map_of (the (entry_fields E t)) k)))"

definition shown :: "(string \<times> jval) list \<Rightarrow> (string \<times> jval) list" where
  "shown = filter (\<lambda>(t, te). t \<noteq> ''time'')"

definition tuples_ok :: "env \<Rightarrow> heap \<Rightarrow> (string \<times> jval) list \<Rightarrow> bool" where
  "tuples_ok E h es \<longleftrightarrow> (\<forall>(t, te) \<in> set es. t \<noteq> ''time'' \<longrightarrow> tags_ok E t \<and> is_obj h te)"

definition all_tuples :: "heap \<Rightarrow> (string \<times> jval) list \<Rightarrow> (string \<times> jval) list" where
  "all_tuples h servers = concat (map (\<lambda>(s, se). shown (fields_at h se)) servers)"

lemma lookup_columns:
  "map_of (copied get (map (\<lambda>c. (c, c)) cs) kvs) k =
    (case (if k \<in> set cs then get k else None) of Some x \<Rightarrow> Some x | None \<Rightarrow> map_of kvs k)"
  by (induction cs arbitrary: kvs) (auto split: option.splits)

lemma row_step:
  assumes "t \<noteq> ''time''" "tags_ok E t" "node_of h arr = Some (Arr vs)" "is_obj h te"
  shows "ok (da_row E False arr evs (t, te) h) (\<lambda>h'. \<exists>v. node_of h' arr = Some (Arr (vs @ [v])) \<and> is_obj h' v \<and>
    object_get_ex h' v = row_spec E h (t, te) \<and> keeps {arr} h h')"
proof -
  obtain fs where fs: "entry_fields E t = Some fs" "canon_fields fs" "distinct (keys fs)"
    "\<And>k x. (k, x) \<in> set fs \<Longrightarrow> plain_tree x" using assms(2) by (auto simp: tags_ok_def)
  have of_j: "of_json E t = Some (TObject fs)" using fs(1) by (auto simp: entry_fields_def split: option.splits json.splits)
  obtain v h1 where b: "build (TObject fs) h = (v, h1)" by (cases "build (TObject fs) h")
  have p: "tokener_parse E t h = Some (v, h1)" by (simp only: tokener_parse_def of_j option.case b)
  have pf: "keeps {} h h1" "object_get_ex h1 v k = map_option tag_val (map_of fs k)" "is_obj h1 v" for k
    using parsed_fields[OF p fs(1-3)] fs(4) by blast+
  have "newer h h1 v" using build_frame(1)[OF b] by simp
  then have v: "node_of h v = None" by (auto simp: newer_def node_of_def split: jval.splits)
  have te: "te \<noteq> v" "object_get_ex h1 te = object_get_ex h te"
    using assms(4) v keeps_node[OF pf(1)] by (auto simp: is_obj_def fun_eq_iff)
  have arr: "node_of h1 arr = Some (Arr vs)" "arr \<noteq> v" using keeps_node[OF pf(1) assms(3)] assms(3) v by auto
  obtain kvs where kvs: "node_of h1 v = Some (Obj kvs)" using pf(3)[unfolded is_obj_def] ..
  let ?row = "copied (object_get_ex h te) (map (\<lambda>c. (c, c)) columns) kvs"
  let ?h2 = "store v (Obj ?row) h1" and ?h' = "store arr (Arr (vs @ [v])) (store v (Obj ?row) h1)"
  have c: "copy_tags te (map (\<lambda>c. (c, c)) columns) v h1 = Some ?h2"
    using copy_tags_obj[OF kvs te(1), of "map (\<lambda>c. (c, c)) columns"] te(2) by simp
  have eq: "da_row E False arr evs (t, te) h = Some ?h'" using assms(1) arr c by (simp add: da_row_def p)
  have lk: "object_get_ex ?h' v k = row_spec E h (t, te) k" for k
    using kvs arr pf(2)[of k] by (simp add: lookup_columns row_spec_def fs(1) split: option.split)
  have "keeps {arr} h ?h'"
  proof -
    have "keeps {v} h1 ?h2" by (rule keeps_store_obj[OF kvs]) simp
    then have "keeps {v} h ?h2" by (rule keeps_trans[OF keeps_mono[OF pf(1)] , rotated]) simp
    then have "keeps {arr} h ?h2" by (rule keeps_fresh) (use v in simp)
    moreover have "keeps {arr} ?h2 ?h'" by (rule keeps_store_arr[where vs = vs]) (use arr in simp_all)
    ultimately show ?thesis by (rule keeps_trans)
  qed
  moreover have "node_of ?h' arr = Some (Arr (vs @ [v]))" "is_obj ?h' v" using arr kvs by (auto simp: is_obj_def)
  ultimately show ?thesis using eq lk by (auto simp: fun_eq_iff)
qed

text \<open>Rows only depend on the tuples, which the table leaves alone.\<close>

lemma row_spec_keeps:
  assumes "keeps {arr} h g" "node_of h arr = Some (Arr vs)" "is_obj h te"
  shows "row_spec E g (t, te) = row_spec E h (t, te)"
proof -
  obtain kvs where te: "node_of h te = Some (Obj kvs)" using assms(3) by (auto simp: is_obj_def)
  then have "te \<notin> {arr}" using assms(2) by auto
  then have "object_get_ex g te = object_get_ex h te" using keeps_node[OF assms(1) te] te by (simp add: fun_eq_iff)
  then show ?thesis unfolding row_spec_def by (simp only: prod.case)
qed

definition rows_are :: "env \<Rightarrow> heap \<Rightarrow> jval \<Rightarrow> jval list \<Rightarrow> (string \<times> jval) list \<Rightarrow> heap \<Rightarrow> bool" where
  "rows_are E h arr vs0 ps g \<longleftrightarrow> keeps {arr} h g \<and> (\<exists>vs. node_of g arr = Some (Arr (vs0 @ vs)) \<and>
    map (object_get_ex g) vs = map (row_spec E h) ps \<and> (\<forall>v \<in> set vs. is_obj g v))"

lemma rows_add:
  assumes I: "rows_are E h arr vs0 ps g" and h: "node_of h arr = Some (Arr ws)"
    and t: "t \<noteq> ''time''" "tags_ok E t" "is_obj h te"
  shows "ok (da_row E False arr evs (t, te) g) (rows_are E h arr vs0 (ps @ [(t, te)]))"
proof -
  obtain vs where k: "keeps {arr} h g" and vs: "node_of g arr = Some (Arr (vs0 @ vs))"
    "map (object_get_ex g) vs = map (row_spec E h) ps" "\<forall>v \<in> set vs. is_obj g v"
    using I unfolding rows_are_def by blast
  obtain kvs where te: "node_of h te = Some (Obj kvs)" using t(3) by (auto simp: is_obj_def)
  then have "te \<notin> {arr}" using h by auto
  then have tg: "is_obj g te" using keeps_node[OF k te] by (auto simp: is_obj_def)
  show ?thesis
  proof (rule ok_mono[OF row_step[OF t(1,2) vs(1) tg]])
    fix g'
    assume "\<exists>v. node_of g' arr = Some (Arr ((vs0 @ vs) @ [v])) \<and> is_obj g' v \<and>
      object_get_ex g' v = row_spec E g (t, te) \<and> keeps {arr} g g'"
    then obtain v where v: "node_of g' arr = Some (Arr (vs0 @ (vs @ [v])))" "is_obj g' v"
      "object_get_ex g' v = row_spec E h (t, te)" and k': "keeps {arr} g g'"
      using row_spec_keeps[OF k h t(3)] by auto
    have old: "object_get_ex g' w = object_get_ex g w \<and> is_obj g' w" if "w \<in> set vs" for w
    proof -
      have "is_obj g w" using vs(3) that by blast
      then obtain ks where w: "node_of g w = Some (Obj ks)" by (auto simp: is_obj_def)
      then have "w \<notin> {arr}" using vs(1) by auto
      then show ?thesis using keeps_node[OF k' w] w by (auto simp: is_obj_def fun_eq_iff)
    qed
    then have "map (object_get_ex g') vs = map (object_get_ex g) vs" by simp
    then have "map (object_get_ex g') (vs @ [v]) = map (row_spec E h) (ps @ [(t, te)])" using vs(2) v(3) by simp
    moreover have "\<forall>w \<in> set (vs @ [v]). is_obj g' w" using old v(2) by auto
    ultimately show "rows_are E h arr vs0 (ps @ [(t, te)]) g'"
      unfolding rows_are_def using keeps_trans[OF k k'] v(1) by blast
  qed
qed

lemma rows_of_server:
  assumes I: "rows_are E h arr vs0 ps g" and h: "node_of h arr = Some (Arr ws)" and es: "tuples_ok E h es"
  shows "ok (foldM (da_row E False arr evs) es g) (rows_are E h arr vs0 (ps @ shown es))"
proof (rule ok_foldM[where I = "\<lambda>ys. rows_are E h arr vs0 (ps @ shown ys)"])
  show "rows_are E h arr vs0 (ps @ shown []) g" using I by (simp add: shown_def)
next
  fix ys x zs g'
  assume x: "es = ys @ x # zs" and I': "rows_are E h arr vs0 (ps @ shown ys) g'"
  obtain t te where q: "x = (t, te)" by (cases x)
  show "ok (da_row E False arr evs x g') (rows_are E h arr vs0 (ps @ shown (ys @ [x])))"
  proof (cases "t = ''time''")
    case True
    then show ?thesis using I' q by (simp add: da_row_def shown_def)
  next
    case False
    then have "tags_ok E t" "is_obj h te" using es x q by (auto simp: tuples_ok_def)
    then show ?thesis using rows_add[OF I' h False] False q by (simp add: shown_def)
  qed
qed

definition servers_ok :: "env \<Rightarrow> heap \<Rightarrow> (string \<times> jval) list \<Rightarrow> bool" where
  "servers_ok E h servers \<longleftrightarrow> (\<forall>(s, se) \<in> set servers. \<exists>es. node_of h se = Some (Obj es) \<and> tuples_ok E h es)"

lemma rows_of_all:
  assumes h: "node_of h arr = Some (Arr [])" and ok: "servers_ok E h servers"
  shows "ok (foldM (da_server E False arr evs) servers h) (rows_are E h arr [] (all_tuples h servers))"
proof (rule ok_foldM[where I = "\<lambda>ys. rows_are E h arr [] (all_tuples h ys)"])
  show "rows_are E h arr [] (all_tuples h []) h" using h by (simp add: rows_are_def all_tuples_def)
next
  fix ys x zs g
  assume x: "servers = ys @ x # zs" and I: "rows_are E h arr [] (all_tuples h ys) g"
  obtain s se where q: "x = (s, se)" by (cases x)
  obtain es where es: "node_of h se = Some (Obj es)" "tuples_ok E h es" using ok x q by (auto simp: servers_ok_def)
  then have "se \<notin> {arr}" using h by auto
  then have "node_of g se = Some (Obj es)" using I keeps_node[OF _ es(1)] by (auto simp: rows_are_def)
  then have "da_server E False arr evs x g = foldM (da_row E False arr evs) es g" by (simp add: da_server_def q)
  then show "ok (da_server E False arr evs x g) (rows_are E h arr [] (all_tuples h (ys @ [x])))"
    using rows_of_server[OF I h es(2)] es(1) by (simp add: all_tuples_def q)
qed

text \<open>The comparison only looks at the sort column of the two rows.\<close>

definition sort_pair :: "env \<Rightarrow> jval option \<Rightarrow> jval option \<Rightarrow> int option" where
  "sort_pair E v1 v2 =
    (case (map_option (\<lambda>val. fl E (get_double E val * 100)) v1, map_option (\<lambda>val. fl E (get_double E val * 100)) v2) of
       (None, None) \<Rightarrow> Some 0
     | (None, Some d2) \<Rightarrow> Some 1
     | (Some d1, None) \<Rightarrow> Some (-1)
     | (Some d1, Some d2) \<Rightarrow> to_int (fl E (d2 - d1)))"

lemma sort_da_pair: "sort_da E h k a b = sort_pair E (object_get_ex h a k) (object_get_ex h b k)"
  by (simp add: sort_da_def sort_pair_def sort_value_def)

text \<open>The header columns of the plain view.\<close>

lemma header_loop:
  "node_of h evs = Some (Obj kvs) \<Longrightarrow> distinct (keys kvs @ cs) \<Longrightarrow>
    ok (foldM (\<lambda>c. object_add evs c (JString '''')) cs h) (\<lambda>h'. node_of h' evs = Some (Obj (kvs @ map (\<lambda>c. (c, JString '''')) cs)) \<and>
      keeps {evs} h h')"
proof (induction cs arbitrary: h kvs)
  case (Cons c cs)
  let ?h = "store evs (Obj (kvs @ [(c, JString '''')])) h"
  have "AList.update c (JString '''') kvs = kvs @ [(c, JString '''')]" using Cons.prems(2) by (intro update_fresh) auto
  then have step: "object_add evs c (JString '''') h = Some ?h" using Cons.prems(1) by simp
  have k: "keeps {evs} h ?h" by (rule keeps_store_obj[OF Cons.prems(1)]) simp
  have "ok (foldM (\<lambda>c. object_add evs c (JString '''')) cs ?h) (\<lambda>h'. node_of h' evs =
      Some (Obj ((kvs @ [(c, JString '''')]) @ map (\<lambda>c. (c, JString '''')) cs)) \<and> keeps {evs} ?h h')"
    by (rule Cons.IH) (use Cons.prems in auto)
  then show ?case unfolding foldM.simps step option.case by (rule ok_mono) (use k keeps_trans in auto)
qed simp

lemma qsort_perm: "qsort_ok qsort \<Longrightarrow> sort_rows qsort E h k rows = Some out \<Longrightarrow> mset out = mset rows"
  by (auto simp: sort_rows_def qsort_ok_def split: if_splits)

section \<open>Property\<close>

text \<open>C15. The table shows the shared data: when the values of the sort column can be compared, refreshing builds one row
  for every tag tuple of every server, and no others, each row with the tags of its tuple and with the
  tuple's own values in the event columns; the header has exactly these five columns.\<close>

theorem da_refresh_rows:
  assumes "qsort_ok qsort" "\<not> detailed s" "node_of (hp (sst s)) (screen_map (sst s)) = Some (Obj servers)"
    and "servers_ok E (hp (sst s)) servers"
    and "\<forall>p \<in> set (all_tuples (hp (sst s)) servers). \<forall>q \<in> set (all_tuples (hp (sst s)) servers).
      sort_pair E (row_spec E (hp (sst s)) p (sortbykey s)) (row_spec E (hp (sst s)) q (sortbykey s)) \<noteq> None"
  shows "ok (da_refresh E qsort s) (\<lambda>s'. \<exists>rows. node_of (hp (sst s')) (scrdata_array s') = Some (Arr rows) \<and>
    mset (map (object_get_ex (hp (sst s'))) rows) = mset (map (row_spec E (hp (sst s))) (all_tuples (hp (sst s)) servers)) \<and>
    da_len s' = int (length (all_tuples (hp (sst s)) servers)) \<and>
    node_of (hp (sst s')) (screvents s') = Some (Obj (map (\<lambda>c. (c, JString '''')) columns)))"
proof -
  let ?h = "hp (sst s)" and ?k = "sortbykey s"
  let ?arr = "JRef (length ?h)" and ?h1 = "push (Arr []) ?h"
  let ?evs = "JRef (length ?h1)" and ?h2 = "push (Obj []) ?h1"
  have ne: "?arr \<noteq> ?evs" by simp
  have "ok (foldM (\<lambda>c. object_add ?evs c (JString '''')) columns ?h2) (\<lambda>h'. node_of h' ?evs =
      Some (Obj ([] @ map (\<lambda>c. (c, JString '''')) columns)) \<and> keeps {?evs} ?h2 h')"
    by (rule header_loop) (simp_all add: columns_def)
  then obtain h3 where h3: "foldM (\<lambda>c. object_add ?evs c (JString '''')) columns ?h2 = Some h3"
    "node_of h3 ?evs = Some (Obj (map (\<lambda>c. (c, JString '''')) columns))" "keeps {?evs} ?h2 h3"
    by (auto elim: okE)
  have k03: "keeps {} ?h h3"
  proof -
    have "keeps {?evs} ?h h3" by (rule keeps_trans[OF _ h3(3)]) (rule keeps_trans[OF keeps_push keeps_push])
    then show ?thesis by (rule keeps_fresh) (simp add: node_of_def)
  qed
  have arr3: "node_of h3 ?arr = Some (Arr [])" using keeps_node[OF h3(3), of ?arr "Arr []"] ne by simp
  have same: "row_spec E h3 (t, te) = row_spec E ?h (t, te)" if "is_obj ?h te" for t te
  proof -
    have "is_obj ?h te" by (rule that)
    then obtain kvs where "node_of ?h te = Some (Obj kvs)" by (auto simp: is_obj_def)
    then have "object_get_ex h3 te = object_get_ex ?h te" using keeps_node[OF k03] by (simp add: fun_eq_iff)
    then show ?thesis unfolding row_spec_def by (simp only: prod.case)
  qed
  have ob: "is_obj h3 te" if "is_obj ?h te" for te using that keeps_node[OF k03] by (auto simp: is_obj_def)
  have ok3: "servers_ok E h3 servers"
    using assms(4) keeps_node[OF k03] ob unfolding servers_ok_def tuples_ok_def by fastforce
  have tup: "all_tuples h3 servers = all_tuples ?h servers"
    using assms(4) keeps_node[OF k03] unfolding all_tuples_def servers_ok_def by (fastforce intro!: arg_cong[where f = concat])
  have specs: "map (row_spec E h3) (all_tuples ?h servers) = map (row_spec E ?h) (all_tuples ?h servers)"
    using assms(4) same by (fastforce simp: all_tuples_def servers_ok_def tuples_ok_def shown_def)
  obtain h4 where h4: "foldM (da_server E (detailed s) ?arr ?evs) servers h3 = Some h4"
    and r: "rows_are E h3 ?arr [] (all_tuples ?h servers) h4"
    using rows_of_all[OF arr3 ok3, of ?evs] assms(2) unfolding tup by (auto elim: okE)
  then obtain rows where rows: "node_of h4 ?arr = Some (Arr rows)" "keeps {?arr} h3 h4" "\<forall>v \<in> set rows. is_obj h4 v"
    "map (object_get_ex h4) rows = map (row_spec E ?h) (all_tuples ?h servers)"
    unfolding rows_are_def specs by auto
  have "sort_da E h4 ?k a b \<noteq> None" if "a \<in> set rows" "b \<in> set rows" for a b
  proof -
    have "object_get_ex h4 v \<in> row_spec E ?h ` set (all_tuples ?h servers)" if "v \<in> set rows" for v
      using rows(4) that by (metis imageI set_map)
    note im = this[OF that(1)] this[OF that(2)]
    obtain p where p: "p \<in> set (all_tuples ?h servers)" "object_get_ex h4 a = row_spec E ?h p" using im(1) by (rule imageE)
    obtain q where q: "q \<in> set (all_tuples ?h servers)" "object_get_ex h4 b = row_spec E ?h q" using im(2) by (rule imageE)
    show ?thesis using bspec[OF bspec[OF assms(5) p(1)] q(1)] unfolding sort_da_pair p(2) q(2) .
  qed
  then obtain out where out: "sort_rows qsort E h4 ?k rows = Some out" by (simp add: sort_rows_def)
  have perm: "mset out = mset rows" by (rule qsort_perm[OF assms(1) out])
  let ?h5 = "store ?arr (Arr out) h4"
  have "object_get_ex ?h5 = object_get_ex h4"
  proof
    fix v
    show "object_get_ex ?h5 v = object_get_ex h4 v"
      using rows(1) by (cases "v = ?arr") (simp_all add: object_get_ex_def obj_of_def fun_eq_iff)
  qed
  then have "mset (map (object_get_ex ?h5) out) = mset (map (row_spec E ?h) (all_tuples ?h servers))"
    using perm rows(4) by (metis mset_map)
  moreover have "length out = length (all_tuples ?h servers)"
    using perm rows(4) by (metis length_map mset_eq_length)
  moreover have "node_of ?h5 ?evs = Some (Obj (map (\<lambda>c. (c, JString '''')) columns))"
    using keeps_node[OF rows(2) h3(2)] ne by simp
  moreover have "da_refresh E qsort s = Some (s\<lparr>sst := (sst s)\<lparr>hp := ?h5\<rparr>, scrdata_array := ?arr, screvents := ?evs,
      da_len := int (length out)\<rparr>)"
    using h3(1) h4 rows(1) out keeps_node[OF k03 assms(3)]
    by (simp add: da_refresh_def new_array_def new_object_def new_node_def)
  ultimately show ?thesis using rows(1) by simp
qed

definition sample_screen :: screen where
  "sample_screen = (screen_start ((map_init [])\<lparr>screen_map := JRef 0, hp := [Obj [(''mds1'', JRef 1)],
    Obj [(''u1'', JRef 2), (''u2'', JRef 3), (''time'', JInt 5)], Obj [(''iops'', JDouble 5)], Obj [(''iops'', JDouble 9)]]\<rparr>))
    \<lparr>sortbykey := ''iops''\<rparr>"

theorem da_refresh_rows_witness:
  "ok (da_refresh sample_env insertion_qsort sample_screen) (\<lambda>s'. da_len s' = 2)"
proof -
  let ?h = "hp (sst sample_screen)"
  have n: "node_of ?h (JRef 0) = Some (Obj [(''mds1'', JRef 1)])"
    "node_of ?h (JRef 1) = Some (Obj [(''u1'', JRef 2), (''u2'', JRef 3), (''time'', JInt 5)])"
    "node_of ?h (JRef 2) = Some (Obj [(''iops'', JDouble 5)])" "node_of ?h (JRef 3) = Some (Obj [(''iops'', JDouble 9)])"
    by (simp_all add: sample_screen_def screen_start_def new_array_def new_object_def new_node_def node_of_def push_def)
  have m: "screen_map (sst sample_screen) = JRef 0" "\<not> detailed sample_screen" "sortbykey sample_screen = ''iops''"
    by (simp_all add: sample_screen_def screen_start_def new_array_def new_object_def new_node_def)
  have sv: "servers_ok sample_env ?h [(''mds1'', JRef 1)]"
    using n sample_tags_ok by (auto simp: servers_ok_def tuples_ok_def is_obj_def simp del: One_nat_def)
  have t: "all_tuples ?h [(''mds1'', JRef 1)] = [(''u1'', JRef 2), (''u2'', JRef 3)]"
    using n by (simp add: all_tuples_def shown_def del: One_nat_def)
  have "\<forall>p \<in> set (all_tuples ?h [(''mds1'', JRef 1)]). \<forall>q \<in> set (all_tuples ?h [(''mds1'', JRef 1)]).
      sort_pair sample_env (row_spec sample_env ?h p ''iops'') (row_spec sample_env ?h q ''iops'') \<noteq> None"
    unfolding t using n by (simp add: row_spec_def columns_def sort_pair_def get_double_def sample_env_def plain_env_def
        to_int_def truncate_def int_min_def int_max_def)
  then show ?thesis
    using da_refresh_rows[OF insertion_qsort_ok m(2), of "[(''mds1'', JRef 1)]" sample_env] n(1) sv t m
    by (auto simp: ok_def simp del: One_nat_def)
qed

end
