(* ===== verification/Daemon.thy ===== *)
theory Daemon
  imports Scan Options
begin

text \<open>
  Background operation: \<open>daemonize.c\<close> (one copy for the servers, one for the client),
  \<open>pidfile_create.c\<close>, and the handler of the interrupt signal, which removes the pid file.

  The file system is seen through one pid file: the inode its name refers to, and for every inode its
  text and the process that holds the lock on it.  Instances of a daemon are processes of a step relation
  whose steps are the calls of the code in their order, so that they may interleave.
\<close>

section \<open>Going to the background\<close>

text \<open>The results of \<open>fork\<close>, \<open>setsid\<close> and the second \<open>fork\<close> decide which process goes on.\<close>

definition detach :: "int \<Rightarrow> int \<Rightarrow> int \<Rightarrow> unit outcome" where
  "detach pid1 sid pid2 =
    (if pid1 < 0 then Exit 1
     else if 0 < pid1 then Exit 0
     else if sid < 0 then Exit 1
     else if pid2 < 0 then Exit 1
     else if 0 < pid2 then Exit 0
     else Run ())"

section \<open>The pid file\<close>

record pidfile =
  entry :: "nat option"
  locked :: "nat \<Rightarrow> nat option"
  contents :: "nat \<Rightarrow> string"
  fresh :: nat

text \<open>\<open>open\<close> with \<open>O_CREAT\<close>: the inode of the name, or a new one.\<close>

definition open_pidfile :: "pidfile \<Rightarrow> nat \<times> pidfile" where
  "open_pidfile f =
    (case entry f of
       Some i \<Rightarrow> (i, f)
     | None \<Rightarrow> (fresh f, f\<lparr>entry := Some (fresh f), contents := (contents f)(fresh f := ''''), fresh := Suc (fresh f)\<rparr>))"

text \<open>\<open>lockf\<close> with \<open>F_TLOCK\<close>: fails when another process holds the lock.\<close>

definition lock_pidfile :: "nat \<Rightarrow> nat \<Rightarrow> pidfile \<Rightarrow> pidfile option" where
  "lock_pidfile pid i f =
    (if locked f i = None \<or> locked f i = Some pid then Some (f\<lparr>locked := (locked f)(i := Some pid)\<rparr>) else None)"

definition pid_text :: "nat \<Rightarrow> string" where
  "pid_text pid = show_nat pid @ [newline]"

text \<open>\<open>daemonize\<close> writes over what the file holds; \<open>pidfile_create\<close> empties it first.\<close>

definition write_over :: "string \<Rightarrow> string \<Rightarrow> string" where
  "write_over new old = new @ drop (length new) old"

definition write_pid :: "nat \<Rightarrow> nat \<Rightarrow> pidfile \<Rightarrow> pidfile" where
  "write_pid pid i f = f\<lparr>contents := (contents f)(i := write_over (pid_text pid) (contents f i))\<rparr>"

definition pidfile_create :: "nat \<Rightarrow> pidfile \<Rightarrow> (nat \<times> pidfile) option" where
  "pidfile_create pid f =
    (case open_pidfile f of (i, f1) \<Rightarrow>
       (case lock_pidfile pid i f1 of
          None \<Rightarrow> None
        | Some f2 \<Rightarrow> Some (i, f2\<lparr>contents := (contents f2)(i := pid_text pid)\<rparr>)))"

text \<open>The whole of \<open>daemonize\<close> in a process that nothing interrupts; the name of the pid file is the global
  variable of \<open>daemonize.h\<close>.\<close>

definition daemonize :: "bool \<Rightarrow> int \<times> int \<times> int \<Rightarrow> nat \<Rightarrow> pidfile \<Rightarrow> (nat option \<times> pidfile) outcome" where
  "daemonize named results pid f =
    (case results of (pid1, sid, pid2) \<Rightarrow>
       (case detach pid1 sid pid2 of
          Exit n \<Rightarrow> Exit n
        | Run u \<Rightarrow>
            if \<not> named then Run (None, f)
            else (case open_pidfile f of (i, f1) \<Rightarrow>
              (case lock_pidfile pid i f1 of
                 None \<Rightarrow> Exit 1
               | Some f2 \<Rightarrow> Run (Some i, write_pid pid i f2)))))"

text \<open>The main functions of the servers set a local variable that hides the global name; that of the client sets
  the global one.\<close>

definition server_daemon :: "int \<times> int \<times> int \<Rightarrow> nat \<Rightarrow> pidfile \<Rightarrow> (nat option \<times> pidfile) outcome" where
  "server_daemon = daemonize False"

definition client_daemon :: "int \<times> int \<times> int \<Rightarrow> nat \<Rightarrow> pidfile \<Rightarrow> (nat option \<times> pidfile) outcome" where
  "client_daemon = daemonize True"

section \<open>Instances\<close>

datatype phase = Idle | Opened nat | Running nat | Refused | Unlocked | Stopped

record system =
  pidf :: pidfile
  phase_of :: "nat \<Rightarrow> phase"

definition boot :: system where
  "boot = \<lparr>pidf = \<lparr>entry = None, locked = (\<lambda>_. None), contents = (\<lambda>_. ''''), fresh = 0\<rparr>, phase_of = (\<lambda>_. Idle)\<rparr>"

definition enter_phase :: "nat \<Rightarrow> phase \<Rightarrow> pidfile \<Rightarrow> system \<Rightarrow> system" where
  "enter_phase p ph f s = s\<lparr>pidf := f, phase_of := (phase_of s)(p := ph)\<rparr>"

text \<open>\<open>signal_cb_int\<close>: unlock and close, then unlink.\<close>

definition unlock_pidfile :: "nat \<Rightarrow> pidfile \<Rightarrow> pidfile" where
  "unlock_pidfile i f = f\<lparr>locked := (locked f)(i := None)\<rparr>"

definition unlink_pidfile :: "pidfile \<Rightarrow> pidfile" where
  "unlink_pidfile f = f\<lparr>entry := None\<rparr>"

text \<open>The calls of one instance.\<close>

definition do_open :: "nat \<Rightarrow> system \<Rightarrow> system" where
  "do_open p s = (case open_pidfile (pidf s) of (i, f) \<Rightarrow> enter_phase p (Opened i) f s)"

definition do_lock :: "nat \<Rightarrow> nat \<Rightarrow> system \<Rightarrow> system" where
  "do_lock p i s =
    (case lock_pidfile p i (pidf s) of
       None \<Rightarrow> enter_phase p Refused (pidf s) s
     | Some f \<Rightarrow> enter_phase p (Running i) (write_pid p i f) s)"

definition do_unlock :: "nat \<Rightarrow> nat \<Rightarrow> system \<Rightarrow> system" where
  "do_unlock p i s = enter_phase p Unlocked (unlock_pidfile i (pidf s)) s"

definition do_unlink :: "nat \<Rightarrow> system \<Rightarrow> system" where
  "do_unlink p s = enter_phase p Stopped (unlink_pidfile (pidf s)) s"

inductive start_step :: "system \<Rightarrow> system \<Rightarrow> bool" where
  open_file: "phase_of s p = Idle \<Longrightarrow> start_step s (do_open p s)"
| take_lock: "phase_of s p = Opened i \<Longrightarrow> start_step s (do_lock p i s)"

inductive daemon_step :: "system \<Rightarrow> system \<Rightarrow> bool" where
  start: "start_step s s' \<Longrightarrow> daemon_step s s'"
| release: "phase_of s p = Running i \<Longrightarrow> daemon_step s (do_unlock p i s)"
| remove_file: "phase_of s p = Unlocked \<Longrightarrow> daemon_step s (do_unlink p s)"

inductive_cases start_stepE: "start_step s s'"
inductive_cases daemon_stepE: "daemon_step s s'"

definition is_running :: "system \<Rightarrow> nat \<Rightarrow> bool" where
  "is_running s p \<longleftrightarrow> (\<exists>i. phase_of s p = Running i)"

text \<open>While nobody stops, all instances have opened the inode of the name, and the lock is held by the one that
  runs.\<close>

definition starts_ok :: "system \<Rightarrow> bool" where
  "starts_ok s \<longleftrightarrow>
    (\<forall>p i. phase_of s p \<in> {Opened i, Running i} \<longrightarrow> entry (pidf s) = Some i) \<and>
    (\<forall>p i. phase_of s p = Running i \<longrightarrow> locked (pidf s) i = Some p)"

lemma open_pidfile_entry: "open_pidfile f = (i, f') \<Longrightarrow>
    entry f' = Some i \<and> locked f' = locked f \<and> (entry f = Some i \<or> entry f = None)"
  by (auto simp: open_pidfile_def split: option.splits)

lemma starts_ok_open: "starts_ok s \<Longrightarrow> starts_ok (do_open p s)"
proof -
  assume s: "starts_ok s"
  obtain i f where o: "open_pidfile (pidf s) = (i, f)" by (cases "open_pidfile (pidf s)")
  have e: "entry f = Some i" "locked f = locked (pidf s)" "entry (pidf s) = Some j \<Longrightarrow> j = i" for j
    using open_pidfile_entry[OF o] by auto
  show ?thesis using s unfolding starts_ok_def do_open_def o prod.case enter_phase_def
    by (auto simp: e split: if_splits dest: e(3))
qed

lemma starts_ok_lock:
  assumes s: "starts_ok s" and i: "phase_of s p = Opened i"
  shows "starts_ok (do_lock p i s)"
proof (cases "lock_pidfile p i (pidf s)")
  case None
  then show ?thesis using s by (auto simp: do_lock_def starts_ok_def enter_phase_def split: if_splits)
next
  case (Some f)
  then have f: "entry f = entry (pidf s)" "locked f = (locked (pidf s))(i := Some p)" "locked (pidf s) i \<in> {None, Some p}"
    by (auto simp: lock_pidfile_def split: if_splits)
  have e: "entry (pidf s) = Some i" and en: "\<And>q j. phase_of s q = Opened j \<or> phase_of s q = Running j \<Longrightarrow> entry (pidf s) = Some j"
    and l: "\<And>q j. phase_of s q = Running j \<Longrightarrow> locked (pidf s) j = Some q"
    using s i unfolding starts_ok_def by blast+
  have "q = p" if "phase_of s q = Running j" for q j using en[of q j] l[OF that] e f(3) that by auto
  then show ?thesis using Some f(1,2) e en l i
    by (auto simp: do_lock_def starts_ok_def enter_phase_def write_pid_def)
qed

lemma starts_ok_step: "start_step s s' \<Longrightarrow> starts_ok s \<Longrightarrow> starts_ok s'"
  by (erule start_stepE) (simp_all add: starts_ok_open starts_ok_lock)

lemma starts_ok_reach: "start_step\<^sup>*\<^sup>* boot s \<Longrightarrow> starts_ok s"
proof (induction rule: rtranclp_induct)
  case base
  show ?case by (simp add: boot_def starts_ok_def)
next
  case (step s s')
  then show ?case by (simp add: starts_ok_step)
qed

section \<open>Properties\<close>


text \<open>The first instance to start, and the states of the race.\<close>

definition started :: "nat \<Rightarrow> system" where
  "started p = do_lock p 0 (do_open p boot)"

lemmas run_defs = do_open_def do_lock_def do_unlock_def do_unlink_def enter_phase_def open_pidfile_def lock_pidfile_def
  write_pid_def unlock_pidfile_def unlink_pidfile_def boot_def

lemma started_reach: "start_step\<^sup>*\<^sup>* boot (started p)"
proof -
  have "start_step boot (do_open p boot)" by (rule open_file) (simp add: boot_def)
  moreover have "start_step (do_open p boot) (started p)"
    unfolding started_def by (rule take_lock) (simp add: run_defs)
  ultimately show ?thesis by simp
qed


lemma start_daemon: "start_step\<^sup>*\<^sup>* s s' \<Longrightarrow> daemon_step\<^sup>*\<^sup>* s s'"
  by (induction rule: rtranclp_induct) (auto intro: daemon_step.start rtranclp.rtrancl_into_rtrancl)

text \<open>Stopping is not exclusive: the handler unlocks the pid file before it unlinks it, so another instance may lock
  the old file in between, and a third one a new file of the same name; then two instances run.\<close>

theorem pidfile_race: "\<exists>s p q. daemon_step\<^sup>*\<^sup>* boot s \<and> p \<noteq> q \<and> is_running s p \<and> is_running s q"
proof -
  define s1 where "s1 = do_unlock 1 0 (started 1)"
  define s2 where "s2 = do_open 2 s1"
  define s3 where "s3 = do_lock 2 0 s2"
  define s4 where "s4 = do_unlink 1 s3"
  define s5 where "s5 = do_open 3 s4"
  define s6 where "s6 = do_lock 3 1 s5"
  note d = s6_def s5_def s4_def s3_def s2_def s1_def started_def run_defs
  have "daemon_step\<^sup>*\<^sup>* boot (started 1)" by (rule start_daemon[OF started_reach])
  moreover have "daemon_step (started 1) s1" unfolding s1_def by (rule release) (simp add: started_def run_defs)
  moreover have "daemon_step s1 s2" unfolding s2_def by (rule start, rule open_file) (simp add: d)
  moreover have "daemon_step s2 s3" unfolding s3_def by (rule start, rule take_lock) (simp add: d)
  moreover have "daemon_step s3 s4" unfolding s4_def by (rule remove_file) (simp add: d)
  moreover have "daemon_step s4 s5" unfolding s5_def by (rule start, rule open_file) (simp add: d)
  moreover have "daemon_step s5 s6" unfolding s6_def by (rule start, rule take_lock) (simp add: d)
  ultimately have "daemon_step\<^sup>*\<^sup>* boot s6" by (meson rtranclp.rtrancl_into_rtrancl)
  moreover have "is_running s6 2" "is_running s6 3" by (simp_all add: d is_running_def)
  ultimately show ?thesis by (intro exI[of _ s6] exI[of _ 2] exI[of _ 3]) simp
qed

text \<open>The pid file names the process that locked it: whatever an earlier instance left in the file, its first line read
  as a number is the pid that was written last.\<close>

theorem pid_file_round_trip:
  "atoi (takeWhile (\<lambda>c. c \<noteq> newline) (contents (write_pid pid i f) i)) = int pid"
proof -
  have "newline \<notin> set (show_nat pid)" using show_nat_digits[of newline pid] by (auto simp: is_digit_def newline_def)
  then have "takeWhile (\<lambda>c. c \<noteq> newline) (contents (write_pid pid i f) i) = show_nat pid"
    by (auto simp: write_pid_def write_over_def pid_text_def takeWhile_append1 takeWhile_tail)
  then show ?thesis by (simp add: atoi_show_nat)
qed

end
