(* ===== verification/Regions.thy ===== *)
theory Regions
  imports HostMap
begin

text \<open>
  A parsed document is a region of the store: a set of new nodes whose children are scalars or belong to
  the region.  What happens outside of the region does not change what it represents.
\<close>

definition plain :: "jval \<Rightarrow> bool" where
  "plain v \<longleftrightarrow> (\<forall>a. v \<noteq> JRef a)"

fun children :: "node \<Rightarrow> jval set" where
  "children (Obj kvs) = snd ` set kvs"
| "children (Arr vs) = set vs"

definition region :: "heap \<Rightarrow> jval set \<Rightarrow> bool" where
  "region h R \<longleftrightarrow> (\<forall>w n. w \<in> R \<longrightarrow> node_of h w = Some n \<longrightarrow> (\<forall>c \<in> children n. plain c \<or> c \<in> R))"

definition fresh_nodes :: "heap \<Rightarrow> heap \<Rightarrow> jval set" where
  "fresh_nodes h h' = {v. \<exists>a. v = JRef a \<and> length h \<le> a \<and> a < length h'}"

lemma newer_iff: "newer h h' v \<longleftrightarrow> plain v \<or> v \<in> fresh_nodes h h'"
  by (cases v) (auto simp: newer_def plain_def fresh_nodes_def)

lemma rep_region:
  shows "rep h v t \<Longrightarrow> region h R \<Longrightarrow> (\<And>w. w \<in> R \<Longrightarrow> node_of h' w = node_of h w) \<Longrightarrow> plain v \<or> v \<in> R \<Longrightarrow> rep h' v t"
    and "rep_list h vs ts \<Longrightarrow> region h R \<Longrightarrow> (\<And>w. w \<in> R \<Longrightarrow> node_of h' w = node_of h w) \<Longrightarrow>
      \<forall>v \<in> set vs. plain v \<or> v \<in> R \<Longrightarrow> rep_list h' vs ts"
    and "rep_fields h kvs fs \<Longrightarrow> region h R \<Longrightarrow> (\<And>w. w \<in> R \<Longrightarrow> node_of h' w = node_of h w) \<Longrightarrow>
      \<forall>v \<in> snd ` set kvs. plain v \<or> v \<in> R \<Longrightarrow> rep_fields h' kvs fs"
proof (induction h v t and h vs ts and h kvs fs rule: rep_rep_list_rep_fields.induct)
  case (6 h v ts)
  then obtain vs where vs: "node_of h v = Some (Arr vs)" "rep_list h vs ts" by (auto split: option.splits node.splits)
  have v: "v \<in> R" using 6(5) vs(1) by (auto simp: plain_def dest: node_of_ref)
  then have "\<forall>w \<in> set vs. plain w \<or> w \<in> R" using 6(3) vs(1) unfolding region_def by fastforce
  then have "rep_list h' vs ts" using 6(1)[OF vs(1) _ vs(2) 6(3,4)] by blast
  then show ?case using vs(1) 6(4)[OF v] by simp
next
  case (7 h v fs)
  then obtain kvs where kvs: "node_of h v = Some (Obj kvs)" "rep_fields h kvs fs" by (auto split: option.splits node.splits)
  have v: "v \<in> R" using 7(5) kvs(1) by (auto simp: plain_def dest: node_of_ref)
  then have "\<forall>w \<in> snd ` set kvs. plain w \<or> w \<in> R" using 7(3) kvs(1) unfolding region_def by fastforce
  then have "rep_fields h' kvs fs" using 7(1)[OF kvs(1) _ kvs(2) 7(3,4)] by blast
  then show ?case using kvs(1) 7(4)[OF v] by simp
qed (auto split: list.splits)

lemma region_fresh_keeps:
  assumes "region h1 (fresh_nodes h h1)" "keeps {} h1 h2" "region h2 (fresh_nodes h1 h2)" "length h \<le> length h1"
  shows "region h2 (fresh_nodes h h2)"
  unfolding region_def
proof (intro allI impI ballI)
  fix w n c
  assume w: "w \<in> fresh_nodes h h2" and n: "node_of h2 w = Some n" and c: "c \<in> children n"
  have len: "length h1 \<le> length h2" using keeps_length[OF assms(2)] .
  show "plain c \<or> c \<in> fresh_nodes h h2"
  proof (cases "w \<in> fresh_nodes h1 h2")
    case True
    then have "plain c \<or> c \<in> fresh_nodes h1 h2" using assms(3) n c unfolding region_def by blast
    then show ?thesis using assms(4) by (auto simp: fresh_nodes_def)
  next
    case False
    then have w1: "w \<in> fresh_nodes h h1" using w by (auto simp: fresh_nodes_def not_le)
    then obtain m where m: "node_of h1 w = Some m" by (auto simp: fresh_nodes_def node_of_def)
    then have "node_of h2 w = Some m" using keeps_node[OF assms(2) m] by simp
    then have "plain c \<or> c \<in> fresh_nodes h h1" using assms(1) w1 m n c unfolding region_def by auto
    then show ?thesis using len by (auto simp: fresh_nodes_def)
  qed
qed

lemma region_empty [simp]: "region h (fresh_nodes h h)"
  by (auto simp: region_def fresh_nodes_def)

lemma region_new_node:
  assumes "region h1 (fresh_nodes h h1)" "length h \<le> length h1" "\<forall>c \<in> children n. newer h h1 c"
  shows "region (push n h1) (fresh_nodes h (push n h1))"
  unfolding region_def
proof (intro allI impI ballI)
  fix w m c
  assume w: "w \<in> fresh_nodes h (push n h1)" and m: "node_of (push n h1) w = Some m" and c: "c \<in> children m"
  show "plain c \<or> c \<in> fresh_nodes h (push n h1)"
  proof (cases "w = JRef (length h1)")
    case True
    then have "newer h h1 c" using m c assms(3) by simp
    then show ?thesis by (auto simp: newer_iff fresh_nodes_def)
  next
    case False
    then have w1: "node_of h1 w = Some m" using m by simp
    then have "w \<in> fresh_nodes h h1" using w by (auto simp: fresh_nodes_def dest: node_of_ref)
    then have "plain c \<or> c \<in> fresh_nodes h h1" using assms(1) w1 c unfolding region_def by blast
    then show ?thesis by (auto simp: fresh_nodes_def)
  qed
qed

lemma build_region:
  shows "build t h = (v, h') \<Longrightarrow> region h' (fresh_nodes h h')"
    and "build_list ts h = (vs, h') \<Longrightarrow> region h' (fresh_nodes h h')"
    and "build_fields fs acc h = (kvs, h') \<Longrightarrow> region h' (fresh_nodes h h')"
proof (induction t h and ts h and fs acc h arbitrary: v h' and vs h' and kvs h' rule: build_build_list_build_fields.induct)
  case (6 ts h)
  obtain vs1 h1 where b: "build_list ts h = (vs1, h1)" by fastforce
  have "\<forall>c \<in> children (Arr vs1). newer h h1 c" "length h \<le> length h1"
    using build_frame(2)[OF b] by (auto dest: keeps_length)
  then have "region (push (Arr vs1) h1) (fresh_nodes h (push (Arr vs1) h1))" using region_new_node 6(1)[OF b] by blast
  then show ?case using 6(2) b by (simp add: new_node_def)
next
  case (7 fs h)
  obtain kvs1 h1 where b: "build_fields fs [] h = (kvs1, h1)" by fastforce
  have "\<forall>c \<in> children (Obj kvs1). newer h h1 c" "length h \<le> length h1"
    using build_frame(3)[OF b] by (auto dest: keeps_length)
  then have "region (push (Obj kvs1) h1) (fresh_nodes h (push (Obj kvs1) h1))" using region_new_node 7(1)[OF b] by blast
  then show ?case using 7(2) b by (simp add: new_node_def)
next
  case (9 t ts h)
  obtain v1 h1 where b: "build t h = (v1, h1)" by fastforce
  obtain vs2 h2 where b2: "build_list ts h1 = (vs2, h2)" by fastforce
  show ?case using 9(3) b b2 region_fresh_keeps[OF 9(1)[OF b] _ 9(2)[OF b[symmetric] refl b2]]
      build_frame(1)[OF b] build_frame(2)[OF b2] by (auto dest: keeps_length)
next
  case (11 k t fs acc h)
  obtain v1 h1 where b: "build t h = (v1, h1)" by fastforce
  have b2: "build_fields fs (AList.update k v1 acc) h1 = (kvs, h')" using 11(3) b by simp
  show ?case using region_fresh_keeps[OF 11(1)[OF b] _ 11(2)[OF b[symmetric] refl b2]]
      build_frame(1)[OF b] build_frame(3)[OF b2] by (auto dest: keeps_length)
qed auto

section \<open>A document that was handed to the host maps\<close>

text \<open>Every field of an accepted update still represents its document after the update.\<close>

lemma fields_kept:
  assumes "hosts_ok s" "build (TObject fs) (hp s) = (v, h)" "canon (TObject fs)"
    and "updated (s\<lparr>hp := h\<rparr>) v host s'" "map_of fs k = Some u"
  shows "\<exists>d. object_get_ex h v k = Some d \<and> rep (hp s') d u"
proof -
  let ?R = "fresh_nodes (hp s) h"
  have R: "region h ?R" by (rule build_region(1)[OF assms(2)])
  obtain kvs where kvs: "node_of h v = Some (Obj kvs)" "rep_fields h kvs fs"
    using build_rep(1)[OF assms(2,3)] by (auto split: option.splits node.splits)
  obtain d where d: "map_of kvs k = Some d" "rep h d u" using rep_fields_map_of[OF kvs(2) assms(5)] by blast
  have "newer (hp s) h v" using build_frame(1)[OF assms(2)] by blast
  then have "v \<in> ?R" using kvs(1) by (auto simp: newer_iff plain_def dest: node_of_ref)
  then have dR: "plain d \<or> d \<in> ?R"
    using R kvs(1) d(1) unfolding region_def by (fastforce dest: map_of_SomeD)
  let ?s = "s\<lparr>hp := h\<rparr>"
  obtain e where e: "case entry_of ?s host of None \<Rightarrow> e = JRef (length (hp ?s)) | Some e' \<Rightarrow> e = e'"
    "keeps {e, host_map ?s, nid_map ?s} (hp ?s) (hp s')"
    using assms(4) unfolding updated_def by blast
  have same: "node_of (hp s') w = node_of h w" if w: "w \<in> ?R" for w
  proof -
    have "newer (hp s) h w" using w by (simp add: newer_iff)
    then have out: "outside (s\<lparr>hp := h\<rparr>) w" "settled h w" using build_outside(2)[OF assms(1,2)] by blast+
    obtain n where n: "node_of h w = Some n" using w by (auto simp: fresh_nodes_def node_of_def)
    have "w \<noteq> e" using e(1) out by (auto simp: outside_def settled_def split: option.splits)
    then show ?thesis using keeps_node[OF e(2), of w n] n out(1) by (simp add: outside_def)
  qed
  have "rep (hp s') d u" by (rule rep_region(1)[OF d(2) R same dR])
  with kvs(1) d(1) show ?thesis by (auto simp: object_get_ex_def obj_of_def)
qed

lemma update_delivered:
  assumes "hosts_ok s" "of_json E rpc = Some (TObject fs)" "canon (TObject fs)"
    and "map_of fs ''hostname'' = Some (TString name)" "map_of fs ''nid'' \<noteq> Some TNull"
  shows "\<exists>s' e. update_host_map E rpc s = Some (1, s') \<and> hosts_ok s' \<and>
    entry_of s' = (entry_of s)(snprintf_s 64 name \<mapsto> e) \<and>
    (\<forall>(k, k') \<in> set ((''data'', ''data'') # rpc_tags). \<forall>u. map_of fs k = Some u \<longrightarrow>
      (\<exists>d. object_get_ex (hp s') e k' = Some d \<and> rep (hp s') d u))"
proof -
  obtain v h where b: "build (TObject fs) (hp s) = (v, h)" by fastforce
  let ?s = "s\<lparr>hp := h\<rparr>" and ?host = "snprintf_s 64 name"
  have safe: "rpc_safe (TObject fs)" using assms(4,5) by (simp add: rpc_safe_def update_safe_def)
  obtain s' where s': "update_host_map E rpc s = Some (1, s')" "hosts_ok s'"
    using update_host_map_safe[OF assms(1-3) safe] by blast
  obtain kvs where kvs: "node_of h v = Some (Obj kvs)" "rep_fields h kvs fs"
    using build_rep(1)[OF b assms(3)] by (auto split: option.splits node.splits)
  have arr: "arr_of h v = None" using kvs(1) by (simp add: arr_of_def)
  have hostname: "object_get_ex h v ''hostname'' = Some (JString name)"
    using rep_fields_map_of[OF kvs(2) assms(4)] kvs(1) by (auto simp: object_get_ex_def obj_of_def)
  have out: "outside ?s v" using build_outside(2)[OF assms(1) b] build_frame(1)[OF b] by blast
  obtain rc where rc: "update_host_entry E v ?s = Some (rc, s')"
    using s'(1) b assms(2) arr by (auto simp: update_host_map_def tokener_parse_def bind_eq_Some_conv)
  have u: "updated ?s v ?host s'"
    using update_host_entry_spec[OF build_outside(1)[OF assms(1) b] out, of "JString name" E name] hostname rc
    by (simp add: get_string_def)
  then obtain e where e: "entry_of s' = (entry_of s)(?host \<mapsto> e)"
    "node_of (hp s') e = Some (Obj (host_fields (object_get_ex h v) (old_fields ?s ?host)))"
    unfolding updated_def using build_outside(3)[OF assms(1) b] by auto
  have "\<exists>d. object_get_ex (hp s') e k' = Some d \<and> rep (hp s') d u"
    if k: "(k, k') \<in> set ((''data'', ''data'') # rpc_tags)" and u': "map_of fs k = Some u" for k k' u
  proof -
    obtain d where d: "object_get_ex h v k = Some d" "rep (hp s') d u"
      using fields_kept[OF assms(1) b assms(3) u u'] by blast
    have "object_get_ex (hp s') e k' = Some d"
    proof (cases "(k, k') \<in> set rpc_tags")
      case True
      then show ?thesis using host_fields_tag[OF True] d(1) e(2) by (simp add: object_get_ex_def obj_of_def)
    next
      case False
      then have "k = ''data''" "k' = ''data''" using k by auto
      then show ?thesis using host_fields_data d(1) e(2) by (simp add: object_get_ex_def obj_of_def)
    qed
    with d(2) show ?thesis by blast
  qed
  with s' e(1) show ?thesis by blast
qed

end
