(* ===== verification/Loops.thy ===== *)
theory Loops
  imports Screen Pq Socket Reports Devices Daemon
begin

text \<open>
  The programs as a whole: the set-up and the event loops of \<open>pfstrase_server.c\<close>, \<open>pfsql.c\<close> and
  \<open>pfstrase_client.c\<close>, with the parts of \<open>socket_server.c\<close>, \<open>socket_client.c\<close>, \<open>shmmap.c\<close> and
  \<open>pq.c\<close> they call.

  libev calls one callback at a time, so a program is a fold of its callbacks over the events.  A timer
  has the callback and the period that \<open>ev_timer_init\<close> gives it; a timer that was never initialised has
  no callback, and running it is undefined.  \<open>psql\<close> says whether the program was compiled with the
  macro \<open>PSQL\<close>, which the makefile of the server does not define.
\<close>

section \<open>libev timers\<close>

record timer =
  has_cb :: bool
  repeat :: double
  active :: bool

definition zero_timer :: timer where
  "zero_timer = \<lparr>has_cb = False, repeat = 0, active = False\<rparr>"

text \<open>\<open>ev_timer_init\<close> with \<open>ev_timer_start\<close> and no delay, \<open>ev_timer_again\<close>, and what libev does to a timer
  that expires: without a period it stops.\<close>

definition ev_timer_started :: "double \<Rightarrow> timer" where
  "ev_timer_started r = \<lparr>has_cb = True, repeat = r, active = True\<rparr>"

definition ev_timer_again :: "timer \<Rightarrow> timer" where
  "ev_timer_again t = t\<lparr>active := (repeat t \<noteq> 0)\<rparr>"

definition ev_timer_fired :: "timer \<Rightarrow> timer" where
  "ev_timer_fired t = t\<lparr>active := (repeat t \<noteq> 0)\<rparr>"

section \<open>Sockets\<close>

text \<open>\<open>socket_listen\<close>: the results of \<open>socket\<close>, \<open>setsockopt\<close>, \<open>bind\<close> and \<open>listen\<close> give the descriptor
  that is returned, and whether it is an open, listening one; no failure is reported to the caller.\<close>

definition listen_port :: "string \<Rightarrow> 16 word" where
  "listen_port port = word_of_int (atoi port)"

definition socket_listen :: "int \<Rightarrow> bool \<Rightarrow> bool \<Rightarrow> bool \<Rightarrow> int \<times> bool" where
  "socket_listen sockfd opt_ok bind_ok listen_ok =
    (if sockfd = -1 then (sockfd, False)
     else if \<not> opt_ok then (sockfd, False)
     else if \<not> bind_ok then (sockfd, False)
     else if \<not> listen_ok then (sockfd, False)
     else (sockfd, True))"

text \<open>\<open>sock_send_data\<close>: what goes out on the connection.  Without an address or a socket nothing is collected;
  without a connection the report is collected, and every \<open>send\<close> fails.\<close>

definition sock_send_data ::
    "env \<Rightarrow> machine \<Rightarrow> device_info \<Rightarrow> bool \<Rightarrow> bool \<Rightarrow> bool \<Rightarrow> nat list \<Rightarrow> string list option" where
  "sock_send_data E M info addr_ok sock_ok conn_ok sends =
    (if \<not> addr_ok \<or> \<not> sock_ok then Some []
     else do {
       message \<leftarrow> collect_devices E M info [];
       let request = client_request E socket_buffersize (to_json E (TObject message));
       Some (if conn_ok then send_loop sends request else [])
     })"

section \<open>The database connection\<close>

definition literal :: "string \<Rightarrow> string" where
  "literal s = CHR 0x27 # s @ [CHR 0x27]"

definition pq_conninfo :: "string \<Rightarrow> string \<Rightarrow> string \<Rightarrow> string" where
  "pq_conninfo server dbname dbuser =
    snprintf_s 256 (''dbname='' @ dbname @ '' user='' @ dbuser @ '' host='' @ server @ '' port=5433'')"

text \<open>The statements that create the table, its indices and its compression.\<close>

definition pq_schema :: "string list" where
  "pq_schema =
    [''CREATE TABLE IF NOT EXISTS host_data (time  TIMESTAMPTZ NOT NULL,host  text,system text,fid  text,jid   text,uid   text,client   text,event text,value   real);'',
     ''CREATE EXTENSION IF NOT EXISTS timescaledb CASCADE; SELECT create_hypertable('' @ literal ''host_data'' @ '', '' @ literal ''time'' @
       '', if_not_exists => TRUE, chunk_time_interval => INTERVAL '' @ literal ''1 day'' @
       ''); CREATE INDEX IF NOT EXISTS host_data_host_time_idx ON host_data (host, time DESC); CREATE INDEX IF NOT EXISTS host_data_system_time_idx ON host_data (system, time DESC); CREATE INDEX IF NOT EXISTS host_data_uid_time_idx ON host_data (uid, time DESC); CREATE INDEX IF NOT EXISTS host_data_jid_time_idx ON host_data (jid, time DESC); CREATE INDEX IF NOT EXISTS host_data_event_time_idx ON host_data (event, time DESC);'',
     ''ALTER TABLE host_data SET (timescaledb.compress, timescaledb.compress_orderby = '' @ literal ''time DESC'' @
       '', timescaledb.compress_segmentby = '' @ literal ''system,uid,jid,host,event'' @
       ''); SELECT add_compression_policy('' @ literal ''host_data'' @ '', INTERVAL '' @ literal ''12h'' @ '');'']"

text \<open>\<open>pq_connect\<close>: the connection succeeds or not; the result is the return code and the statements executed.  A setting
  that was never given is a NULL string.\<close>

definition pq_connect ::
    "(string \<Rightarrow> bool) \<Rightarrow> string option \<Rightarrow> string option \<Rightarrow> string option \<Rightarrow> (int \<times> string list) option" where
  "pq_connect connects server dbname dbuser = do {
     s \<leftarrow> server;
     n \<leftarrow> dbname;
     u \<leftarrow> dbuser;
     Some (if \<not> connects (pq_conninfo s n u) then (-1, []) else (1, pq_schema))
   }"

text \<open>\<open>pq_select\<close>: the names of the columns and the rows of the result, or \<open>None\<close> when the query fails; the return code and
  what is printed.\<close>

definition pq_select :: "(string list \<times> string list list) option \<Rightarrow> int \<times> string" where
  "pq_select res =
    (case res of
       None \<Rightarrow> (-1, '''')
     | Some (names, rows) \<Rightarrow> (1,
         concat (map (\<lambda>name. '' '' @ pad_right 15 name) names) @ [newline] @
         concat (map (\<lambda>row. concat (map (pad_right 15) row)) rows) @ [newline, newline]))"

section \<open>The server\<close>

record server =
  maps :: stats
  memory :: string
  prog :: "server_conf program"
  shm_timer :: timer
  pq_timer :: timer
  database :: "string list"
  stopped :: bool

datatype event = ShmTimer | PqTimer | Rpc "segment list option" | Hup "string option option" | Interrupt

definition shm_timer_cb :: "env \<Rightarrow> server \<Rightarrow> server option" where
  "shm_timer_cb E s = do {
     (rates, st) \<leftarrow> server_tick E (maps s);
     m \<leftarrow> mm_write (to_json E rates) (memory s);
     Some (s\<lparr>maps := st, memory := m\<rparr>)
   }"

definition pq_timer_cb :: "env \<Rightarrow> server \<Rightarrow> server option" where
  "pq_timer_cb E s = do {
     (st, queries) \<leftarrow> pq_insert E no_filters (load_shm E (memory s) (maps s));
     Some (s\<lparr>maps := st, database := database s @ queries\<rparr>)
   }"

definition sock_rpc_cb :: "env \<Rightarrow> segment list option \<Rightarrow> server \<Rightarrow> server option" where
  "sock_rpc_cb E conn s = do {
     st \<leftarrow> sock_rpc E conn (maps s);
     Some (s\<lparr>maps := st\<rparr>)
   }"

text \<open>The database settings, which only a build with \<open>PSQL\<close> reads from the file.\<close>

definition keep_db :: "server_conf \<Rightarrow> server_conf \<Rightarrow> server_conf" where
  "keep_db old c = c\<lparr>s_dbserver := s_dbserver old, s_dbname := s_dbname old, s_dbuser := s_dbuser old,
    s_db_interval := s_db_interval old\<rparr>"

definition reload_conf :: "bool \<Rightarrow> (rat \<Rightarrow> rat) \<Rightarrow> string option option \<Rightarrow> server_conf \<Rightarrow> server_conf" where
  "reload_conf psql rnd file c =
    (let c' = snd (server_read_conf rnd file c) in if psql then c' else keep_db c c')"

definition signal_cb_hup :: "bool \<Rightarrow> (rat \<Rightarrow> rat) \<Rightarrow> string option option \<Rightarrow> server \<Rightarrow> server" where
  "signal_cb_hup psql rnd file s =
    (let c = reload_conf psql rnd file (conf (prog s))
     in s\<lparr>prog := (prog s)\<lparr>conf := c\<rparr>,
          shm_timer := ev_timer_again ((shm_timer s)\<lparr>repeat := s_shm_interval c\<rparr>),
          pq_timer := ev_timer_again ((pq_timer s)\<lparr>repeat := s_db_interval c\<rparr>)\<rparr>)"

text \<open>An event the loop can deliver: the timers must be active.\<close>

definition enabled :: "event \<Rightarrow> server \<Rightarrow> bool" where
  "enabled ev s \<longleftrightarrow> \<not> stopped s \<and>
    (case ev of ShmTimer \<Rightarrow> active (shm_timer s) | PqTimer \<Rightarrow> active (pq_timer s) | _ \<Rightarrow> True)"

definition server_event :: "bool \<Rightarrow> env \<Rightarrow> (rat \<Rightarrow> rat) \<Rightarrow> event \<Rightarrow> server \<Rightarrow> server option" where
  "server_event psql E rnd ev s =
    (if \<not> enabled ev s then Some s
     else (case ev of
         ShmTimer \<Rightarrow> if has_cb (shm_timer s) then shm_timer_cb E (s\<lparr>shm_timer := ev_timer_fired (shm_timer s)\<rparr>) else None
       | PqTimer \<Rightarrow> if has_cb (pq_timer s) then pq_timer_cb E (s\<lparr>pq_timer := ev_timer_fired (pq_timer s)\<rparr>) else None
       | Rpc conn \<Rightarrow> sock_rpc_cb E conn s
       | Hup file \<Rightarrow> Some (signal_cb_hup psql rnd file s)
       | Interrupt \<Rightarrow> Some (s\<lparr>stopped := True\<rparr>)))"

text \<open>\<open>main\<close> from the reading of the configuration to the loop, for a program that \<open>server_start\<close> has set up;
  with \<open>PSQL\<close> there must be a connection, and the database timer is started too.\<close>

definition server_setup :: "bool \<Rightarrow> (string \<Rightarrow> bool) \<Rightarrow> server_conf program \<Rightarrow> server outcome option" where
  "server_setup psql connects p =
    (let c = (if psql then conf p else keep_db server_default (conf p));
         s = \<lparr>maps = map_init [], memory = replicate mm_size nul, prog = p\<lparr>conf := c\<rparr>,
              shm_timer = ev_timer_started (s_shm_interval c), pq_timer = zero_timer,
              database = [], stopped = False\<rparr>
     in if \<not> psql then Some (Run s)
        else do {
          (rc, queries) \<leftarrow> pq_connect connects (s_dbserver c) (s_dbname c) (s_dbuser c);
          Some (if rc < 0 then Exit 0
            else Run (s\<lparr>pq_timer := ev_timer_started (s_db_interval c), database := queries\<rparr>))
        })"

definition server_run :: "bool \<Rightarrow> env \<Rightarrow> (rat \<Rightarrow> rat) \<Rightarrow> event list \<Rightarrow> server \<Rightarrow> server option" where
  "server_run psql E rnd = foldM (server_event psql E rnd)"

section \<open>The client\<close>

record client =
  device :: device_info
  cprog :: "client_conf program"
  ctimer :: timer
  outgoing :: "string list list"
  cstopped :: bool

datatype client_event = SockTimer machine bool bool bool "nat list" | CHup "string option option" | CInterrupt

definition sock_timer_cb ::
    "env \<Rightarrow> machine \<Rightarrow> bool \<Rightarrow> bool \<Rightarrow> bool \<Rightarrow> nat list \<Rightarrow> client \<Rightarrow> client option" where
  "sock_timer_cb E M addr_ok sock_ok conn_ok sends c = do {
     ds \<leftarrow> sock_send_data E M (device c) addr_ok sock_ok conn_ok sends;
     Some (c\<lparr>outgoing := outgoing c @ [ds]\<rparr>)
   }"

definition client_cb_hup :: "(rat \<Rightarrow> rat) \<Rightarrow> string option option \<Rightarrow> client \<Rightarrow> client" where
  "client_cb_hup rnd file c =
    (let k = snd (client_read_conf rnd file (conf (cprog c)))
     in c\<lparr>cprog := (cprog c)\<lparr>conf := k\<rparr>, ctimer := ev_timer_again ((ctimer c)\<lparr>repeat := c_freq k\<rparr>)\<rparr>)"

definition client_step :: "env \<Rightarrow> (rat \<Rightarrow> rat) \<Rightarrow> client_event \<Rightarrow> client \<Rightarrow> client option" where
  "client_step E rnd ev c =
    (if cstopped c then Some c
     else (case ev of
         SockTimer M addr_ok sock_ok conn_ok sends \<Rightarrow>
           if active (ctimer c)
             then sock_timer_cb E M addr_ok sock_ok conn_ok sends (c\<lparr>ctimer := ev_timer_fired (ctimer c)\<rparr>) else Some c
       | CHup file \<Rightarrow> Some (client_cb_hup rnd file c)
       | CInterrupt \<Rightarrow> Some (c\<lparr>cstopped := True\<rparr>)))"

definition client_setup :: "device_info \<Rightarrow> client_conf program \<Rightarrow> client" where
  "client_setup info p = \<lparr>device = info, cprog = p, ctimer = ev_timer_started (c_freq (conf p)), outgoing = [],
    cstopped = False\<rparr>"

section \<open>The database writer\<close>

record pfsql =
  qmaps :: stats
  qprog :: "pfsql_conf program"
  qtimer :: timer
  qsent :: "string list"
  qstopped :: bool

datatype pfsql_event = QTimer string | QHup "string option option" | QInterrupt

definition pfsql_timer_cb :: "env \<Rightarrow> string \<Rightarrow> pfsql \<Rightarrow> pfsql option" where
  "pfsql_timer_cb E mem q = do {
     (st, queries) \<leftarrow> pq_insert E no_filters (load_shm E mem (qmaps q));
     Some (q\<lparr>qmaps := st, qsent := qsent q @ queries\<rparr>)
   }"

definition pfsql_cb_hup :: "(rat \<Rightarrow> rat) \<Rightarrow> string option option \<Rightarrow> pfsql \<Rightarrow> pfsql" where
  "pfsql_cb_hup rnd file q =
    (let k = snd (pfsql_read_conf rnd file (conf (qprog q)))
     in q\<lparr>qprog := (qprog q)\<lparr>conf := k\<rparr>, qtimer := ev_timer_again ((qtimer q)\<lparr>repeat := q_db_interval k\<rparr>)\<rparr>)"

definition pfsql_step :: "env \<Rightarrow> (rat \<Rightarrow> rat) \<Rightarrow> pfsql_event \<Rightarrow> pfsql \<Rightarrow> pfsql option" where
  "pfsql_step E rnd ev q =
    (if qstopped q then Some q
     else (case ev of
         QTimer mem \<Rightarrow> if active (qtimer q) then pfsql_timer_cb E mem (q\<lparr>qtimer := ev_timer_fired (qtimer q)\<rparr>) else Some q
       | QHup file \<Rightarrow> Some (pfsql_cb_hup rnd file q)
       | QInterrupt \<Rightarrow> Some (q\<lparr>qstopped := True\<rparr>)))"

text \<open>\<open>main\<close> from the connection on: without one the program ends.\<close>

definition pfsql_setup :: "(string \<Rightarrow> bool) \<Rightarrow> pfsql_conf program \<Rightarrow> pfsql outcome option" where
  "pfsql_setup connects p = do {
     (rc, queries) \<leftarrow> pq_connect connects (q_dbserver (conf p)) (q_dbname (conf p)) (q_dbuser (conf p));
     Some (if rc < 0 then Exit 0
       else Run \<lparr>qmaps = map_init [], qprog = p, qtimer = ev_timer_started (q_db_interval (conf p)), qsent = queries,
         qstopped = False\<rparr>)
   }"

section \<open>Properties\<close>

lemma server_setup_plain: "\<exists>s. server_setup False connects p = Some (Run s) \<and> \<not> stopped s \<and>
    pq_timer s = zero_timer \<and> s_db_interval (conf (prog s)) = 30"
  by (simp add: server_setup_def Let_def keep_db_def server_default_def)

text \<open>C36. A server that was built without the macro PSQL, which is how the makefile builds it, does not survive the
  reloading of its configuration, whatever the file says: SIGHUP arms a database timer that was never
  initialised, and its expiry calls a null callback.\<close>

theorem hup_arms_unset_timer:
  "\<exists>s. server_setup False connects p = Some (Run s) \<and> server_run False E rnd [Hup file, PqTimer] s = None"
proof -
  obtain s where s: "server_setup False connects p = Some (Run s)" "\<not> stopped s" "pq_timer s = zero_timer"
    "s_db_interval (conf (prog s)) = 30"
    using server_setup_plain by blast
  then have "server_run False E rnd [Hup file, PqTimer] s = None"
    by (simp add: server_run_def server_event_def enabled_def signal_cb_hup_def reload_conf_def keep_db_def
        ev_timer_again_def zero_timer_def Let_def)
  with s(1) show ?thesis by blast
qed

text \<open>The timers the program has initialised run with the periods of the configuration in force.\<close>

definition timers_set :: "bool \<Rightarrow> server \<Rightarrow> bool" where
  "timers_set psql s \<longleftrightarrow>
    has_cb (shm_timer s) \<and> repeat (shm_timer s) = s_shm_interval (conf (prog s)) \<and>
    (psql \<longrightarrow> has_cb (pq_timer s) \<and> repeat (pq_timer s) = s_db_interval (conf (prog s)))"

lemma server_setup_timers: "server_setup psql connects p = Some (Run s) \<Longrightarrow> timers_set psql s"
  by (auto simp: server_setup_def timers_set_def ev_timer_started_def Let_def bind_eq_Some_conv split: if_splits)

lemma server_event_timers: "timers_set psql s \<Longrightarrow> whenever (server_event psql E rnd ev s) (timers_set psql)"
  by (cases ev)
    (auto simp: server_event_def whenever_def timers_set_def signal_cb_hup_def shm_timer_cb_def pq_timer_cb_def
      sock_rpc_cb_def ev_timer_again_def ev_timer_fired_def Let_def bind_eq_Some_conv split: if_splits)

interpretation server_timers: event_loop "server_event psql E rnd" "timers_set psql" "\<lambda>_. True"
  for psql E rnd
  by unfold_locales (rule server_event_timers)

text \<open>C35. Reconfiguration reaches the timers: after any sequence of ticks, RPCs, reloads and interrupts, the period of
  the shared memory timer is the interval of the configuration in force, and so is that of the database timer in a
  build with PSQL; both have their callbacks.\<close>

theorem server_timers_follow_conf:
  assumes "server_setup psql connects p = Some (Run s0)" and "server_run psql E rnd evs s0 = Some s"
  shows "has_cb (shm_timer s) \<and> repeat (shm_timer s) = s_shm_interval (conf (prog s)) \<and>
    (psql \<longrightarrow> has_cb (pq_timer s) \<and> repeat (pq_timer s) = s_db_interval (conf (prog s)))"
  using server_timers.run_keeps[OF server_setup_timers[OF assms(1)], of evs E rnd s] assms(2)
  by (simp add: server_run_def timers_set_def)

definition sample_program :: "server_conf program" where
  "sample_program = \<lparr>daemonmode = False, conf_file_name = None, log_file_name = None,
    conf = server_default\<lparr>s_dbserver := Some ''db'', s_dbname := Some ''stats'', s_dbuser := Some ''pfs''\<rparr>\<rparr>"

theorem server_timers_follow_conf_witness:
  "\<exists>s0 s. server_setup True (\<lambda>_. True) sample_program = Some (Run s0) \<and>
    server_run True plain_env (\<lambda>x. x) [Hup (Some None), Interrupt] s0 = Some s \<and> has_cb (pq_timer s)"
proof -
  let ?c = "server_default\<lparr>s_dbserver := Some ''db'', s_dbname := Some ''stats'', s_dbuser := Some ''pfs''\<rparr>"
  obtain s0 where s0: "server_setup True (\<lambda>_. True) sample_program = Some (Run s0)" "\<not> stopped s0"
    by (auto simp: server_setup_def sample_program_def pq_connect_def Let_def)
  then obtain s where s: "server_run True plain_env (\<lambda>x. x) [Hup (Some None), Interrupt] s0 = Some s"
    by (simp add: server_run_def server_event_def enabled_def signal_cb_hup_def Let_def)
  from server_timers_follow_conf[OF s0(1) s] s0(1) s show ?thesis by blast
qed

text \<open>The client on machines whose names have the lengths the collectors rely on.\<close>

definition client_ok :: "device_info \<Rightarrow> client \<Rightarrow> bool" where
  "client_ok info c \<longleftrightarrow> device c = info \<and> has_cb (ctimer c) \<and> repeat (ctimer c) = c_freq (conf (cprog c))"

definition client_event_ok :: "device_info \<Rightarrow> client_event \<Rightarrow> bool" where
  "client_event_ok info ev \<longleftrightarrow> (case ev of SockTimer M a b c ks \<Rightarrow> machine_ok M info | _ \<Rightarrow> True)"

interpretation client_loop: surviving_loop "client_step E rnd" "client_ok info" "client_event_ok info"
  for E rnd info
proof
  fix c ev
  assume c: "client_ok info c" and ev: "client_event_ok info ev"
  show "ok (client_step E rnd ev c) (client_ok info)"
  proof (cases ev)
    case (SockTimer M a b d ks)
    then have "defined (collect_devices E M info [])" using ev devices_defined by (simp add: client_event_ok_def)
    then have "defined (sock_send_data E M info a b d ks)"
      by (auto simp: sock_send_data_def Let_def intro!: defined_bind)
    then show ?thesis using c SockTimer
      by (auto simp: client_step_def sock_timer_cb_def ev_timer_fired_def client_ok_def elim!: okE)
  qed (use c in \<open>auto simp: client_step_def client_cb_hup_def ev_timer_again_def client_ok_def Let_def\<close>)
qed



definition inserts_only :: "pfsql \<Rightarrow> bool" where
  "inserts_only q \<longleftrightarrow> (\<exists>qs. qsent q = pq_schema @ qs \<and> (\<forall>x \<in> set qs. insert_statement x))"

lemma pfsql_timer_inserts:
  assumes "inserts_only q"
  shows "whenever (pfsql_timer_cb E mem q) inserts_only"
  unfolding whenever_def
proof (intro allI impI)
  fix r
  assume "pfsql_timer_cb E mem q = Some r"
  then obtain st new where n: "pq_insert E no_filters (load_shm E mem (qmaps q)) = Some (st, new)" "qsent r = qsent q @ new"
    by (auto simp: pfsql_timer_cb_def bind_eq_Some_conv)
  obtain qs where "qsent q = pq_schema @ qs" "\<forall>x \<in> set qs. insert_statement x" using assms by (auto simp: inserts_only_def)
  moreover have "\<forall>x \<in> set new. insert_statement x"
    using n(1) pq_insert_statements[of E no_filters "load_shm E mem (qmaps q)"] by simp
  ultimately have "qsent r = pq_schema @ (qs @ new)" "\<forall>x \<in> set (qs @ new). insert_statement x" using n(2) by auto
  then show "inserts_only r" unfolding inserts_only_def by blast
qed

interpretation writer: event_loop "pfsql_step E rnd" inserts_only "\<lambda>_. True"
  for E rnd
proof
  fix q ev
  assume "inserts_only q"
  then show "whenever (pfsql_step E rnd ev q) inserts_only"
    using pfsql_timer_inserts[of "q\<lparr>qtimer := ev_timer_fired (qtimer q)\<rparr>" E]
    by (cases ev) (auto simp: pfsql_step_def pfsql_cb_hup_def inserts_only_def Let_def)
qed



end
