(* ===== verification/Delivery.thy ===== *)
theory Delivery
  imports Regions Loops
begin

text \<open>
  A report on its way from a client to the host map of the server: collection, the text in the
  buffer, the sends, the segments of the network, the parser and the update of the host entry.
\<close>

section \<open>Reports are canonical documents\<close>

lemma canon_list_all: "canon_list ts \<longleftrightarrow> (\<forall>t \<in> set ts. canon t)"
  by (induction ts) auto

lemma canon_fields_all: "canon_fields fs \<longleftrightarrow> (\<forall>(k, t) \<in> set fs. canon t)"
  by (induction fs) auto

lemma report_canon: "report_ok t \<Longrightarrow> canon t"
  unfolding report_ok_def
  by (elim exE conjE) (fastforce simp: texts_def numbers_def numeric_def canon_fields_all)

lemma collected_fields:
  assumes "collect_devices E M info [] = Some jobj"
  shows "canon (TObject jobj)" "map_of jobj ''hostname'' = Some (TString (dev_hostname info))"
    "map_of jobj ''nid'' = Some (TString (dev_nid info))" "map_of jobj ''obdclass'' = Some (TString (class_str info))"
    "\<exists>data. collect_data M info = Some data \<and> map_of jobj ''data'' = Some (TArray data)"
proof -
  obtain data where d: "collect_data M info = Some data" "jobj = AList.update ''data'' (TArray data) (report_head E M info [])"
    using assms by (auto simp: collect_devices_def bind_eq_Some_conv)
  have c: "canon_list data" using collect_data_ok[of M info] d(1) report_canon by (auto simp: canon_list_all)
  show "canon (TObject jobj)" using report_head_eq[of E M info] d(2) c by (auto split: if_splits)
  show "map_of jobj ''hostname'' = Some (TString (dev_hostname info))" "map_of jobj ''nid'' = Some (TString (dev_nid info))"
    "map_of jobj ''obdclass'' = Some (TString (class_str info))"
    "\<exists>data. collect_data M info = Some data \<and> map_of jobj ''data'' = Some (TArray data)"
    using report_head_eq[of E M info] d by (auto split: if_splits)
qed

lemma collect_devices_cong: "fl E = fl E' \<Longrightarrow> collect_devices E M info j = collect_devices E' M info j"
  by (simp add: collect_devices_def report_head_def)

section \<open>The whole way\<close>

text \<open>C1. A report arrives: when the document library reads back the text it has printed, and the text fits the buffer
  and is sent at least to its end, the server finds exactly the collected data in the entry of the host, together
  with its name and its class; the other hosts keep their entries.\<close>

theorem report_delivered:
  assumes "hosts_ok s" and "collect_devices E M info [] = Some jobj"
    and "sock_send_data E M info True True True ks = Some ds"
    and "t = to_json E (TObject jobj)" "of_json E t = Some (TObject jobj)"
    and "length t \<le> length (concat ds)" "length t < socket_buffersize"
    and "nul \<notin> set t" "CHR ''%'' \<notin> set t" "t \<noteq> []" "hd t = CHR ''{''"
  shows "\<exists>s' e d data. sock_rpc E (Some (map Data ds)) s = Some s' \<and> hosts_ok s' \<and>
    entry_of s' = (entry_of s)(snprintf_s 64 (dev_hostname info) \<mapsto> e) \<and>
    object_get_ex (hp s') e ''hid'' = Some (JString (dev_hostname info)) \<and>
    object_get_ex (hp s') e ''obdclass'' = Some (JString (class_str info)) \<and>
    collect_data M info = Some data \<and> object_get_ex (hp s') e ''data'' = Some d \<and> rep (hp s') d (TArray data)"
proof -
  note c = collected_fields[OF assms(2)]
  have ds: "ds = send_loop ks (client_request E socket_buffersize t)"
    using assms(2,3,4) by (simp add: sock_send_data_def Let_def)
  obtain data where data: "collect_data M info = Some data" "map_of jobj ''data'' = Some (TArray data)" using c(5) by blast
  obtain s' e where s': "update_host_map E t s = Some (1, s')" "hosts_ok s'"
    "entry_of s' = (entry_of s)(snprintf_s 64 (dev_hostname info) \<mapsto> e)"
    and tags: "\<forall>(k, k') \<in> set ((''data'', ''data'') # rpc_tags). \<forall>u. map_of jobj k = Some u \<longrightarrow>
      (\<exists>d. object_get_ex (hp s') e k' = Some d \<and> rep (hp s') d u)"
    using update_delivered[OF assms(1,5) c(1,2)] c(3) by auto
  have "sock_rpc E (Some (map Data ds)) s = Some s'"
    using sends_processed[OF ds assms(6-10)] assms(11) s'(1) by simp
  moreover have "object_get_ex (hp s') e ''hid'' = Some (JString (dev_hostname info))"
    "object_get_ex (hp s') e ''obdclass'' = Some (JString (class_str info))"
    using tags c(2,4) by (auto simp: rpc_tags_def)
  moreover obtain d where "object_get_ex (hp s') e ''data'' = Some d" "rep (hp s') d (TArray data)"
    using tags data(2) by auto
  ultimately show ?thesis using s'(2,3) data(1) by blast
qed

lemma request_sent:
  assumes "CHR ''%'' \<notin> set t" "length t < cap"
  shows "length t \<le> length (concat (send_loop [length t] (client_request E cap t)))"
proof -
  have "client_request E cap t = t @ replicate (cap - length t) nul" using assms by (simp add: client_request_def)
  then show ?thesis by simp
qed

theorem report_delivered_witness:
  "\<exists>E ds s' e. sock_send_data E sample_machine sample_info True True True [2] = Some ds \<and>
    sock_rpc E (Some (map Data ds)) (map_init []) = Some s' \<and>
    entry_of s' ''mds1'' = Some e \<and> object_get_ex (hp s') e ''obdclass'' = Some (JString ''mds'')"
proof -
  obtain jobj where j: "collect_devices plain_env sample_machine sample_info [] = Some jobj"
    using devices_defined[OF sample_machine_ok, of plain_env "[]"] by (auto simp: ok_def)
  define E where "E = plain_env\<lparr>to_json := (\<lambda>_. ''{}''), of_json := (\<lambda>_. Some (TObject jobj))\<rparr>"
  have jE: "collect_devices E sample_machine sample_info [] = Some jobj"
    using j collect_devices_cong[of E plain_env] by (simp add: E_def)
  define ds where "ds = send_loop [2] (client_request E socket_buffersize ''{}'')"
  have ds: "sock_send_data E sample_machine sample_info True True True [2] = Some ds"
    using jE by (simp add: sock_send_data_def ds_def E_def)
  have len: "length ''{}'' \<le> length (concat ds)"
    using request_sent[of "''{}''" socket_buffersize E] by (simp add: ds_def socket_buffersize_def numeral_2_eq_2 del: send_loop.simps)
  from report_delivered[OF map_init_ok jE ds refl _ _ _ _ _ _ _, of "[]"] len
  obtain s' e where "sock_rpc E (Some (map Data ds)) (map_init []) = Some s'"
    "entry_of s' = (entry_of (map_init []))(snprintf_s 64 ''mds1'' \<mapsto> e)"
    "object_get_ex (hp s') e ''obdclass'' = Some (JString ''mds'')"
    by (auto simp: E_def socket_buffersize_def nul_def sample_info_def)
  then show ?thesis using ds by (intro exI[of _ E] exI[of _ ds] exI[of _ s'] exI[of _ e]) (simp add: snprintf_s_def)
qed

end
