(* ===== verification/HostTags.thy ===== *)
theory HostTags
  imports GroupStats
begin

text \<open>
  The work of \<open>group_statsbytags\<close> on one host, composed: the rates of \<open>calc_rates\<close>, their aggregation by
  \<open>aggregate_stat\<close> for the class of the server, the load of the processor spread over the tuples and the
  time.  \<open>store_rates_spec\<close> and \<open>server_tag_map_spec\<close> say what each half leaves in the store and which
  nodes it may write.
\<close>

section \<open>Reports a change elsewhere does not touch\<close>

lemma same_node_get: "node_of h' v = node_of h v \<Longrightarrow> object_get_ex h' v = object_get_ex h v"
  by (simp add: object_get_ex_def obj_of_def fun_eq_iff)

lemma same_node_fields: "node_of h' v = node_of h v \<Longrightarrow> fields_at h' v = fields_at h v"
  by (simp add: fields_at_def obj_of_def)

text \<open>The entries of a report and their statistics are the same nodes in both stores.\<close>

definition same_report :: "heap \<Rightarrow> heap \<Rightarrow> jval list \<Rightarrow> bool" where
  "same_report h h' vs \<longleftrightarrow> length h \<le> length h' \<and> (\<forall>v \<in> set vs. node_of h' v = node_of h v \<and>
    (\<forall>st. object_get_ex h v ''stats'' = Some st \<longrightarrow> node_of h' st = node_of h st))"

definition report_entries_ok :: "heap \<Rightarrow> jval list \<Rightarrow> bool" where
  "report_entries_ok h vs \<longleftrightarrow> (\<forall>v \<in> set vs. stat_entry_ok h v)"

lemma same_report_entries:
  assumes "same_report h h' vs" "report_entries_ok h vs"
  shows "report_entries_ok h' vs"
  unfolding report_entries_ok_def
proof
  fix v
  assume v: "v \<in> set vs"
  then have get: "object_get_ex h' v = object_get_ex h v" and ok: "stat_entry_ok h v"
    using assms by (auto simp: same_report_def report_entries_ok_def intro!: same_node_get)
  have "is_obj h' st" if "object_get_ex h v ''stats'' = Some st" for st
    using ok assms(1) v that unfolding same_report_def stat_entry_ok_def is_obj_def by metis
  moreover have "settled h' v" using ok assms(1) by (auto simp: stat_entry_ok_def same_report_def intro: settled_mono)
  ultimately show "stat_entry_ok h' v" using ok unfolding stat_entry_ok_def get by blast
qed

lemma same_report_get:
  assumes "same_report h h' vs" "v \<in> set vs"
  shows "object_get_ex h' v = object_get_ex h v"
  by (rule same_node_get) (use assms in \<open>auto simp: same_report_def\<close>)

lemma same_report_key: "same_report h h' vs \<Longrightarrow> v \<in> set vs \<Longrightarrow> entry_key h' v = entry_key h v"
  unfolding entry_key_def by (simp only: same_report_get)

lemma same_report_old_map:
  assumes "same_report h h' odes"
  shows "old_map h' odes = old_map h odes"
proof -
  have "old_step h' v = old_step h v" if "v \<in> set odes" for v
    unfolding old_step_def same_report_key[OF assms that] same_report_get[OF assms that] by (rule refl)
  then have "fold (old_step h') odes [] = fold (old_step h) odes []" by (intro fold_cong) auto
  then show ?thesis by (simp only: old_map_def)
qed

lemma old_map_stats: "map_of (old_map h odes) k = Some st \<Longrightarrow> \<exists>v \<in> set odes. object_get_ex h v ''stats'' = Some st"
proof (induction odes rule: rev_induct)
  case Nil
  then show ?case by (simp add: old_map_def)
next
  case (snoc v odes)
  then show ?case by (auto simp: old_map_def old_step_def split: option.splits if_splits)
qed

lemma same_report_specs:
  assumes n: "same_report h h' ndes" and o': "same_report h h' odes"
  shows "List.map_filter (rate_spec E idt h' (old_map h' odes)) ndes =
    List.map_filter (rate_spec E idt h (old_map h odes)) ndes"
proof -
  have old: "object_get_ex h' st = object_get_ex h st" if "map_of (old_map h odes) k = Some st" for k st
    using old_map_stats[OF that] o' by (auto simp: same_report_def intro: same_node_get)
  have spec: "rate_spec E idt h' (old_map h odes) v = rate_spec E idt h (old_map h odes) v" if v: "v \<in> set ndes" for v
  proof -
    have get: "object_get_ex h' v = object_get_ex h v" using n v by (auto simp: same_report_def intro: same_node_get)
    have st: "fields_at h' st = fields_at h st" if "object_get_ex h v ''stats'' = Some st" for st
      using n v that by (auto simp: same_report_def intro: same_node_fields)
    show ?thesis
      unfolding rate_spec_def rate_tags_def get same_report_key[OF n v]
      by (auto simp: st old split: option.splits)
  qed
  show ?thesis
    unfolding same_report_old_map[OF o'] List.map_filter_def using spec by (auto intro!: map_cong filter_cong)
qed

lemma keeps_same_report:
  assumes "keeps S h h'" "report_entries_ok h vs"
    and "\<And>v. v \<in> set vs \<Longrightarrow> v \<notin> S \<and> (\<forall>st. object_get_ex h v ''stats'' = Some st \<longrightarrow> st \<notin> S)"
  shows "same_report h h' vs"
proof -
  have same: "node_of h' v = node_of h v" if "settled h v" "v \<notin> S" for v
  proof (cases "node_of h v")
    case None
    then have "\<forall>a. v \<noteq> JRef a" using that(1) by (auto simp: settled_def node_of_def)
    then have "node_of g v = None" for g by (cases v) auto
    then show ?thesis by simp
  next
    case (Some n)
    with keeps_node[OF assms(1)] that(2) show ?thesis by simp
  qed
  show ?thesis
    unfolding same_report_def
    using assms same is_obj_settled by (auto simp: report_entries_ok_def stat_entry_ok_def dest: keeps_length)
qed

section \<open>The rates of a host\<close>

definition report_specs :: "env \<Rightarrow> double \<Rightarrow> heap \<Rightarrow> jval list \<Rightarrow> jval list \<Rightarrow>
    ((string \<times> jval) list \<times> (string \<times> jval) list) list" where
  "report_specs E idt h odes ndes = List.map_filter (rate_spec E idt h (old_map h odes)) ndes"

text \<open>The part of \<open>group_host\<close> up to the aggregation.\<close>

definition store_rates :: "env \<Rightarrow> jval \<Rightarrow> jval \<Rightarrow> jval \<Rightarrow> double \<Rightarrow> jval \<Rightarrow> heap \<Rightarrow> heap option" where
  "store_rates E ntime nda oda idt e h = (let (rates, h1) = new_array h in do {
     h2 \<leftarrow> calc_rates E rates nda oda idt h1;
     h3 \<leftarrow> object_add e ''rates'' rates h2;
     h4 \<leftarrow> object_add e ''otime'' ntime h3;
     object_add e ''odata'' nda h4
   })"

lemma group_host_new:
  assumes "report_of E h e = New ntime nda oda idt"
  shows "group_host E tuple rate_map (name, e) h = do {
    h5 \<leftarrow> store_rates E ntime nda oda idt e h;
    (tag_map, h6) \<leftarrow> server_tag_map E tuple e ntime h5;
    object_add rate_map name tag_map h6
  }"
  using assms by (simp add: group_host_def store_rates_def Let_def split: prod.split)

lemma rates_at_store:
  assumes "rates_at h drs specs" "e \<notin> set (map fst drs) \<union> set (map snd drs)"
  shows "rates_at (store e x h) drs specs"
proof -
  have "list_all2 (rate_at (store e x h)) drs specs"
  proof (rule list.rel_mono_strong)
    show "list_all2 (rate_at h) drs specs" using assms(1) by (simp add: rates_at_def)
    fix p q
    assume "p \<in> set drs" "rate_at h p q"
    moreover have "fst p \<noteq> e" "snd p \<noteq> e" using \<open>p \<in> set drs\<close> assms(2) by force+
    ultimately show "rate_at (store e x h) p q" by (auto simp: rate_at_def split: prod.splits)
  qed
  then show ?thesis using assms(1) by (simp add: rates_at_def)
qed

lemma store_rates_spec:
  assumes e: "node_of h e = Some (Obj ekvs)"
    and nda: "node_of h nda = Some (Arr ndes)" and oda: "node_of h oda = Some (Arr odes)"
    and ok: "report_entries_ok h ndes" "report_entries_ok h odes"
  shows "ok (store_rates E ntime nda oda idt e h) (\<lambda>h5. \<exists>drs.
    node_of h5 e = Some (Obj (AList.update ''odata'' nda (AList.update ''otime'' ntime
      (AList.update ''rates'' (JRef (length h)) ekvs)))) \<and>
    node_of h5 (JRef (length h)) = Some (Arr (map fst drs)) \<and>
    rates_at h5 drs (report_specs E idt h odes ndes) \<and>
    (\<forall>(d, r) \<in> set drs. fresh_from h d \<and> fresh_from h r) \<and> keeps {e} h h5)"
proof -
  let ?a = "JRef (length h)" and ?h1 = "push (Arr []) h"
  have new: "new_array h = (?a, ?h1)" by (simp add: new_array_def new_node_def)
  have ne: "e \<noteq> ?a" "nda \<noteq> ?a" "oda \<noteq> ?a" using e nda oda by auto
  have same: "same_report h ?h1 vs" if "report_entries_ok h vs" for vs
    by (rule keeps_same_report[where S = "{}", OF keeps_push that]) simp
  note ok1 = same_report_entries[OF same[OF ok(1)] ok(1)] same_report_entries[OF same[OF ok(2)] ok(2)]
  have "ok (calc_rates E ?a nda oda idt ?h1) (\<lambda>h'. \<exists>drs. node_of h' ?a = Some (Arr ([] @ map fst drs)) \<and>
    rates_at h' drs (List.map_filter (rate_spec E idt ?h1 (old_map ?h1 odes)) ndes) \<and>
    (\<forall>(d, r) \<in> set drs. fresh_from ?h1 d \<and> fresh_from ?h1 r) \<and> keeps {?a} ?h1 h')"
    by (rule calc_rates_spec) (use nda oda ne ok1 in \<open>auto simp: report_entries_ok_def\<close>)
  then obtain h2 drs where h2: "calc_rates E ?a nda oda idt ?h1 = Some h2" "node_of h2 ?a = Some (Arr (map fst drs))"
    "rates_at h2 drs (report_specs E idt h odes ndes)" "\<forall>(d, r) \<in> set drs. fresh_from ?h1 d \<and> fresh_from ?h1 r"
    "keeps {?a} ?h1 h2"
    unfolding same_report_specs[OF same[OF ok(1)] same[OF ok(2)]] by (auto simp: report_specs_def elim!: okE)
  have e2: "node_of h2 e = Some (Obj ekvs)" using e ne by (intro keeps_node[OF h2(5)]) auto
  let ?k = "AList.update ''odata'' nda (AList.update ''otime'' ntime (AList.update ''rates'' ?a ekvs))"
  have fr: "fresh_from h d \<and> fresh_from h r \<and> d \<noteq> e \<and> r \<noteq> e" if "(d, r) \<in> set drs" for d r
    using h2(4) that e by (fastforce simp: fresh_from_def dest: node_of_ref)
  have run: "store_rates E ntime nda oda idt e h = Some (store e (Obj ?k) h2)"
    using e2 by (simp add: store_rates_def new h2(1))
  have "keeps {} h ?h1" by simp
  then have "keeps (insert ?a {e}) h (store e (Obj ?k) h2)"
    by (rule keeps_trans[OF keeps_mono keeps_trans[OF keeps_mono[OF h2(5)] keeps_store_obj[OF e2]]]) auto
  then have "keeps {e} h (store e (Obj ?k) h2)" by (rule keeps_newest)
  moreover have "rates_at (store e (Obj ?k) h2) drs (report_specs E idt h odes ndes)"
    by (rule rates_at_store[OF h2(3)]) (use fr in force)
  ultimately show ?thesis using run h2(2) e2 ne fr by (auto intro!: exI[of _ drs])
qed

section \<open>Aggregation of the rates\<close>

definition specs_ok :: "(string \<times> jval) list \<Rightarrow> ((string \<times> jval) list \<times> (string \<times> jval) list) list \<Rightarrow> bool" where
  "specs_ok tkvs specs \<longleftrightarrow> (\<forall>(tg, st) \<in> set specs. distinct (keys st) \<and>
    (\<forall>k \<in> {''stats_type'', ''client_nid''}. \<forall>x. map_of tg k = Some x \<longrightarrow> (\<exists>s. x = JString s)) \<and>
    (\<forall>k \<in> fst ` set tkvs. \<forall>x. map_of tg k = Some x \<longrightarrow> scalar x))"

lemma rates_at_mem:
  assumes "rates_at h drs specs" "(d, r) \<in> set drs"
  shows "\<exists>(tg, st) \<in> set specs. node_of h d = Some (Obj ((''stats'', r) # tg)) \<and> node_of h r = Some (Obj st)"
proof -
  have "list_all2 (rate_at h) drs specs" using assms(1) by (simp add: rates_at_def)
  then have "\<exists>q \<in> set specs. rate_at h (d, r) q" using assms(2)
    by (induction rule: list_all2_induct) auto
  then show ?thesis by (auto simp: rate_at_def)
qed

lemma rates_agg:
  assumes "rates_at h drs specs" "specs_ok tkvs specs" "''stats'' \<notin> fst ` set tkvs"
  shows "d \<in> set (map fst drs) \<Longrightarrow> agg_entry_ok h tkvs d"
    and "stats_of h (map fst drs) = set (map snd drs)"
    and "d \<in> set (map fst drs) \<Longrightarrow> distinct (keys (fields_at h (stats_obj h d)))"
    and "distinct (map (stats_obj h) (filter (\<lambda>d. object_get_ex h d ''stats'' \<noteq> None) (map fst drs)))"
proof -
  have get: "object_get_ex h d ''stats'' = Some r" if "(d, r) \<in> set drs" for d r
    using rates_at_mem[OF assms(1) that] by auto
  show "agg_entry_ok h tkvs d" if d: "d \<in> set (map fst drs)" for d
  proof -
    obtain r where "(d, r) \<in> set drs" using d by auto
    then obtain tg st where q: "(tg, st) \<in> set specs" "node_of h d = Some (Obj ((''stats'', r) # tg))"
      "node_of h r = Some (Obj st)"
      using rates_at_mem[OF assms(1)] by blast
    have t: "(\<forall>k \<in> {''stats_type'', ''client_nid''}. \<forall>x. map_of tg k = Some x \<longrightarrow> (\<exists>s. x = JString s)) \<and>
        (\<forall>k \<in> fst ` set tkvs. \<forall>x. map_of tg k = Some x \<longrightarrow> scalar x)"
      using assms(2) q(1) unfolding specs_ok_def by blast
    have g: "object_get_ex h d k = (if k = ''stats'' then Some r else map_of tg k)" for k using q(2) by simp
    have ns: "\<forall>p \<in> set tkvs. fst p \<noteq> ''stats''" using assms(3) by (metis imageI)
    show ?thesis using t ns q(2,3) unfolding agg_entry_ok_def is_obj_def g by fastforce
  qed
  show "stats_of h (map fst drs) = set (map snd drs)" using get by (force simp: stats_of_def)
  show "distinct (keys (fields_at h (stats_obj h d)))" if d: "d \<in> set (map fst drs)" for d
  proof -
    obtain r where r: "(d, r) \<in> set drs" using d by auto
    then obtain tg st where "(tg, st) \<in> set specs" "node_of h r = Some (Obj st)"
      using rates_at_mem[OF assms(1)] by blast
    then show ?thesis using assms(2) get[OF r] by (auto simp: specs_ok_def stats_obj_def)
  qed
  have all: "filter (\<lambda>d. object_get_ex h d ''stats'' \<noteq> None) (map fst drs) = map fst drs"
    using get by (auto simp: filter_id_conv)
  have "map (stats_obj h) (map fst drs) = map snd drs" using get by (auto simp: stats_obj_def)
  then show "distinct (map (stats_obj h) (filter (\<lambda>d. object_get_ex h d ''stats'' \<noteq> None) (map fst drs)))"
    using assms(1) unfolding all rates_at_def by (simp del: map_map)
qed

definition of_type :: "string \<Rightarrow> (string \<times> jval) list \<times> (string \<times> jval) list \<Rightarrow> bool" where
  "of_type c q \<longleftrightarrow> map_of (fst q) ''stats_type'' = Some (JString c)"

lemma rates_sum:
  assumes "rates_at h drs specs"
  shows "(\<Sum>d \<leftarrow> filter (selects h c) (map fst drs). event_value E ev (fields_at h (stats_obj h d))) =
    (\<Sum>q \<leftarrow> filter (of_type c) specs. event_value E ev (snd q))"
proof -
  have "list_all2 (rate_at h) drs specs" using assms by (simp add: rates_at_def)
  then show ?thesis
  proof (induction rule: list_all2_induct)
    case (Cons p drs q specs)
    obtain d r tg st where pq: "p = (d, r)" "q = (tg, st)" by (cases p, cases q)
    have n: "node_of h d = Some (Obj ((''stats'', r) # tg))" "node_of h r = Some (Obj st)"
      using Cons(1) pq by (simp_all add: rate_at_def)
    then have "selects h c d \<longleftrightarrow> of_type c q" "fields_at h (stats_obj h d) = st"
      using pq by (simp_all add: selects_def of_type_def stats_obj_def)
    then show ?case using Cons(3) pq by simp
  qed simp
qed

text \<open>What an aggregation needs, and keeps.\<close>

definition agg_ready :: "heap \<Rightarrow> jval \<Rightarrow> jval \<Rightarrow> (string \<times> jval) list \<Rightarrow> jval \<Rightarrow> jval list \<Rightarrow> bool" where
  "agg_ready h e tuple tkvs arr ds \<longleftrightarrow> object_get_ex h e ''rates'' = Some arr \<and>
    node_of h arr = Some (Arr ds) \<and> node_of h tuple = Some (Obj tkvs) \<and> (\<forall>d \<in> set ds. agg_entry_ok h tkvs d) \<and>
    distinct (map (stats_obj h) (filter (\<lambda>d. object_get_ex h d ''stats'' \<noteq> None) ds)) \<and>
    ({e, tuple, arr} \<union> set ds) \<inter> stats_of h ds = {}"

lemma agg_run:
  assumes r: "agg_ready h e tuple tkvs arr ds"
    and tm: "node_of h tm = Some (Obj [])" "tm \<notin> {tuple} \<union> set ds \<union> stats_of h ds"
  shows "ok (aggregate_stat E e tuple ty tm h) (\<lambda>g.
    view g tm = fold (absorb (merge E)) (agg_pairs E tkvs ty h [] ds) Map.empty \<and>
    sep g tm \<and> refs g tm \<subseteq> picked h ty ds \<and> keeps ({tm} \<union> picked h ty ds) h g)"
proof -
  have refs: "refs h tm = {}" and sep: "sep h tm" and empty: "view h tm = Map.empty"
    using tm(1) by (auto simp: sep_def refs_def uniq_at_def view_def)
  have arr: "tm \<noteq> arr" using tm(1) r by (auto simp: agg_ready_def)
  have "agg_sep h tuple arr tm ds" using r tm(2) arr unfolding agg_sep_def agg_ready_def refs by auto
  then have "ok (aggregate_stat E e tuple ty tm h) (\<lambda>g.
    (\<exists>seen. (seen, view g tm) = fold (agg_step E tkvs ty h) ds ([], view h tm)) \<and>
    sep g tm \<and> refs g tm \<subseteq> refs h tm \<union> picked h ty ds \<and> keeps ({tm} \<union> refs h tm \<union> picked h ty ds) h g)"
    using r by (intro aggregate_stat_refines[OF sep]) (auto simp: agg_ready_def)
  then show ?thesis
  proof (rule ok_mono)
    fix g
    assume "(\<exists>seen. (seen, view g tm) = fold (agg_step E tkvs ty h) ds ([], view h tm)) \<and>
      sep g tm \<and> refs g tm \<subseteq> refs h tm \<union> picked h ty ds \<and> keeps ({tm} \<union> refs h tm \<union> picked h ty ds) h g"
    then show "view g tm = fold (absorb (merge E)) (agg_pairs E tkvs ty h [] ds) Map.empty \<and>
      sep g tm \<and> refs g tm \<subseteq> picked h ty ds \<and> keeps ({tm} \<union> picked h ty ds) h g"
      unfolding empty refs fold_agg_step[symmetric] by (metis snd_conv sup_bot_left sup_bot_right)
  qed
qed

lemma agg_ready_keeps:
  assumes r: "agg_ready h e tuple tkvs arr ds" and k: "keeps S h g" "S \<inter> ({e, tuple, arr} \<union> set ds) = {}"
  shows "agg_ready g e tuple tkvs arr ds" "stats_of g ds = stats_of h ds" "picked g ty ds = picked h ty ds"
    "object_get_ex g e = object_get_ex h e"
proof -
  have "object_get_ex h e ''rates'' = Some arr" using r by (simp add: agg_ready_def)
  then obtain ekvs where e: "node_of h e = Some (Obj ekvs)" using object_get_ex_SomeD by blast
  have ds: "node_of g d = node_of h d" if "d \<in> set ds" for d
  proof -
    have "is_obj h d" using r that by (simp add: agg_ready_def agg_entry_ok_def)
    then obtain n where n: "node_of h d = Some (Obj n)" unfolding is_obj_def by blast
    have "d \<notin> S" using k(2) that by blast
    then show ?thesis using keeps_node[OF k(1) n] n by simp
  qed
  then have get: "object_get_ex g d = object_get_ex h d" if "d \<in> set ds" for d using that by (intro same_node_get) simp
  show 1: "stats_of g ds = stats_of h ds" using get by (simp add: stats_of_def)
  have sel: "selects g ty d = selects h ty d" if "d \<in> set ds" for d using get[OF that] by (simp add: selects_def)
  have "filter (selects g ty) ds = filter (selects h ty) ds" using sel by (rule filter_cong[OF refl])
  then show "picked g ty ds = picked h ty ds" using get by (auto simp: picked_def stats_of_def)
  show e': "object_get_ex g e = object_get_ex h e" using keeps_node[OF k(1) e] k(2) e by (intro same_node_get) auto
  have entry: "agg_entry_ok g tkvs d" if "d \<in> set ds" for d
  proof -
    have d: "agg_entry_ok h tkvs d" using r that by (simp add: agg_ready_def)
    have ob: "is_obj h x \<Longrightarrow> is_obj g x" for x by (rule is_obj_keeps_arr[OF k(1)])
    show ?thesis using d ob unfolding agg_entry_ok_def get[OF that] by blast
  qed
  have "map (stats_obj g) (filter (\<lambda>d. object_get_ex g d ''stats'' \<noteq> None) ds) =
      map (stats_obj h) (filter (\<lambda>d. object_get_ex h d ''stats'' \<noteq> None) ds)"
    using get by (intro map_cong filter_cong) (auto simp: stats_obj_def)
  note m = this
  have "node_of g arr = Some (Arr ds)" "node_of g tuple = Some (Obj tkvs)"
    using r k(2) by (auto simp: agg_ready_def intro!: keeps_node[OF k(1)])
  then show "agg_ready g e tuple tkvs arr ds" using r entry unfolding agg_ready_def 1 e' m by blast
qed

lemma agg_ready_rates:
  assumes "rates_at h drs specs" "specs_ok tkvs specs" "''stats'' \<notin> fst ` set tkvs"
    and "object_get_ex h e ''rates'' = Some arr" "node_of h arr = Some (Arr (map fst drs))"
    and "node_of h tuple = Some (Obj tkvs)" "{e, tuple} \<inter> (set (map fst drs) \<union> set (map snd drs)) = {}"
  shows "agg_ready h e tuple tkvs arr (map fst drs)"
proof -
  note a = rates_agg[OF assms(1-3)]
  have "arr \<notin> set (map snd drs)" using assms(5) rates_at_mem[OF assms(1)] by fastforce
  moreover have "set (map fst drs) \<inter> set (map snd drs) = {}" using assms(1) by (simp add: rates_at_def)
  ultimately show ?thesis unfolding agg_ready_def a(2) using assms(4-7) a(1,4) by blast
qed

section \<open>The load of the processor\<close>

text \<open>Up to the load, the tag map holds what it held before.\<close>

definition but_load :: "heap \<Rightarrow> jval \<Rightarrow> heap \<Rightarrow> bool" where
  "but_load g tm g' \<longleftrightarrow> keeps (refs g tm) g g' \<and> (\<forall>r \<in> refs g tm. \<forall>kvs. node_of g r = Some (Obj kvs) \<longrightarrow>
    (\<exists>kvs'. node_of g' r = Some (Obj kvs') \<and> (\<forall>j. j \<noteq> ''load'' \<longrightarrow> map_of kvs' j = map_of kvs j)))"

lemma but_load_refl: "but_load g tm g"
  by (simp add: but_load_def)

lemma but_load_add:
  assumes "but_load g tm g'" "sep g tm" "r \<in> refs g tm"
  shows "ok (object_add r ''load'' x g') (but_load g tm)"
proof -
  have "is_obj g r" using assms(2,3) by (auto simp: sep_def refs_def)
  then obtain kvs where r: "node_of g r = Some (Obj kvs)" by (auto simp: is_obj_def)
  then obtain kvs' where r': "node_of g' r = Some (Obj kvs')" "\<forall>j. j \<noteq> ''load'' \<longrightarrow> map_of kvs' j = map_of kvs j"
    using assms(1,3) unfolding but_load_def by blast
  have "keeps (refs g tm) g (store r (Obj (AList.update ''load'' x kvs')) g')"
    using assms(1,3) r'(1) by (auto simp: but_load_def intro: keeps_trans keeps_store_obj)
  moreover have "\<exists>m'. node_of (store r (Obj (AList.update ''load'' x kvs')) g') v = Some (Obj m') \<and>
      (\<forall>j. j \<noteq> ''load'' \<longrightarrow> map_of m' j = map_of m j)"
    if "v \<in> refs g tm" "node_of g v = Some (Obj m)" for v m
  proof (cases "v = r")
    case True
    then show ?thesis using that r r' by simp
  next
    case False
    then show ?thesis using that assms(1) by (auto simp: but_load_def)
  qed
  ultimately show ?thesis using r'(1) by (simp add: but_load_def)
qed

lemma but_load_tm:
  assumes "but_load g tm g'" "sep g tm"
  shows "node_of g' tm = node_of g tm"
proof -
  obtain tms where "node_of g tm = Some (Obj tms)" using sep_tm[OF assms(2)] by blast
  moreover have "tm \<notin> refs g tm" using assms(2) by (simp add: sep_def)
  ultimately show ?thesis using assms(1) keeps_node unfolding but_load_def by metis
qed

lemma spread_load_spec:
  assumes "sep g tm" "is_obj g cm"
  shows "ok (spread_load cm tm g) (but_load g tm)"
proof -
  obtain tms where tms: "node_of g tm = Some (Obj tms)" "distinct (keys tms)"
    using assms(1) by (auto simp: sep_def uniq_at_def)
  obtain cpus where cm: "node_of g cm = Some (Obj cpus)" using assms(2) by (auto simp: is_obj_def)
  have mem: "r \<in> refs g tm" if "(t, r) \<in> set tms" for t r
    using that tms map_of_is_SomeI[OF tms(2)] by (auto simp: refs_def)
  have one: "ok (foldM (\<lambda>(t, tag_entry) h. object_add tag_entry ''load'' x h) tms g') (but_load g tm)"
    if "but_load g tm g'" for x g'
    by (rule ok_foldM_inv[where I = "but_load g tm", OF that])
      (auto intro: but_load_add[OF _ assms(1)] dest: mem)
  show ?thesis
    unfolding spread_load_def object_foreach_obj[OF cm] bind.bind_lunit
  proof (rule ok_foldM_inv[where I = "but_load g tm", OF but_load_refl])
    fix p :: "string \<times> jval" and h
    assume h: "but_load g tm h"
    obtain s cpu where p: "p = (s, cpu)" by (cases p)
    have "object_foreach h tm = Some tms" using but_load_tm[OF h assms(1)] tms(1) by simp
    then show "ok ((\<lambda>(s, cpu_entry) h. do {
       let system = (case object_get_ex h cpu_entry ''system'' of None \<Rightarrow> JNull | Some v \<Rightarrow> v);
       tags \<leftarrow> object_foreach h tm;
       foldM (\<lambda>(t, tag_entry) h. object_add tag_entry ''load'' system h) tags h}) p h) (but_load g tm)"
      using one[OF h] by (simp add: p Let_def)
  qed
qed

lemma but_load_view:
  assumes "but_load g tm g'" "sep g tm"
  shows "view g' tm t = None \<longleftrightarrow> view g tm t = None"
    and "view g tm t = Some x \<Longrightarrow> ev \<noteq> ''load'' \<Longrightarrow> event_value E ev (the (view g' tm t)) = event_value E ev x"
proof -
  have get: "object_get_ex g' tm = object_get_ex g tm" by (rule same_node_get[OF but_load_tm[OF assms]])
  have "\<exists>m m'. node_of g r = Some (Obj m) \<and> node_of g' r = Some (Obj m') \<and>
      (\<forall>j. j \<noteq> ''load'' \<longrightarrow> map_of m' j = map_of m j)" if "object_get_ex g tm t = Some r" for r
  proof -
    have "is_obj g r" "r \<in> refs g tm" using assms(2) that by (auto simp: sep_def refs_def)
    then show ?thesis using assms(1) unfolding but_load_def is_obj_def by blast
  qed
  note r = this
  show "view g' tm t = None \<longleftrightarrow> view g tm t = None"
    unfolding view_def get using r by (fastforce simp: obj_of_def split: option.split)
  show "event_value E ev (the (view g' tm t)) = event_value E ev x" if "view g tm t = Some x" "ev \<noteq> ''load''"
    using that r unfolding view_def get by (fastforce simp: obj_of_def event_value_def split: option.splits)
qed

lemma but_load_total:
  assumes "but_load g tm g'" "sep g tm" "ev \<noteq> ''load''"
  shows "total (event_value E ev) (view g' tm) = total (event_value E ev) (view g tm)"
proof -
  have "dom (view g' tm) = dom (view g tm)" using but_load_view(1)[OF assms(1,2)] by (auto simp: dom_def)
  then show ?thesis unfolding total_def using but_load_view(2)[OF assms(1,2) _ assms(3)] by (auto intro!: sum.cong)
qed

section \<open>The tag map of a server\<close>

definition class_text :: "heap \<Rightarrow> jval \<Rightarrow> string \<Rightarrow> bool" where
  "class_text h e c \<longleftrightarrow> object_get_ex h e ''obdclass'' = Some (JString c) \<and> CHR ''%'' \<notin> set c \<and> length c < 32"

lemma class_text_is_class: "class_text h e c \<Longrightarrow> is_class E h e class = Some (if class = c then 1 else -1)"
  unfolding class_text_def by (rule is_class_plain) auto

definition class_view :: "env \<Rightarrow> (string \<times> jval) list \<Rightarrow> string \<Rightarrow> heap \<Rightarrow> jval list \<Rightarrow> string \<Rightarrow> (string \<times> jval) list option" where
  "class_view E tkvs c h ds = (if c \<in> {''mds'', ''oss''}
    then fold (absorb (merge E)) (agg_pairs E tkvs c h [] ds) Map.empty else Map.empty)"

definition class_tags :: "env \<Rightarrow> jval \<Rightarrow> jval \<Rightarrow> jval \<Rightarrow> heap \<Rightarrow> heap option" where
  "class_tags E tuple e tm h = do {
     mds \<leftarrow> is_class E h e ''mds'';
     h2 \<leftarrow> (if 0 < mds then aggregate_stat E e tuple ''mds'' tm h else Some h);
     oss \<leftarrow> is_class E h2 e ''oss'';
     (if 0 < oss then aggregate_stat E e tuple ''oss'' tm h2 else Some h2)
   }"

lemma server_tag_map_eq:
  "server_tag_map E tuple e ntime h = (let (tag_map, h1) = new_object h in do {
     h3 \<leftarrow> class_tags E tuple e tag_map h1;
     let (cpu_map, h4) = new_object h3;
     h5 \<leftarrow> aggregate_stat E e tuple ''cpu'' cpu_map h4;
     h6 \<leftarrow> spread_load cpu_map tag_map h5;
     h7 \<leftarrow> object_add tag_map ''time'' ntime h6;
     Some (tag_map, h7)
   })"
  unfolding server_tag_map_def class_tags_def Let_def by (simp add: bind_assoc split: prod.split)

lemma class_phase:
  assumes r: "agg_ready h e tuple tkvs arr ds" and c: "class_text h e c"
    and tm: "node_of h tm = Some (Obj [])" "tm \<notin> {e, tuple} \<union> set ds \<union> stats_of h ds"
  shows "ok (class_tags E tuple e tm h) (\<lambda>g. view g tm = class_view E tkvs c h ds \<and> sep g tm \<and> refs g tm \<subseteq> picked h c ds \<and>
      keeps ({tm} \<union> picked h c ds) h g)"
proof -
  have run: "ok (aggregate_stat E e tuple c tm h) (\<lambda>g. view g tm = class_view E tkvs c h ds \<and>
      sep g tm \<and> refs g tm \<subseteq> picked h c ds \<and> keeps ({tm} \<union> picked h c ds) h g)" if "c \<in> {''mds'', ''oss''}"
    using agg_run[OF r tm(1), of E c] tm(2) that by (auto simp: class_view_def)
  have skip: "view h tm = class_view E tkvs c h ds \<and> sep h tm \<and> refs h tm \<subseteq> picked h c ds \<and>
      keeps ({tm} \<union> picked h c ds) h h" if "c \<notin> {''mds'', ''oss''}"
    using tm(1) that by (auto simp: class_view_def view_def sep_def uniq_at_def refs_def)
  have later: "class_text g e c" if "keeps ({tm} \<union> picked h c ds) h g" for g
  proof -
    have "({tm} \<union> picked h c ds) \<inter> ({e, tuple, arr} \<union> set ds) = {}"
      using tm r picked_subset[of h c ds] unfolding agg_ready_def by auto
    from agg_ready_keeps(4)[OF r that this] c show ?thesis by (simp add: class_text_def)
  qed
  note cls = class_text_is_class[OF c]
  consider "c = ''mds''" | "c = ''oss''" | "c \<notin> {''mds'', ''oss''}" by blast
  then show ?thesis
  proof cases
    case 1
    obtain g where g: "aggregate_stat E e tuple c tm h = Some g" "view g tm = class_view E tkvs c h ds"
      "sep g tm" "refs g tm \<subseteq> picked h c ds" "keeps ({tm} \<union> picked h c ds) h g"
      using run 1 by (auto elim: okE)
    then show ?thesis using 1 cls class_text_is_class[OF later[OF g(5)]] by (simp add: class_tags_def)
  next
    case 2
    then show ?thesis using run cls by (simp add: class_tags_def)
  next
    case 3
    then have "''mds'' \<noteq> c" "''oss'' \<noteq> c" by auto
    then show ?thesis using skip[OF 3] cls by (simp add: class_tags_def)
  qed
qed

lemma fresh_not_stats: "agg_ready h e tuple tkvs arr ds \<Longrightarrow> JRef (length h) \<notin> {e, tuple} \<union> set ds \<union> stats_of h ds"
proof
  assume r: "agg_ready h e tuple tkvs arr ds" and m: "JRef (length h) \<in> {e, tuple} \<union> set ds \<union> stats_of h ds"
  have "is_obj h x" if "x \<in> {e, tuple} \<union> set ds \<union> stats_of h ds" for x
  proof -
    have "object_get_ex h e ''rates'' = Some arr" using r by (simp add: agg_ready_def)
    then have "is_obj h e" using object_get_ex_SomeD by (blast intro: is_objI)
    then show ?thesis using that r by (auto simp: agg_ready_def agg_entry_ok_def stats_of_def)
  qed
  from this[OF m] show False by (auto simp: is_obj_def)
qed

lemma picked_disjoint:
  assumes "agg_ready h e tuple tkvs arr ds" "c \<noteq> c'"
  shows "picked h c ds \<inter> picked h c' ds = {}"
proof -
  let ?P = "\<lambda>d. object_get_ex h d ''stats'' \<noteq> None"
  have "inj_on (stats_obj h) (set (filter ?P ds))" using assms(1) unfolding agg_ready_def distinct_map by blast
  then have "d = d'" if "d \<in> set ds" "d' \<in> set ds" "object_get_ex h d ''stats'' = Some r"
    "object_get_ex h d' ''stats'' = Some r" for d d' r
    using that by (auto simp: inj_on_def stats_obj_def)
  then show ?thesis using assms(2) by (fastforce simp: picked_def stats_of_def selects_def)
qed

lemma view_keeps:
  assumes "sep g tm" "keeps S g k" "S \<inter> ({tm} \<union> refs g tm) = {}"
  shows "view k tm = view g tm" "sep k tm" "refs k tm = refs g tm"
proof -
  obtain tms where tms: "node_of g tm = Some (Obj tms)" "distinct (keys tms)"
    using assms(1) by (auto simp: sep_def uniq_at_def)
  have "tm \<notin> S" using assms(3) by blast
  then have tmk: "node_of k tm = Some (Obj tms)" by (rule keeps_node[OF assms(2) tms(1)])
  then have get: "object_get_ex k tm = object_get_ex g tm" using tms(1) by (simp add: fun_eq_iff)
  show r: "refs k tm = refs g tm" by (simp add: refs_def get)
  have same: "node_of k r = node_of g r" if "object_get_ex g tm t = Some r" for t r
  proof -
    have "\<exists>m. node_of g r = Some (Obj m)" by (rule sepD(1)[OF assms(1) that])
    then obtain m where m: "node_of g r = Some (Obj m)" by blast
    have "r \<notin> S" using assms(3) that by (auto simp: refs_def)
    then show ?thesis using keeps_node[OF assms(2) m] m by simp
  qed
  have "uniq_at k tm" using tmk tms(2) by (simp add: uniq_at_def)
  moreover have "is_obj k r = is_obj g r" if "object_get_ex g tm t = Some r" for t r
    using same[OF that] by (simp add: is_obj_def)
  ultimately show "sep k tm" using assms(1) unfolding sep_def r get by blast
  show "view k tm = view g tm"
  proof
    fix t
    show "view k tm t = view g tm t"
      unfolding view_def get using same by (auto simp: obj_of_def split: option.split)
  qed
qed

lemma class_view_push:
  assumes "agg_ready h e tuple tkvs arr ds"
  shows "class_view E tkvs c (push n h) ds = class_view E tkvs c h ds"
proof -
  have "agg_step E tkvs c (push n h) d = agg_step E tkvs c h d" if "d \<in> set ds" for d
    by (rule agg_step_push(1)) (use assms that in \<open>simp add: agg_ready_def\<close>)
  then have "fold (agg_step E tkvs c (push n h)) ds ([], Map.empty) = fold (agg_step E tkvs c h) ds ([], Map.empty)"
    by (intro fold_cong) auto
  then show ?thesis unfolding class_view_def fold_agg_step[symmetric] by simp
qed

lemma fold_absorb_dom: "t \<in> dom (fold (absorb comb) ps m) \<Longrightarrow> t \<in> fst ` set ps \<or> t \<in> dom m"
proof (induction ps arbitrary: m)
  case (Cons p ps)
  then have "t \<in> fst ` set ps \<or> t \<in> dom (absorb comb p m)" by simp
  then show ?case by (cases p) (auto simp: absorb_def split: if_splits option.splits)
qed simp

lemma class_view_texts: "class_view E tkvs c h ds t \<noteq> None \<Longrightarrow> \<exists>get. t = group_text E tkvs get"
proof -
  have texts: "\<forall>(t, x) \<in> set (agg_pairs E tkvs c h seen ds). \<exists>get. t = group_text E tkvs get" for seen
    by (induction ds arbitrary: seen) (auto simp: Let_def)
  assume "class_view E tkvs c h ds t \<noteq> None"
  then have "t \<in> dom (fold (absorb (merge E)) (agg_pairs E tkvs c h [] ds) Map.empty)"
    by (auto simp: class_view_def split: if_splits)
  then have "t \<in> fst ` set (agg_pairs E tkvs c h [] ds)" using fold_absorb_dom by fastforce
  then show ?thesis using texts[of "[]"] by fastforce
qed

text \<open>What the tag map of a server holds at the end: the tuples of the aggregation with their events, up to the load
  that is spread over them, and the time; the objects in it are among \<open>A\<close>.\<close>

definition holds_tags :: "env \<Rightarrow> heap \<Rightarrow> jval \<Rightarrow> jval \<Rightarrow> (string \<Rightarrow> (string \<times> jval) list option) \<Rightarrow> jval set \<Rightarrow> bool" where
  "holds_tags E g tm ntime V A \<longleftrightarrow> scalar ntime \<and> object_get_ex g tm ''time'' = Some ntime \<and>
    (\<forall>t r. object_get_ex g tm t = Some r \<longrightarrow> r = ntime \<or> (r \<in> A \<and> is_obj g r)) \<and>
    (\<forall>t. view g tm t = None \<longleftrightarrow> V t = None) \<and>
    (\<forall>t x ev. V t = Some x \<longrightarrow> ev \<noteq> ''load'' \<longrightarrow> event_value E ev (the (view g tm t)) = event_value E ev x)"

lemma holds_tags_total:
  assumes "holds_tags E g tm ntime V A" "ev \<noteq> ''load''"
  shows "total (event_value E ev) (view g tm) = total (event_value E ev) V"
proof -
  have "\<forall>t. view g tm t = None \<longleftrightarrow> V t = None" using assms(1) by (simp add: holds_tags_def)
  then have "dom (view g tm) = dom V" unfolding dom_def by metis
  then show ?thesis unfolding total_def using assms by (auto simp: holds_tags_def intro!: sum.cong)
qed

lemma obj_of_scalar: "scalar v \<Longrightarrow> obj_of h v = None"
  by (cases v) (auto simp: scalar_def obj_of_def node_of_def)

lemma holds_tags_keeps:
  assumes "holds_tags E g tm ntime V A" "keeps S g k" "S \<inter> ({tm} \<union> A) = {}"
  shows "holds_tags E k tm ntime V A"
proof -
  have "object_get_ex g tm ''time'' = Some ntime" using assms(1) by (simp add: holds_tags_def)
  then obtain tms where "node_of g tm = Some (Obj tms)" using object_get_ex_SomeD by blast
  moreover have "tm \<notin> S" using assms(3) by blast
  ultimately have get: "object_get_ex k tm = object_get_ex g tm" using keeps_node[OF assms(2)] by (simp add: fun_eq_iff)
  have r: "obj_of k r = obj_of g r \<and> (r = ntime \<or> (r \<in> A \<and> is_obj k r))" if "object_get_ex g tm t = Some r" for t r
  proof (cases "r = ntime")
    case True
    then show ?thesis using assms(1) obj_of_scalar by (simp add: holds_tags_def)
  next
    case False
    then have A: "r \<in> A" "is_obj g r" using assms(1) that unfolding holds_tags_def by blast+
    then obtain m where m: "node_of g r = Some (Obj m)" by (auto simp: is_obj_def)
    have "r \<notin> S" using A(1) assms(3) by blast
    then have "node_of k r = Some (Obj m)" by (rule keeps_node[OF assms(2) m])
    then show ?thesis using m A(1) by (auto simp: obj_of_def is_obj_def)
  qed
  have "view k tm = view g tm"
    unfolding view_def get using r by (auto simp: fun_eq_iff split: option.split)
  then show ?thesis using assms(1) r unfolding holds_tags_def get by metis
qed

lemma add_time:
  assumes "sep k tm" "scalar ntime" "view k tm ''time'' = None" "but_load k tm g"
  shows "ok (object_add tm ''time'' ntime g) (\<lambda>g'. holds_tags E g' tm ntime (view k tm) (refs k tm) \<and> keeps {tm} g g')"
proof -
  obtain tms where tms: "node_of g tm = Some (Obj tms)" using sep_tm[OF assms(1)] but_load_tm[OF assms(4,1)] by auto
  let ?g = "store tm (Obj (AList.update ''time'' ntime tms)) g"
  have get: "object_get_ex ?g tm = (object_get_ex g tm)(''time'' \<mapsto> ntime)" using tms by (simp add: fun_eq_iff)
  have gk: "object_get_ex g tm = object_get_ex k tm" by (rule same_node_get[OF but_load_tm[OF assms(4,1)]])
  have other: "view ?g tm t = view g tm t" if "t \<noteq> ''time''" for t
  proof -
    have "r \<noteq> tm" if "object_get_ex k tm t = Some r" for r using sepD(2)[OF assms(1) that] .
    then show ?thesis using \<open>t \<noteq> ''time''\<close> unfolding view_def get gk by (auto simp: obj_of_def split: option.split)
  qed
  have time: "view ?g tm ''time'' = None" unfolding view_def get by (simp add: obj_of_scalar[OF assms(2)])
  have "view ?g tm t = None \<longleftrightarrow> view k tm t = None" for t
    using time assms(3) other but_load_view(1)[OF assms(4,1)] by (cases "t = ''time''") auto
  moreover have "event_value E ev (the (view ?g tm t)) = event_value E ev x"
    if "view k tm t = Some x" "ev \<noteq> ''load''" for t x ev
  proof -
    have "t \<noteq> ''time''" using that(1) assms(3) by auto
    then show ?thesis using other but_load_view(2)[OF assms(4,1) that] by simp
  qed
  moreover have "r = ntime \<or> (r \<in> refs k tm \<and> is_obj ?g r)" if "object_get_ex ?g tm t = Some r" for t r
  proof (cases "t = ''time''")
    case False
    then have rk: "object_get_ex k tm t = Some r" using that unfolding get gk by simp
    then have "r \<in> refs k tm" "is_obj k r" using assms(1) by (auto simp: refs_def sep_def)
    moreover have "is_obj g r" using calculation assms(4) unfolding but_load_def by (auto intro: is_obj_keeps_arr)
    ultimately show ?thesis using tms by (auto simp: is_obj_def)
  qed (use that get in auto)
  ultimately have "holds_tags E ?g tm ntime (view k tm) (refs k tm)" unfolding holds_tags_def using get assms(2) by simp
  then show ?thesis using tms by (auto intro: keeps_store_obj)
qed

lemma holds_tags_mono: "holds_tags E g tm ntime V A \<Longrightarrow> A \<subseteq> B \<Longrightarrow> holds_tags E g tm ntime V B"
  unfolding holds_tags_def by blast

lemma server_tag_map_spec:
  assumes r: "agg_ready h e tuple tkvs arr ds" and c: "class_text h e c" and time: "scalar ntime"
    and notime: "\<And>get. group_text E tkvs get \<noteq> ''time''"
  shows "ok (server_tag_map E tuple e ntime h) (\<lambda>(tm, g). tm = JRef (length h) \<and>
    holds_tags E g tm ntime (class_view E tkvs c h ds) (stats_of h ds) \<and> keeps (stats_of h ds) h g)"
proof -
  let ?tm = "JRef (length h)" and ?h1 = "push (Obj []) h"
  have new: "new_object h' = (JRef (length h'), push (Obj []) h')" for h' by (simp add: new_object_def new_node_def)
  have r1: "agg_ready ?h1 e tuple tkvs arr ds" and s1: "stats_of ?h1 ds = stats_of h ds" and c1: "class_text ?h1 e c"
    using agg_ready_keeps[OF r keeps_push[of "{}"]] c by (auto simp: class_text_def)
  have tm1: "?tm \<notin> {e, tuple} \<union> set ds \<union> stats_of ?h1 ds" using fresh_not_stats[OF r] s1 by simp
  obtain g where g: "class_tags E tuple e ?tm ?h1 = Some g" "view g ?tm = class_view E tkvs c h ds" "sep g ?tm"
    "refs g ?tm \<subseteq> picked ?h1 c ds" "keeps ({?tm} \<union> picked ?h1 c ds) ?h1 g"
    using class_phase[OF r1 c1 _ tm1, of E] class_view_push[OF r] by (auto elim!: okE)
  have away1: "({?tm} \<union> picked ?h1 c ds) \<inter> ({e, tuple, arr} \<union> set ds) = {}"
    using tm1 r r1 picked_subset[of ?h1 c ds] unfolding agg_ready_def by auto
  note rg = agg_ready_keeps[OF r1 g(5) away1]
  let ?cm = "JRef (length g)" and ?g1 = "push (Obj []) g"
  have r2: "agg_ready ?g1 e tuple tkvs arr ds" and s2: "stats_of ?g1 ds = stats_of g ds"
    and p2: "picked ?g1 ty ds = picked g ty ds" for ty
    using agg_ready_keeps[OF rg(1) keeps_push[of "{}"]] by auto
  have cm: "?cm \<notin> {tuple} \<union> set ds \<union> stats_of ?g1 ds" using fresh_not_stats[OF rg(1)] s2 by auto
  obtain k where k: "aggregate_stat E e tuple ''cpu'' ?cm ?g1 = Some k" "sep k ?cm"
    "keeps ({?cm} \<union> picked ?g1 ''cpu'' ds) ?g1 k"
    using agg_run[OF r2 _ cm, of E "''cpu''"] by (auto elim: okE)
  have kk: "keeps (picked g ''cpu'' ds) g k"
    by (rule keeps_newest) (use keeps_trans[OF keeps_push k(3)] p2 in simp)
  have free: "picked g ''cpu'' ds \<inter> ({?tm} \<union> refs g ?tm) = {}"
  proof -
    have tmp: "?tm \<notin> picked g ''cpu'' ds" using tm1 picked_subset[of g "''cpu''" ds] rg(2) by auto
    show ?thesis
    proof (cases "c = ''cpu''")
      case True
      then have "view g ?tm = Map.empty" using g(2) by (simp add: class_view_def)
      then have "object_get_ex g ?tm t = None" for t
      proof (cases "object_get_ex g ?tm t")
        case (Some x)
        then have "\<exists>m. node_of g x = Some (Obj m)" by (rule sepD(1)[OF g(3)])
        then have "view g ?tm t \<noteq> None" using Some by (auto simp: view_def obj_of_def)
        then show ?thesis using \<open>view g ?tm = Map.empty\<close> by simp
      qed simp
      then have "refs g ?tm = {}" by (auto simp: refs_def)
      with tmp show ?thesis by simp
    next
      case False
      then have "refs g ?tm \<inter> picked g ''cpu'' ds = {}" using picked_disjoint[OF r1 False] g(4) unfolding rg(3) by blast
      with tmp show ?thesis by auto
    qed
  qed
  note vk = view_keeps[OF g(3) kk free]
  have "is_obj k ?cm" using k(2) by (auto simp: sep_def uniq_at_def is_obj_def)
  then obtain k' where k': "spread_load ?cm ?tm k = Some k'" "but_load k ?tm k'"
    using spread_load_spec[OF vk(2)] by (auto elim: okE)
  have nt: "view k ?tm ''time'' = None" unfolding vk(1) g(2) using class_view_texts[of E tkvs c h ds] notime by metis
  obtain g' where g': "object_add ?tm ''time'' ntime k' = Some g'" "holds_tags E g' ?tm ntime (view k ?tm) (refs k ?tm)" "keeps {?tm} k' g'"
    using add_time[OF vk(2) time nt k'(2), of E] by (auto elim: okE)
  have "keeps ({?tm} \<union> stats_of h ds) h g'"
  proof -
    have k1: "keeps ({?tm} \<union> stats_of h ds) ?h1 g"
      by (rule keeps_mono[OF g(5)]) (use picked_subset[of ?h1 c ds] s1 in auto)
    have k2: "keeps ({?tm} \<union> stats_of h ds) g k"
      by (rule keeps_mono[OF kk]) (use picked_subset[of g "''cpu''" ds] rg(2) s1 in auto)
    have k3: "keeps ({?tm} \<union> stats_of h ds) k k'"
    proof (rule keeps_mono)
      show "keeps (refs g ?tm) k k'" using k'(2) unfolding but_load_def vk(3) by (rule conjunct1)
      show "refs g ?tm \<subseteq> {?tm} \<union> stats_of h ds" using g(4) picked_subset[of ?h1 c ds] s1 by auto
    qed
    have k4: "keeps ({?tm} \<union> stats_of h ds) k' g'" by (rule keeps_mono[OF g'(3)]) simp
    show ?thesis by (rule keeps_trans[OF keeps_push keeps_trans[OF k1 keeps_trans[OF k2 keeps_trans[OF k3 k4]]]])
  qed
  then have fr: "keeps (stats_of h ds) h g'" using keeps_newest by simp
  have run: "server_tag_map E tuple e ntime h = Some (?tm, g')"
    using g(1) k(1) k'(1) g'(1) unfolding server_tag_map_eq new by (simp add: Let_def)
  have "refs k ?tm \<subseteq> stats_of h ds" using g(4) picked_subset[of ?h1 c ds] s1 unfolding vk(3) by blast
  then show ?thesis unfolding run using holds_tags_mono[OF g'(2)] fr vk(1) g(2) by simp
qed

end
