(* ===== verification/Publish.thy ===== *)
theory Publish
  imports HostTags
begin

text \<open>
  One tick of the server: the loop of \<open>group_statsbytags\<close> over the hosts.  What a host with a new report
  publishes is the sum of the rates of its own entries, whatever the other hosts do, because the passes
  only write nodes they have allocated themselves, the entry of the host and the rate map.
\<close>

section \<open>One host\<close>

definition scalar_tags :: "heap \<Rightarrow> (string \<times> jval) list \<Rightarrow> jval list \<Rightarrow> bool" where
  "scalar_tags h tkvs vs \<longleftrightarrow> (\<forall>v \<in> set vs. \<forall>k \<in> fst ` set tkvs. \<forall>x. object_get_ex h v k = Some x \<longrightarrow> scalar x)"

lemma copied_lookup:
  "map_of (copied get ps kvs) k = Some x \<Longrightarrow> (\<exists>j. (j, k) \<in> set ps \<and> get j = Some x) \<or> map_of kvs k = Some x"
proof (induction ps arbitrary: kvs)
  case (Cons p ps)
  obtain a b where p: "p = (a, b)" by (cases p)
  show ?case using Cons.IH Cons.prems unfolding p copied_Cons by (force simp: update_conv' split: option.splits if_splits)
qed simp

lemma rate_tags_lookup:
  assumes "map_of (rate_tags h nde) k = Some x"
  shows "object_get_ex h nde k = Some x"
proof -
  have same: "j = k" if "(j, k) \<in> set client_tags" for j using that by (auto simp: client_tags_def)
  obtain ty where ty: "object_get_ex h nde ''stats_type'' = Some ty"
    using assms by (cases "object_get_ex h nde ''stats_type''") (auto simp: rate_tags_def)
  let ?tg = "copied (object_get_ex h nde) [(''server'', ''server'')] [(''stats_type'', ty)]"
  have base: "object_get_ex h nde k = Some x" if "map_of ?tg k = Some x"
    using copied_lookup[OF that] ty by (auto split: if_splits)
  show ?thesis
  proof (cases "ty = JString ''cpu''")
    case True
    then have "rate_tags h nde = ?tg" using ty by (simp add: rate_tags_def Let_def)
    then show ?thesis using base assms by simp
  next
    case False
    then have "rate_tags h nde = copied (object_get_ex h nde) client_tags ?tg" using ty by (simp add: rate_tags_def Let_def)
    then show ?thesis using copied_lookup[of "object_get_ex h nde" client_tags ?tg k x] base assms same by auto
  qed
qed

lemma distinct_event_rates: "distinct (keys kvs) \<Longrightarrow> distinct (keys (event_rates E idt old events kvs))"
  by (induction events arbitrary: kvs) (auto simp: event_rates_def split: prod.split)

lemma report_specs_ok:
  assumes "report_entries_ok h ndes" "scalar_tags h tkvs ndes"
  shows "specs_ok tkvs (report_specs E idt h odes ndes)"
  unfolding specs_ok_def
proof (intro ballI, clarify)
  fix tg st
  assume "(tg, st) \<in> set (report_specs E idt h odes ndes)"
  then obtain nde where nde: "nde \<in> set ndes" "rate_spec E idt h (old_map h odes) nde = Some (tg, st)"
    by (auto simp: report_specs_def List.map_filter_def)
  then have tg: "tg = rate_tags h nde" and st: "distinct (keys st)"
    by (auto simp: rate_spec_def split: option.splits intro: distinct_event_rates)
  have ok: "stat_entry_ok h nde" using assms(1) nde(1) by (simp add: report_entries_ok_def)
  have look: "object_get_ex h nde k = Some x" if "map_of tg k = Some x" for k x
    using rate_tags_lookup that unfolding tg .
  have "\<forall>k \<in> {''stats_type'', ''client_nid''}. \<forall>x. map_of tg k = Some x \<longrightarrow> (\<exists>s. x = JString s)"
    using look ok unfolding stat_entry_ok_def by blast
  moreover have "\<forall>k \<in> fst ` set tkvs. \<forall>x. map_of tg k = Some x \<longrightarrow> scalar x"
    using look assms(2) nde(1) unfolding scalar_tags_def by blast
  ultimately show "distinct (keys st) \<and> (\<forall>k \<in> {''stats_type'', ''client_nid''}. \<forall>x. map_of tg k = Some x \<longrightarrow> (\<exists>s. x = JString s)) \<and>
      (\<forall>k \<in> fst ` set tkvs. \<forall>x. map_of tg k = Some x \<longrightarrow> scalar x)"
    using st by blast
qed

text \<open>The sum of an event over the rates of one type.\<close>

definition rates_total :: "env \<Rightarrow> double \<Rightarrow> heap \<Rightarrow> jval list \<Rightarrow> jval list \<Rightarrow> string \<Rightarrow> string \<Rightarrow> double" where
  "rates_total E idt h odes ndes c ev =
    (\<Sum>q \<leftarrow> filter (of_type c) (report_specs E idt h odes ndes). event_value E ev (snd q))"

lemma class_view_total:
  assumes "rates_at h drs specs" "specs_ok tkvs specs" "''stats'' \<notin> fst ` set tkvs"
    and "fl E = (\<lambda>x. x)" "c \<in> {''mds'', ''oss''}" "ev \<notin> {''load'', ''nclients''}"
  shows "total (event_value E ev) (class_view E tkvs c h (map fst drs)) =
    (\<Sum>q \<leftarrow> filter (of_type c) specs. event_value E ev (snd q))"
proof -
  let ?ps = "agg_pairs E tkvs c h [] (map fst drs)"
  have E: "E\<lparr>fl := \<lambda>x. x\<rparr> = E" using assms(4) by (cases E) simp
  have ev: "summed E ev = event_value E ev" using assms(6) by (simp add: summed_def fun_eq_iff)
  have wf: "\<forall>(t, x) \<in> set ?ps. distinct (keys x)" by (rule agg_pairs_wf) (rule rates_agg(3)[OF assms(1-3)])
  have "total (event_value E ev) (fold (absorb (merge E)) ?ps Map.empty) =
      (\<Sum>(t, x) \<leftarrow> ?ps. event_value E ev x) + total (event_value E ev) Map.empty"
    using exact_sum.total_fold[of Map.empty ?ps E ev] wf unfolding E ev by simp
  then have "total (event_value E ev) (class_view E tkvs c h (map fst drs)) = (\<Sum>(t, x) \<leftarrow> ?ps. event_value E ev x)"
    using assms(5) by (auto simp: class_view_def total_def)
  also have "\<dots> = (\<Sum>d \<leftarrow> filter (selects h c) (map fst drs). event_value E ev (fields_at h (stats_obj h d)))"
    by (rule sum_agg_pairs) (use assms(6) in simp)
  also have "\<dots> = (\<Sum>q \<leftarrow> filter (of_type c) specs. event_value E ev (snd q))" by (rule rates_sum[OF assms(1)])
  finally show ?thesis .
qed

text \<open>What a host publishes: under its name in the rate map a tag map that holds the tuples of \<open>V\<close>, in nodes
  not older than \<open>n\<close>; and what makes \<open>V\<close> the sum of its rates.\<close>

definition published :: "env \<Rightarrow> heap \<Rightarrow> jval \<Rightarrow> string \<Rightarrow> jval \<Rightarrow> nat \<Rightarrow> (string \<Rightarrow> (string \<times> jval) list option) \<Rightarrow> bool" where
  "published E g rm name ntime n V \<longleftrightarrow> (\<exists>tm A. object_get_ex g rm name = Some tm \<and> holds_tags E g tm ntime V A \<and>
    (\<forall>v \<in> insert tm A. \<exists>a. v = JRef a \<and> n \<le> a))"

definition adds_up :: "env \<Rightarrow> double \<Rightarrow> heap \<Rightarrow> jval list \<Rightarrow> jval list \<Rightarrow> string \<Rightarrow> (string \<Rightarrow> (string \<times> jval) list option) \<Rightarrow> bool" where
  "adds_up E idt h odes ndes c V \<longleftrightarrow> (fl E = (\<lambda>x. x) \<longrightarrow> c \<in> {''mds'', ''oss''} \<longrightarrow>
    (\<forall>ev. ev \<notin> {''load'', ''nclients''} \<longrightarrow> total (event_value E ev) V = rates_total E idt h odes ndes c ev))"

text \<open>A report that can be processed.\<close>

definition report_ready :: "heap \<Rightarrow> (string \<times> jval) list \<Rightarrow> jval \<Rightarrow> jval \<Rightarrow> jval \<Rightarrow> jval list \<Rightarrow> jval list \<Rightarrow> bool" where
  "report_ready h tkvs ntime nda oda odes ndes \<longleftrightarrow> node_of h nda = Some (Arr ndes) \<and> node_of h oda = Some (Arr odes) \<and>
    report_entries_ok h ndes \<and> report_entries_ok h odes \<and> scalar_tags h tkvs ndes \<and> scalar ntime \<and>
    ''stats'' \<notin> fst ` set tkvs"

definition no_time_text :: "env \<Rightarrow> (string \<times> jval) list \<Rightarrow> bool" where
  "no_time_text E tkvs \<longleftrightarrow> (\<forall>get. group_text E tkvs get \<noteq> ''time'')"

lemma not_fresh: "fresh_from h v \<Longrightarrow> node_of h v = None"
  by (auto simp: fresh_from_def node_of_def)

text \<open>What the tick may change in the entry of a host: the report becomes the old one, and there are new rates.\<close>

definition entry_moved :: "heap \<Rightarrow> jval \<Rightarrow> heap \<Rightarrow> bool" where
  "entry_moved h e g \<longleftrightarrow> (\<forall>k. k \<notin> {''rates'', ''otime'', ''odata''} \<longrightarrow> object_get_ex g e k = object_get_ex h e k) \<and>
    object_get_ex g e ''otime'' \<in> {object_get_ex h e ''otime'', object_get_ex h e ''time''} \<and>
    object_get_ex g e ''odata'' \<in> {object_get_ex h e ''odata'', object_get_ex h e ''data''}"

lemma entry_moved_same: "object_get_ex g e = object_get_ex h e \<Longrightarrow> entry_moved h e g"
  by (simp add: entry_moved_def)

lemma entry_moved_cong: "object_get_ex h e = object_get_ex h0 e \<Longrightarrow> object_get_ex g e = object_get_ex g0 e \<Longrightarrow>
    entry_moved h e g = entry_moved h0 e g0"
  by (simp add: entry_moved_def)

lemma report_of_new:
  assumes "report_of E h e = New ntime nda oda idt"
  shows "object_get_ex h e ''time'' = Some ntime" "object_get_ex h e ''data'' = Some nda" "object_get_ex h e ''odata'' = Some oda"
  using assms by (auto simp: report_of_def Let_def split: option.splits if_splits)

lemma report_of_first:
  "report_of E h e = First ntime nda \<Longrightarrow> object_get_ex h e ''time'' = Some ntime \<and> object_get_ex h e ''data'' = Some nda"
  "report_of E h e = NoOld nda \<Longrightarrow> object_get_ex h e ''data'' = Some nda"
  by (auto simp: report_of_def Let_def split: option.splits if_splits)

text \<open>The rates of a host, ready for the aggregation.\<close>

lemma store_rates_ready:
  assumes e: "node_of h e = Some (Obj ekvs)" and tuple: "node_of h tuple = Some (Obj tkvs)" "e \<noteq> tuple"
    and r: "report_ready h tkvs ntime nda oda odes ndes" and c: "class_text h e c"
  shows "ok (store_rates E ntime nda oda idt e h) (\<lambda>h5. \<exists>arr drs. agg_ready h5 e tuple tkvs arr (map fst drs) \<and>
    rates_at h5 drs (report_specs E idt h odes ndes) \<and> class_text h5 e c \<and>
    (\<forall>v \<in> stats_of h5 (map fst drs). fresh_from h v) \<and> keeps {e} h h5 \<and>
    node_of h5 e = Some (Obj (AList.update ''odata'' nda (AList.update ''otime'' ntime (AList.update ''rates'' arr ekvs)))))"
proof -
  let ?arr = "JRef (length h)" and ?specs = "report_specs E idt h odes ndes"
  have n: "node_of h nda = Some (Arr ndes)" "node_of h oda = Some (Arr odes)" "report_entries_ok h ndes"
      "report_entries_ok h odes" "scalar_tags h tkvs ndes" "''stats'' \<notin> fst ` set tkvs"
    using r by (simp_all add: report_ready_def)
  obtain h5 drs where h5: "store_rates E ntime nda oda idt e h = Some h5"
    "node_of h5 e = Some (Obj (AList.update ''odata'' nda (AList.update ''otime'' ntime (AList.update ''rates'' ?arr ekvs))))"
    "node_of h5 ?arr = Some (Arr (map fst drs))" "rates_at h5 drs ?specs"
    "\<forall>(d, r) \<in> set drs. fresh_from h d \<and> fresh_from h r" "keeps {e} h h5"
    using store_rates_spec[OF e n(1-4), of E ntime idt] by (auto elim!: okE)
  have fresh: "fresh_from h v" if "v \<in> set (map fst drs) \<union> set (map snd drs)" for v using that h5(5) by auto
  have sp: "specs_ok tkvs ?specs" by (rule report_specs_ok[OF n(3,5)])
  have get: "object_get_ex h5 e k = object_get_ex h e k" if "k \<notin> {''rates'', ''otime'', ''odata''}" for k
    using that h5(2) e by simp
  have "object_get_ex h5 e ''rates'' = Some ?arr" using h5(2) by simp
  moreover have "node_of h5 tuple = Some (Obj tkvs)" using keeps_node[OF h5(6) tuple(1)] tuple(2) by simp
  moreover have "{e, tuple} \<inter> (set (map fst drs) \<union> set (map snd drs)) = {}"
    using fresh not_fresh e tuple(1) by fastforce
  ultimately have "agg_ready h5 e tuple tkvs ?arr (map fst drs)"
    using h5(3) by (intro agg_ready_rates[OF h5(4) sp n(6)])
  moreover have "class_text h5 e c" using c get by (simp add: class_text_def)
  moreover have "stats_of h5 (map fst drs) = set (map snd drs)" by (rule rates_agg(2)[OF h5(4) sp n(6)])
  ultimately show ?thesis using h5(1,2,4,6) fresh by (auto intro!: exI[of _ ?arr] exI[of _ drs])
qed

text \<open>One host with a new report.\<close>

lemma group_host_publishes:
  assumes e: "report_of E h e = New ntime nda oda idt"
    and r: "report_ready h tkvs ntime nda oda odes ndes" and c: "class_text h e c"
    and tuple: "node_of h tuple = Some (Obj tkvs)" "e \<noteq> tuple"
    and rm: "node_of h rm = Some (Obj rkvs)" "rm \<noteq> e" and texts: "no_time_text E tkvs"
  shows "ok (group_host E tuple rm (name, e) h) (\<lambda>g. (\<exists>V. published E g rm name ntime (length h) V \<and>
    adds_up E idt h odes ndes c V) \<and> (\<forall>k. k \<noteq> name \<longrightarrow> object_get_ex g rm k = object_get_ex h rm k) \<and> keeps {e, rm} h g \<and> entry_moved h e g)"
proof -
  have "object_get_ex h e ''time'' \<noteq> None" using report_of_new[OF e] by simp
  then obtain ekvs where en: "node_of h e = Some (Obj ekvs)" using object_get_ex_SomeD by blast
  obtain h5 arr drs where h5: "store_rates E ntime nda oda idt e h = Some h5" "agg_ready h5 e tuple tkvs arr (map fst drs)"
    "rates_at h5 drs (report_specs E idt h odes ndes)" "class_text h5 e c"
    "\<forall>v \<in> stats_of h5 (map fst drs). fresh_from h v" "keeps {e} h h5"
    "node_of h5 e = Some (Obj (AList.update ''odata'' nda (AList.update ''otime'' ntime (AList.update ''rates'' arr ekvs))))"
    using store_rates_ready[OF en tuple r c, of E idt] by (auto elim!: okE)
  let ?V = "class_view E tkvs c h5 (map fst drs)" and ?A = "stats_of h5 (map fst drs)" and ?tm = "JRef (length h5)"
  have nt: "scalar ntime" "\<And>get. group_text E tkvs get \<noteq> ''time''"
    using r texts by (simp_all add: report_ready_def no_time_text_def)
  obtain g6 where g6: "server_tag_map E tuple e ntime h5 = Some (?tm, g6)"
    "holds_tags E g6 ?tm ntime ?V ?A" "keeps ?A h5 g6"
    using server_tag_map_spec[OF h5(2,4) nt] by (auto elim!: okE)
  have fresh: "\<forall>v \<in> insert ?tm ?A. \<exists>a. v = JRef a \<and> length h \<le> a"
    using h5(5) keeps_length[OF h5(6)] by (auto simp: fresh_from_def)
  have out: "v \<notin> insert ?tm ?A" if "node_of h v \<noteq> None" for v
  proof
    assume "v \<in> insert ?tm ?A"
    then have "fresh_from h v" using fresh unfolding fresh_from_def by (rule bspec[rotated])
    from not_fresh[OF this] that show False by simp
  qed
  have rm6: "node_of g6 rm = Some (Obj rkvs)"
    using rm out[of rm] by (intro keeps_node[OF g6(3) keeps_node[OF h5(6) rm(1)]]) auto
  let ?g = "store rm (Obj (AList.update name ?tm rkvs)) g6"
  have run: "group_host E tuple rm (name, e) h = Some ?g"
    using h5(1) g6(1) rm6 by (simp add: group_host_new[OF e])
  have "keeps (insert e ?A) h h5" "keeps (insert e ?A) h5 g6"
    by (rule keeps_mono[OF h5(6)], simp) (rule keeps_mono[OF g6(3)], blast)
  then have "keeps (insert e ?A) h g6" by (rule keeps_trans)
  then have "keeps {e} h g6" by (rule keeps_fresh) (use h5(5) not_fresh in auto)
  then have "keeps {e, rm} h g6" by (rule keeps_mono) simp
  then have fr: "keeps {e, rm} h ?g" by (rule keeps_trans) (rule keeps_store_obj[OF rm6], simp)
  have "node_of g6 e = Some (Obj (AList.update ''odata'' nda (AList.update ''otime'' ntime (AList.update ''rates'' arr ekvs))))"
    using en out[of e] by (intro keeps_node[OF g6(3) h5(7)]) auto
  then have moved: "entry_moved h e ?g"
    using en rm(2) report_of_new[OF e] by (auto simp: entry_moved_def)
  have "holds_tags E ?g ?tm ntime ?V ?A"
    by (rule holds_tags_keeps[OF g6(2) keeps_store_obj[OF rm6, of "{rm}"]]) (use rm(1) out[of rm] in auto)
  then have "published E ?g rm name ntime (length h) ?V"
    unfolding published_def using rm6 fresh by (intro exI[of _ ?tm] exI[of _ ?A]) simp
  moreover have "adds_up E idt h odes ndes c ?V"
    unfolding adds_up_def rates_total_def
    using class_view_total[OF h5(3) report_specs_ok] r by (auto simp: report_ready_def)
  ultimately show ?thesis unfolding run using fr rm(1) rm6 moved by auto
qed

section \<open>All hosts\<close>

text \<open>The entries of a report and their statistics are not among the nodes the loop writes.\<close>

definition apart :: "heap \<Rightarrow> jval set \<Rightarrow> jval list \<Rightarrow> bool" where
  "apart h W vs \<longleftrightarrow> (\<forall>v \<in> set vs. v \<notin> W \<and> (\<forall>st. object_get_ex h v ''stats'' = Some st \<longrightarrow> st \<notin> W))"

definition host_ready :: "env \<Rightarrow> heap \<Rightarrow> (string \<times> jval) list \<Rightarrow> jval set \<Rightarrow> jval \<Rightarrow> bool" where
  "host_ready E h tkvs W e \<longleftrightarrow> (\<forall>ntime nda oda idt. report_of E h e = New ntime nda oda idt \<longrightarrow>
    (\<exists>odes ndes c. report_ready h tkvs ntime nda oda odes ndes \<and> class_text h e c \<and> apart h W odes \<and> apart h W ndes))"

text \<open>What the loop makes of a host of the store \<open>h\<close>.\<close>

definition host_post :: "env \<Rightarrow> heap \<Rightarrow> jval \<Rightarrow> string \<times> jval \<Rightarrow> heap \<Rightarrow> bool" where
  "host_post E h rm = (\<lambda>(name, e) g. case report_of E h e of
     New ntime nda oda idt \<Rightarrow> (\<forall>odes ndes c. node_of h nda = Some (Arr ndes) \<longrightarrow> node_of h oda = Some (Arr odes) \<longrightarrow>
       class_text h e c \<longrightarrow> (\<exists>V. published E g rm name ntime (length h) V \<and> adds_up E idt h odes ndes c V))
   | _ \<Rightarrow> object_get_ex g rm name = object_get_ex h rm name)"

lemma published_mono: "published E g rm name ntime n V \<Longrightarrow> m \<le> n \<Longrightarrow> published E g rm name ntime m V"
  unfolding published_def by (meson le_trans)

lemma published_keeps:
  assumes "published E g rm name ntime n V" "keeps S g k" "object_get_ex k rm name = object_get_ex g rm name"
    and "\<And>v. v \<in> S \<Longrightarrow> \<exists>a < n. v = JRef a"
  shows "published E k rm name ntime n V"
proof -
  obtain tm A where t: "object_get_ex g rm name = Some tm" "holds_tags E g tm ntime V A"
    "\<forall>v \<in> insert tm A. \<exists>a. v = JRef a \<and> n \<le> a"
    using assms(1) unfolding published_def by blast
  have "S \<inter> ({tm} \<union> A) = {}" using t(3) assms(4) by fastforce
  from holds_tags_keeps[OF t(2) assms(2) this] show ?thesis using t(1,3) assms(3) unfolding published_def by metis
qed

lemma same_report_of: "object_get_ex h' e = object_get_ex h e \<Longrightarrow> report_of E h' e = report_of E h e"
  by (simp only: report_of_def)

lemma report_ready_keeps:
  assumes r: "report_ready h tkvs ntime nda oda odes ndes" and k: "keeps W h h'" "\<forall>w \<in> W. is_obj h w"
    and a: "apart h W odes" "apart h W ndes"
  shows "report_ready h' tkvs ntime nda oda odes ndes" "report_specs E idt h' odes ndes = report_specs E idt h odes ndes"
proof -
  have n: "node_of h nda = Some (Arr ndes)" "node_of h oda = Some (Arr odes)" "report_entries_ok h ndes"
      "report_entries_ok h odes" "scalar_tags h tkvs ndes"
    using r by (simp_all add: report_ready_def)
  have "nda \<notin> W" "oda \<notin> W" using n(1,2) k(2) by (auto simp: is_obj_def)
  then have arrs: "node_of h' nda = Some (Arr ndes)" "node_of h' oda = Some (Arr odes)"
    using keeps_node[OF k(1)] n(1,2) by blast+
  have same: "same_report h h' ndes" "same_report h h' odes"
    by (rule keeps_same_report[OF k(1) n(3)], use a in \<open>simp add: apart_def\<close>)
      (rule keeps_same_report[OF k(1) n(4)], use a in \<open>simp add: apart_def\<close>)
  have "scalar_tags h' tkvs ndes" using n(5) same_report_get[OF same(1)] by (simp add: scalar_tags_def)
  then show "report_ready h' tkvs ntime nda oda odes ndes"
    using r arrs same_report_entries[OF same(1) n(3)] same_report_entries[OF same(2) n(4)] by (simp add: report_ready_def)
  show "report_specs E idt h' odes ndes = report_specs E idt h odes ndes"
    unfolding report_specs_def by (rule same_report_specs[OF same])
qed

text \<open>The nodes of the tick: the rate map and the entries of the hosts, which are all it writes.\<close>

definition tick_nodes :: "heap \<Rightarrow> jval \<Rightarrow> (string \<times> jval) list \<Rightarrow> jval set" where
  "tick_nodes h rm hosts = insert rm (snd ` set hosts)"

definition tick_ready :: "env \<Rightarrow> heap \<Rightarrow> jval \<Rightarrow> (string \<times> jval) list \<Rightarrow> jval \<Rightarrow> (string \<times> jval) list \<Rightarrow> bool" where
  "tick_ready E h tuple tkvs rm hosts \<longleftrightarrow> node_of h tuple = Some (Obj tkvs) \<and> no_time_text E tkvs \<and>
    distinct (map fst hosts) \<and> distinct (rm # map snd hosts) \<and> tuple \<notin> tick_nodes h rm hosts \<and>
    (\<forall>w \<in> tick_nodes h rm hosts. is_obj h w) \<and> (\<forall>e \<in> snd ` set hosts. host_ready E h tkvs (tick_nodes h rm hosts) e)"

lemma host_step:
  assumes r: "tick_ready E h0 tuple tkvs rm hosts" and p: "(name, e) \<in> set hosts"
    and k: "keeps S h0 h" "S \<subseteq> tick_nodes h0 rm hosts" "e \<notin> S"
    and rmn: "object_get_ex h rm name = object_get_ex h0 rm name"
  shows "ok (group_host E tuple rm (name, e) h) (\<lambda>g. host_post E h0 rm (name, e) g \<and>
    (\<forall>k. k \<noteq> name \<longrightarrow> object_get_ex g rm k = object_get_ex h rm k) \<and> keeps {e, rm} h g \<and> entry_moved h e g)"
proof -
  let ?W = "tick_nodes h0 rm hosts"
  have W: "e \<in> ?W" "rm \<in> ?W" using p by (auto simp: tick_nodes_def intro: rev_image_eqI)
  have kW: "keeps ?W h0 h" by (rule keeps_mono[OF k(1,2)])
  have objs: "\<forall>w \<in> ?W. is_obj h0 w" using r by (simp add: tick_ready_def)
  have es: "e \<in> snd ` set hosts" using p by (rule image_eqI[rotated]) simp
  have "rm \<notin> snd ` set hosts" "tuple \<notin> ?W" using r by (simp_all add: tick_ready_def)
  then have ne: "rm \<noteq> e" "e \<noteq> tuple" using es W(1) by blast+
  have "tuple \<notin> S" "node_of h0 tuple = Some (Obj tkvs)" using r k(2) by (auto simp: tick_ready_def)
  then have tuple: "node_of h tuple = Some (Obj tkvs)" by (intro keeps_node[OF k(1)])
  obtain ekvs where "node_of h0 e = Some (Obj ekvs)" using objs W(1) by (auto simp: is_obj_def)
  then have en: "node_of h e = Some (Obj ekvs)" "object_get_ex h e = object_get_ex h0 e"
    using keeps_node[OF k(1) _ k(3)] by (auto intro!: same_node_get)
  have "is_obj h rm" using is_obj_keeps_arr[OF kW] objs W(2) by blast
  then obtain rkvs where rm: "node_of h rm = Some (Obj rkvs)" by (auto simp: is_obj_def)
  note rep = same_report_of[OF en(2), of E]
  have waits: "ok (group_host E tuple rm (name, e) h) (\<lambda>g. host_post E h0 rm (name, e) g \<and>
    (\<forall>k. k \<noteq> name \<longrightarrow> object_get_ex g rm k = object_get_ex h rm k) \<and> keeps {e, rm} h g \<and> entry_moved h e g)"
    if old: "\<forall>ntime nda oda idt. report_of E h0 e \<noteq> New ntime nda oda idt"
  proof -
    have old': "\<forall>ntime nda oda idt. report_of E h e \<noteq> New ntime nda oda idt" using old rep by simp
    have "ok (group_host E tuple rm (name, e) h) (\<lambda>g. object_get_ex g rm = object_get_ex h rm \<and> keeps {e, rm} h g \<and> entry_moved h e g)"
      using en(1) ne(1) old' report_of_first[of E h e]
      by (cases "report_of E h e")
        (auto simp: group_host_def object_get_ex_def obj_of_def fun_eq_iff entry_moved_def intro!: keeps_store_obj)
    then show ?thesis
    proof (rule ok_mono)
      fix g
      assume "object_get_ex g rm = object_get_ex h rm \<and> keeps {e, rm} h g \<and> entry_moved h e g"
      then show "host_post E h0 rm (name, e) g \<and>
          (\<forall>k. k \<noteq> name \<longrightarrow> object_get_ex g rm k = object_get_ex h rm k) \<and> keeps {e, rm} h g \<and> entry_moved h e g"
        using old rmn by (auto simp: host_post_def split: report.split)
    qed
  qed
  have news: "ok (group_host E tuple rm (name, e) h) (\<lambda>g. host_post E h0 rm (name, e) g \<and>
    (\<forall>k. k \<noteq> name \<longrightarrow> object_get_ex g rm k = object_get_ex h rm k) \<and> keeps {e, rm} h g \<and> entry_moved h e g)"
    if new: "report_of E h0 e = New ntime nda oda idt" for ntime nda oda idt
  proof -
    have "host_ready E h0 tkvs ?W e" using r p by (auto simp: tick_ready_def)
    then obtain odes ndes c where d: "report_ready h0 tkvs ntime nda oda odes ndes" "class_text h0 e c"
      "apart h0 ?W odes" "apart h0 ?W ndes"
      using new unfolding host_ready_def by blast
    note d' = report_ready_keeps[OF d(1) kW objs d(3,4)]
    have c: "class_text h e c" using d(2) en(2) by (simp add: class_text_def)
    have new': "report_of E h e = New ntime nda oda idt" using rep new by simp
    have texts: "no_time_text E tkvs" using r by (simp add: tick_ready_def)
    show ?thesis
    proof (rule ok_mono[OF group_host_publishes[OF new' d'(1) c tuple ne(2) rm ne(1) texts]])
      fix g
      assume g: "(\<exists>V. published E g rm name ntime (length h) V \<and> adds_up E idt h odes ndes c V) \<and>
        (\<forall>k. k \<noteq> name \<longrightarrow> object_get_ex g rm k = object_get_ex h rm k) \<and> keeps {e, rm} h g \<and> entry_moved h e g"
      then obtain V where V: "published E g rm name ntime (length h) V" "adds_up E idt h odes ndes c V" by blast
      have V0: "published E g rm name ntime (length h0) V" by (rule published_mono[OF V(1) keeps_length[OF k(1)]])
      have A0: "adds_up E idt h0 odes ndes c V" using V(2) d'(2) by (simp add: adds_up_def rates_total_def)
      have "host_post E h0 rm (name, e) g"
        using V0 A0 new d(1,2) by (auto simp: host_post_def report_ready_def class_text_def)
      then show "host_post E h0 rm (name, e) g \<and>
          (\<forall>k. k \<noteq> name \<longrightarrow> object_get_ex g rm k = object_get_ex h rm k) \<and> keeps {e, rm} h g \<and> entry_moved h e g"
        using g by blast
    qed
  qed
  show ?thesis using waits news by blast
qed

text \<open>The hosts already processed keep what they have published.\<close>

lemma host_post_keeps:
  assumes "host_post E h0 rm p g" "keeps S g k" "object_get_ex k rm (fst p) = object_get_ex g rm (fst p)"
    and "\<forall>w \<in> S. is_obj h0 w"
  shows "host_post E h0 rm p k"
proof -
  have old: "\<exists>a < length h0. v = JRef a" if "v \<in> S" for v using assms(4) that by (auto simp: is_obj_def dest!: node_of_ref)
  show ?thesis
    using assms(1,3) published_keeps[OF _ assms(2) _ old, of E rm "fst p"]
    by (cases p) (fastforce simp: host_post_def split: report.splits)
qed

lemma tick_loop:
  assumes r: "tick_ready E h0 tuple tkvs rm hosts"
  shows "ok (foldM (group_host E tuple rm) hosts h0) (\<lambda>g. (\<forall>p \<in> set hosts. host_post E h0 rm p g) \<and>
    (\<forall>p \<in> set hosts. entry_moved h0 (snd p) g) \<and> keeps (tick_nodes h0 rm hosts) h0 g)"
proof -
  let ?I = "\<lambda>ys g. (\<forall>p \<in> set ys. host_post E h0 rm p g) \<and> (\<forall>p \<in> set ys. entry_moved h0 (snd p) g) \<and>
    (\<forall>k. k \<notin> fst ` set ys \<longrightarrow> object_get_ex g rm k = object_get_ex h0 rm k) \<and> keeps (tick_nodes h0 rm ys) h0 g"
  have objs: "\<forall>w \<in> tick_nodes h0 rm hosts. is_obj h0 w" using r by (simp add: tick_ready_def)
  have "ok (foldM (group_host E tuple rm) hosts h0) (?I hosts)"
  proof (rule ok_foldM)
    show "?I [] h0" by simp
  next
    fix ys x zs g
    assume hosts: "hosts = ys @ x # zs" and I: "?I ys g"
    obtain name e where x: "x = (name, e)" by (cases x)
    have d: "name \<notin> fst ` set ys" "e \<notin> insert rm (snd ` set ys)" using r unfolding hosts x tick_ready_def by auto
    have "ok (group_host E tuple rm (name, e) g) (\<lambda>k. host_post E h0 rm (name, e) k \<and>
        (\<forall>j. j \<noteq> name \<longrightarrow> object_get_ex k rm j = object_get_ex g rm j) \<and> keeps {e, rm} g k \<and> entry_moved g e k)"
    proof (rule host_step[OF r])
      show "(name, e) \<in> set hosts" by (simp add: hosts x)
      show "keeps (tick_nodes h0 rm ys) h0 g" using I by blast
      show "tick_nodes h0 rm ys \<subseteq> tick_nodes h0 rm hosts" by (auto simp: tick_nodes_def hosts)
      show "e \<notin> tick_nodes h0 rm ys" using d(2) by (simp add: tick_nodes_def)
      show "object_get_ex g rm name = object_get_ex h0 rm name" using I d(1) by blast
    qed
    then show "ok (group_host E tuple rm x g) (?I (ys @ [x]))"
      unfolding x
    proof (rule ok_mono)
      fix k
      assume k: "host_post E h0 rm (name, e) k \<and>
        (\<forall>j. j \<noteq> name \<longrightarrow> object_get_ex k rm j = object_get_ex g rm j) \<and> keeps {e, rm} g k \<and> entry_moved g e k"
      have new: "\<forall>w \<in> {e, rm}. is_obj h0 w" using objs by (auto simp: tick_nodes_def hosts x)
      have past: "host_post E h0 rm p k" if "p \<in> set ys" for p
      proof (rule host_post_keeps[OF _ _ _ new])
        show "host_post E h0 rm p g" using I that by blast
        show "keeps {e, rm} g k" using k by blast
        have "fst p \<noteq> name" using d(1) that by (metis image_eqI)
        then show "object_get_ex k rm (fst p) = object_get_ex g rm (fst p)" using k by blast
      qed
      have kg: "keeps (tick_nodes h0 rm ys) h0 g" "keeps {e, rm} g k" using I k by blast+
      have "node_of h0 e \<noteq> None" using new by (auto simp: is_obj_def)
      then have "object_get_ex g e = object_get_ex h0 e"
        using keeps_get_ex[OF kg(1)] d(2) by (simp add: tick_nodes_def fun_eq_iff)
      then have here: "entry_moved h0 e k" using k entry_moved_cong[of h0 e g k k] by simp
      have moved: "entry_moved h0 (snd p) k" if "p \<in> set ys" for p
      proof -
        have "snd p \<in> snd ` set ys" using that by (rule imageI)
        moreover have "is_obj h0 (snd p)" using objs that by (auto simp: tick_nodes_def hosts)
        moreover have "snd p \<noteq> rm" using r that by (auto simp: tick_ready_def hosts)
        ultimately have "node_of g (snd p) \<noteq> None" "snd p \<notin> {e, rm}"
          using is_obj_keeps_arr[OF kg(1)] d(2) by (auto simp: is_obj_def)
        then have "object_get_ex k (snd p) = object_get_ex g (snd p)" using keeps_get_ex[OF kg(2)] by (simp add: fun_eq_iff)
        then show ?thesis using I that entry_moved_cong[of h0 "snd p" h0 k g] by blast
      qed
      have g0: "keeps (tick_nodes h0 rm (ys @ [(name, e)])) h0 g"
        by (rule keeps_mono[of "tick_nodes h0 rm ys"]) (use I in \<open>auto simp: tick_nodes_def\<close>)
      have gk: "keeps (tick_nodes h0 rm (ys @ [(name, e)])) g k"
        by (rule keeps_mono[of "{e, rm}"]) (use k in \<open>simp_all add: tick_nodes_def\<close>)
      have "object_get_ex k rm j = object_get_ex h0 rm j" if "j \<notin> fst ` set (ys @ [(name, e)])" for j
        using k I that by simp
      moreover have "\<forall>p \<in> set (ys @ [(name, e)]). host_post E h0 rm p k" using past k by simp
      moreover have "\<forall>p \<in> set (ys @ [(name, e)]). entry_moved h0 (snd p) k" using moved here by simp
      ultimately show "?I (ys @ [(name, e)]) k" using keeps_trans[OF g0 gk] by blast
    qed
  qed
  then show ?thesis by (rule ok_mono) blast
qed

section \<open>Properties\<close>

text \<open>What the tick owes to a host: when its report of the store \<open>h\<close> is new, a tag map with the time of the report
  under its name, whose tuples sum up to the rates of the entries of the class of the server; the
  tag map it had before otherwise.\<close>

definition tick_result :: "env \<Rightarrow> heap \<Rightarrow> jval \<Rightarrow> string \<times> jval \<Rightarrow> heap \<Rightarrow> bool" where
  "tick_result E h rm = (\<lambda>(name, e) g. case report_of E h e of
     New ntime nda oda idt \<Rightarrow> (\<exists>tm odes ndes c. object_get_ex g rm name = Some tm \<and>
       object_get_ex g tm ''time'' = Some ntime \<and>
       node_of h nda = Some (Arr ndes) \<and> node_of h oda = Some (Arr odes) \<and> class_text h e c \<and>
       (fl E = (\<lambda>x. x) \<longrightarrow> c \<in> {''mds'', ''oss''} \<longrightarrow> (\<forall>ev. ev \<notin> {''load'', ''nclients''} \<longrightarrow>
         total (event_value E ev) (view g tm) = rates_total E idt h odes ndes c ev)))
   | _ \<Rightarrow> object_get_ex g rm name = object_get_ex h rm name)"

lemma host_post_result:
  assumes "host_post E h rm (name, e) g" "host_ready E h tkvs W e"
  shows "tick_result E h rm (name, e) g"
proof (cases "report_of E h e")
  case (New ntime nda oda idt)
  then obtain odes ndes c where d: "report_ready h tkvs ntime nda oda odes ndes" "class_text h e c"
    using assms(2) unfolding host_ready_def by blast
  then have n: "node_of h nda = Some (Arr ndes)" "node_of h oda = Some (Arr odes)" by (simp_all add: report_ready_def)
  then obtain V where V: "published E g rm name ntime (length h) V" "adds_up E idt h odes ndes c V"
    using assms(1) New d(2) by (auto simp: host_post_def)
  then obtain tm A where t: "object_get_ex g rm name = Some tm" "holds_tags E g tm ntime V A"
    unfolding published_def by blast
  have "total (event_value E ev) (view g tm) = rates_total E idt h odes ndes c ev"
    if "fl E = (\<lambda>x. x)" "c \<in> {''mds'', ''oss''}" "ev \<notin> {''load'', ''nclients''}" for ev
    using holds_tags_total[OF t(2), of ev] V(2) that unfolding adds_up_def by auto
  moreover have "object_get_ex g tm ''time'' = Some ntime" using t(2) by (simp add: holds_tags_def)
  ultimately show ?thesis using New t(1) n d(2) unfolding tick_result_def by (simp only: prod.case report.case) blast
qed (use assms(1) in \<open>simp_all add: host_post_def tick_result_def\<close>)


text \<open>An object server with one client that read 50 more bytes in 10 seconds.\<close>

definition sample_tick :: stats where
  "sample_tick = \<lparr>hp = [Obj [(''oss1'', JRef 3)], Obj [], Obj [],
      Obj [(''time'', JInt 110), (''data'', JRef 4), (''otime'', JInt 100), (''odata'', JRef 5), (''obdclass'', JString ''oss'')],
      Arr [JRef 6], Arr [JRef 8],
      Obj [(''stats_type'', JString ''oss''), (''client_nid'', JString ''c1''), (''target'', JString ''t''), (''stats'', JRef 7)],
      Obj [(''read'', JInt 70)],
      Obj [(''stats_type'', JString ''oss''), (''client_nid'', JString ''c1''), (''target'', JString ''t''), (''stats'', JRef 9)],
      Obj [(''read'', JInt 20)]],
    host_map = JRef 0, nid_map = JRef 1, server_tag_rate_map = JRef 2, group_tags = JNull, screen_map = JNull\<rparr>"

definition sample_store :: heap where
  "sample_store = push (Obj [(''uid'', JString '''')]) (hp sample_tick)"

lemma sample_store_nodes:
  "node_of sample_store (JRef 0) = Some (Obj [(''oss1'', JRef 3)])"
  "node_of sample_store (JRef 2) = Some (Obj [])"
  "node_of sample_store (JRef 3) = Some (Obj [(''time'', JInt 110), (''data'', JRef 4), (''otime'', JInt 100),
     (''odata'', JRef 5), (''obdclass'', JString ''oss'')])"
  "node_of sample_store (JRef 4) = Some (Arr [JRef 6])"
  "node_of sample_store (JRef 5) = Some (Arr [JRef 8])"
  "node_of sample_store (JRef 6) = Some (Obj [(''stats_type'', JString ''oss''), (''client_nid'', JString ''c1''),
     (''target'', JString ''t''), (''stats'', JRef 7)])"
  "node_of sample_store (JRef 7) = Some (Obj [(''read'', JInt 70)])"
  "node_of sample_store (JRef 8) = Some (Obj [(''stats_type'', JString ''oss''), (''client_nid'', JString ''c1''),
     (''target'', JString ''t''), (''stats'', JRef 9)])"
  "node_of sample_store (JRef 9) = Some (Obj [(''read'', JInt 20)])"
  "node_of sample_store (JRef 10) = Some (Obj [(''uid'', JString '''')])"
  "length sample_store = 11"
  by (simp_all add: sample_store_def sample_tick_def node_of_def push_def)

lemma sample_store_get:
  "object_get_ex sample_store (JRef 3) = map_of [(''time'', JInt 110), (''data'', JRef 4), (''otime'', JInt 100),
     (''odata'', JRef 5), (''obdclass'', JString ''oss'')]"
  "object_get_ex sample_store (JRef 6) = map_of [(''stats_type'', JString ''oss''), (''client_nid'', JString ''c1''),
     (''target'', JString ''t''), (''stats'', JRef 7)]"
  "object_get_ex sample_store (JRef 8) = map_of [(''stats_type'', JString ''oss''), (''client_nid'', JString ''c1''),
     (''target'', JString ''t''), (''stats'', JRef 9)]"
  "object_get_ex sample_store (JRef 9) = map_of [(''read'', JInt 20)]"
  by (rule ext, rule object_get_ex_obj, rule sample_store_nodes)+

lemma sample_report_new:
  "report_of plain_env sample_store (JRef 3) = New (JInt 110) (JRef 4) (JRef 5) (1 / 10)"
  by (simp add: report_of_def sample_store_get Let_def plain_env_def get_double_def)

lemma sample_rate: "rates_total plain_env (1 / 10) sample_store [JRef 8] [JRef 6] ''oss'' ''read'' = 5"
proof -
  have key: "entry_key sample_store (JRef 6) = Some (stat_key ''c1'' ''t'' ''oss'')"
    "entry_key sample_store (JRef 8) = Some (stat_key ''c1'' ''t'' ''oss'')"
    by (simp_all add: entry_key_def sample_store_get)
  have "old_map sample_store [JRef 8] = [(stat_key ''c1'' ''t'' ''oss'', JRef 9)]"
    by (simp add: old_map_def old_step_def key sample_store_get)
  then have "report_specs plain_env (1 / 10) sample_store [JRef 8] [JRef 6] =
      [(rate_tags sample_store (JRef 6), [(''read'', JDouble 5)])]"
    by (simp add: report_specs_def List.map_filter_def rate_spec_def key sample_store_get sample_store_nodes
      event_rates_def event_rate_def get_int64_def plain_env_def)
  moreover have "map_of (rate_tags sample_store (JRef 6)) ''stats_type'' = object_get_ex sample_store (JRef 6) ''stats_type''"
    by (rule map_of_rate_tags) (simp_all add: sample_store_get)
  ultimately show ?thesis
    by (simp add: rates_total_def of_type_def sample_store_get event_value_def get_double_def)
qed

lemma sample_tick_ready:
  "tick_ready plain_env sample_store (JRef 10) [(''uid'', JString '''')] (JRef 2) [(''oss1'', JRef 3)]"
proof -
  have "report_ready sample_store [(''uid'', JString '''')] (JInt 110) (JRef 4) (JRef 5) [JRef 8] [JRef 6]"
    by (simp add: report_ready_def sample_store_nodes report_entries_ok_def stat_entry_ok_def sample_store_get
      scalar_tags_def scalar_def settled_def is_obj_def)
  moreover have "class_text sample_store (JRef 3) ''oss''" by (simp add: class_text_def sample_store_get)
  moreover have "apart sample_store {JRef 2, JRef 3} [JRef 8]" "apart sample_store {JRef 2, JRef 3} [JRef 6]"
    by (simp_all add: apart_def sample_store_get)
  ultimately have "host_ready plain_env sample_store [(''uid'', JString '''')] {JRef 2, JRef 3} (JRef 3)"
    unfolding host_ready_def sample_report_new by blast
  then show ?thesis
    by (simp add: tick_ready_def tick_nodes_def sample_store_nodes is_obj_def no_time_text_def group_text_def plain_env_def)
qed


end
