(* ===== verification/Intake.thy ===== *)
theory Intake
  imports Publish Regions Socket
begin

text \<open>
  The state of the server between two events.  \<open>maps_ok\<close> is the invariant of the whole store: the two host
  maps and the rate map are where they should be, the entries of the hosts have the types the passes
  rely on without checking them, and the reports of different hosts do not share entries.  This
  theory shows that processing an RPC keeps it, as long as the document has the type a report has
  (\<open>report_typed\<close>); the type of a document is a predicate on trees, so it says what a peer may send.
\<close>

section \<open>The invariant\<close>

definition group_keys :: "string list" where
  "group_keys = [''system'', ''fid'', ''server'', ''jid'', ''uid'']"

text \<open>A value that is neither a map nor the entry of a host.\<close>

definition clear :: "stats \<Rightarrow> jval \<Rightarrow> bool" where
  "clear s v \<longleftrightarrow> outside s v \<and> v \<noteq> server_tag_rate_map s"

definition scalars :: "string list \<Rightarrow> (string \<Rightarrow> jval option) \<Rightarrow> bool" where
  "scalars ks get \<longleftrightarrow> (\<forall>k \<in> set ks. \<forall>x. get k = Some x \<longrightarrow> scalar x)"

definition plain_class :: "(string \<Rightarrow> jval option) \<Rightarrow> bool" where
  "plain_class get \<longleftrightarrow> (\<forall>x. get ''obdclass'' = Some x \<longrightarrow> (\<exists>c. x = JString c \<and> CHR ''%'' \<notin> set c \<and> length c < 32))"

text \<open>An entry of a report, and the array of them.\<close>

definition export_at :: "heap \<Rightarrow> jval \<Rightarrow> bool" where
  "export_at h v \<longleftrightarrow> is_obj h v \<and> entry_ok (fields_at h v) \<and> stat_entry_ok h v \<and> scalars group_keys (object_get_ex h v)"

definition exports_at :: "stats \<Rightarrow> jval \<Rightarrow> bool" where
  "exports_at s d \<longleftrightarrow> (\<exists>vs. node_of (hp s) d = Some (Arr vs) \<and> distinct vs \<and>
    (\<forall>v \<in> set vs. export_at (hp s) v \<and> clear s v \<and> (\<forall>st. object_get_ex (hp s) v ''stats'' = Some st \<longrightarrow> clear s st)))"

definition data_field :: "stats \<Rightarrow> (string \<Rightarrow> jval option) \<Rightarrow> bool" where
  "data_field s get \<longleftrightarrow>
    (\<forall>d. get ''data'' = Some d \<longrightarrow> exports_at s d \<and> get ''time'' \<noteq> None \<and> get ''obdclass'' \<noteq> None)"

text \<open>The fields of the entry of a host.\<close>

definition host_ok :: "stats \<Rightarrow> (string \<Rightarrow> jval option) \<Rightarrow> bool" where
  "host_ok s get \<longleftrightarrow> scalars [''time'', ''otime'', ''hid'', ''system'', ''jid'', ''uid''] get \<and> plain_class get \<and>
    data_field s get \<and> (\<forall>d. get ''odata'' = Some d \<longrightarrow> exports_at s d)"

definition maps_ok :: "stats \<Rightarrow> bool" where
  "maps_ok s \<longleftrightarrow> hosts_ok s \<and> is_obj (hp s) (server_tag_rate_map s) \<and> outside s (server_tag_rate_map s) \<and>
    (\<forall>k e. entry_of s k = Some e \<longrightarrow> host_ok s (object_get_ex (hp s) e)) \<and>
    (\<forall>j k e e'. entry_of s j = Some e \<longrightarrow> entry_of s k = Some e' \<longrightarrow> j \<noteq> k \<longrightarrow>
      set (elems (hp s) e) \<inter> set (elems (hp s) e') = {})"

lemma maps_okD:
  assumes "maps_ok s"
  shows "hosts_ok s" "is_obj (hp s) (server_tag_rate_map s)" "outside s (server_tag_rate_map s)"
    and "entry_of s k = Some e \<Longrightarrow> host_ok s (object_get_ex (hp s) e)"
    and "entry_of s j = Some e \<Longrightarrow> entry_of s k = Some e' \<Longrightarrow> j \<noteq> k \<Longrightarrow>
      set (elems (hp s) e) \<inter> set (elems (hp s) e') = {}"
  using assms unfolding maps_ok_def by blast+

text \<open>An update that waits to be processed.\<close>

definition update_ok :: "stats \<Rightarrow> (string \<Rightarrow> jval option) \<Rightarrow> bool" where
  "update_ok s get \<longleftrightarrow> get ''hostname'' \<noteq> Some JNull \<and> get ''nid'' \<noteq> Some JNull \<and>
    scalars [''time'', ''hostname'', ''system'', ''jid'', ''uid''] get \<and> plain_class get \<and> data_field s get"

definition pending :: "stats \<Rightarrow> jval list \<Rightarrow> bool" where
  "pending s ws \<longleftrightarrow> (\<forall>w \<in> set ws. outside s w \<and> settled (hp s) w \<and> update_ok s (object_get_ex (hp s) w) \<and>
      (\<forall>k e. entry_of s k = Some e \<longrightarrow> set (elems (hp s) w) \<inter> set (elems (hp s) e) = {})) \<and>
    sorted_wrt (\<lambda>a b. set (elems (hp s) a) \<inter> set (elems (hp s) b) = {}) ws"

lemma pendingD:
  assumes "pending s ws"
  shows "w \<in> set ws \<Longrightarrow> entry_of s k = Some e \<Longrightarrow> set (elems (hp s) w) \<inter> set (elems (hp s) e) = {}"
    and "ws = v # vs \<Longrightarrow> w \<in> set vs \<Longrightarrow> set (elems (hp s) v) \<inter> set (elems (hp s) w) = {}"
  using assms by (simp_all add: pending_def)

section \<open>What a change of the store leaves alone\<close>

lemma map_of_fields_at: "map_of (fields_at h v) = object_get_ex h v"
  by (simp add: fields_at_def object_get_ex_def fun_eq_iff split: option.split)

lemma export_at_mono:
  assumes "export_at h v" "length h \<le> length h'" "\<And>x. is_obj h x \<Longrightarrow> is_obj h' x" "node_of h' v = node_of h v"
  shows "export_at h' v"
proof -
  have get: "object_get_ex h' v = object_get_ex h v" and f: "fields_at h' v = fields_at h v"
    using assms(4) by (auto intro: same_node_get same_node_fields)
  have "stat_entry_ok h' v"
    using assms(1-3) unfolding export_at_def stat_entry_ok_def get by (blast intro: settled_mono)
  then show ?thesis using assms(1,3) unfolding export_at_def get f by blast
qed

text \<open>A later state: values that are clear stay so, and \<open>S\<close> are the nodes that were written.\<close>

definition later :: "jval set \<Rightarrow> stats \<Rightarrow> stats \<Rightarrow> bool" where
  "later S s s' \<longleftrightarrow> keeps S (hp s) (hp s') \<and> (\<forall>w \<in> S. \<not> clear s w \<or> node_of (hp s) w = None) \<and>
    (\<forall>w \<in> S. \<forall>vs. node_of (hp s) w \<noteq> Some (Arr vs)) \<and>
    (\<forall>v. clear s v \<longrightarrow> settled (hp s) v \<longrightarrow> clear s' v)"

lemma exports_at_later:
  assumes "exports_at s d" "later S s s'"
  shows "exports_at s' d"
proof -
  obtain vs where vs: "node_of (hp s) d = Some (Arr vs)" "distinct vs"
    "\<forall>v \<in> set vs. export_at (hp s) v \<and> clear s v \<and> (\<forall>st. object_get_ex (hp s) v ''stats'' = Some st \<longrightarrow> clear s st)"
    using assms(1) unfolding exports_at_def by blast
  have k: "keeps S (hp s) (hp s')" using assms(2) by (simp add: later_def)
  have "d \<notin> S" using assms(2) vs(1) unfolding later_def by blast
  then have d: "node_of (hp s') d = Some (Arr vs)" by (rule keeps_node[OF k vs(1)])
  have "export_at (hp s') v \<and> clear s' v \<and> (\<forall>st. object_get_ex (hp s') v ''stats'' = Some st \<longrightarrow> clear s' st)"
    if "v \<in> set vs" for v
  proof -
    have v: "export_at (hp s) v" "clear s v" "\<And>st. object_get_ex (hp s) v ''stats'' = Some st \<Longrightarrow> clear s st"
      using vs(3) that by blast+
    obtain kvs where n: "node_of (hp s) v = Some (Obj kvs)" using v(1) by (auto simp: export_at_def is_obj_def)
    have "v \<notin> S" using assms(2) v(2) n unfolding later_def by auto
    then have same: "node_of (hp s') v = node_of (hp s) v" using keeps_node[OF k n] n by simp
    have ob: "is_obj (hp s) x \<Longrightarrow> is_obj (hp s') x" for x by (rule is_obj_keeps_arr[OF k])
    have "export_at (hp s') v" by (rule export_at_mono[OF v(1) keeps_length[OF k] ob same])
    moreover have cl: "clear s x \<Longrightarrow> settled (hp s) x \<Longrightarrow> clear s' x" for x using assms(2) by (simp add: later_def)
    have "clear s' v" using cl v(1,2) by (simp add: export_at_def stat_entry_ok_def)
    moreover have "clear s' st" if "object_get_ex (hp s') v ''stats'' = Some st" for st
    proof -
      have "object_get_ex (hp s) v ''stats'' = Some st" using that same_node_get[OF same] by simp
      moreover from this have "is_obj (hp s) st" using v(1) by (simp add: export_at_def stat_entry_ok_def)
      ultimately show ?thesis using v(3) cl is_obj_settled by blast
    qed
    ultimately show ?thesis by blast
  qed
  with d vs(2) show ?thesis unfolding exports_at_def by blast
qed

lemma data_field_later: "data_field s get \<Longrightarrow> later S s s' \<Longrightarrow> data_field s' get"
  unfolding data_field_def using exports_at_later by blast

lemma host_ok_later: "host_ok s get \<Longrightarrow> later S s s' \<Longrightarrow> host_ok s' get"
  unfolding host_ok_def using exports_at_later data_field_later by blast

lemma update_ok_later: "update_ok s get \<Longrightarrow> later S s s' \<Longrightarrow> update_ok s' get"
  unfolding update_ok_def using data_field_later by blast

text \<open>The entries of a report that is not replaced.\<close>

lemma elems_data:
  assumes "object_get_ex h' c' ''data'' = object_get_ex h c ''data''"
    and "\<And>d vs. object_get_ex h c ''data'' = Some d \<Longrightarrow> node_of h d = Some (Arr vs) \<Longrightarrow> node_of h' d = Some (Arr vs)"
    and "\<And>d. object_get_ex h c ''data'' = Some d \<Longrightarrow> \<exists>vs. node_of h d = Some (Arr vs)"
  shows "elems h' c' = elems h c"
  using assms by (fastforce simp: elems_def arr_of_def split: option.splits)

lemma elems_later:
  assumes "later S s s'" "data_field s (object_get_ex (hp s) c)"
    "object_get_ex (hp s') c' ''data'' = object_get_ex (hp s) c ''data''"
  shows "elems (hp s') c' = elems (hp s) c"
proof (rule elems_data[OF assms(3)])
  show "node_of (hp s') d = Some (Arr vs)" if "node_of (hp s) d = Some (Arr vs)" for d vs
    using that assms(1) by (auto simp: later_def intro: keeps_node)
  show "\<exists>vs. node_of (hp s) d = Some (Arr vs)" if "object_get_ex (hp s) c ''data'' = Some d" for d
    using that assms(2) by (auto simp: data_field_def exports_at_def)
qed

section \<open>One update\<close>

definition same_rates :: "stats \<Rightarrow> stats \<Rightarrow> bool" where
  "same_rates s s' \<longleftrightarrow> server_tag_rate_map s' = server_tag_rate_map s"

lemma whenever_same_rates [simp]: "whenever m (\<lambda>_. True)"
  by (simp add: whenever_def)

lemma init_host_entry_rates: "whenever (init_host_entry host s) (same_rates s)"
  by (auto simp: whenever_def init_host_entry_def same_rates_def Let_def bind_eq_Some_conv split: prod.splits)

lemma tag_host_entry_rates: "whenever (tag_host_entry E w e s) (same_rates s)"
  by (auto simp: whenever_def tag_host_entry_def same_rates_def bind_eq_Some_conv split: option.splits)

lemma update_host_entry_rates: "whenever (update_host_entry E w s) (\<lambda>(rc, s'). same_rates s s')"
proof -
  have t: "same_rates s s'" if "tag_host_entry E w e s1 = Some s'" "same_rates s s1" for e s1 s'
    using tag_host_entry_rates[of E w e s1] that by (simp add: same_rates_def)
  have i: "same_rates s s1" if "init_host_entry host s = Some s1" for host s1
    using init_host_entry_rates[of host s] that by simp
  have r: "same_rates s s" by (simp add: same_rates_def)
  show ?thesis
  proof (cases "object_get_ex (hp s) w ''hostname''")
    case (Some tag)
    show ?thesis
    proof (cases "get_string E (hp s) tag")
      case (Some name)
      let ?host = "snprintf_s 64 name"
      have "whenever (case object_get_ex (hp s) (host_map s) ?host of None \<Rightarrow> init_host_entry ?host s | Some _ \<Rightarrow> Some s)
          (same_rates s)"
        using i r by (auto simp: whenever_def split: option.splits)
      then show ?thesis
        using Some \<open>_ = Some tag\<close> t
        by (auto simp: update_host_entry_def Let_def whenever_def bind_eq_Some_conv split: option.splits)
    qed (use Some in \<open>simp add: update_host_entry_def\<close>)
  qed (simp add: update_host_entry_def r)
qed

lemma updated_later:
  assumes m: "maps_ok s" and u: "updated s w host s'" and s': "same_rates s s'" "host_map s' = host_map s" "nid_map s' = nid_map s"
  obtains e where "later {e, host_map s, nid_map s} s s'" "entry_of s' = (entry_of s)(host \<mapsto> e)"
    "node_of (hp s') e = Some (Obj (host_fields (object_get_ex (hp s) w) (old_fields s host)))"
    "\<And>k v. entry_of s k = Some v \<Longrightarrow> k \<noteq> host \<Longrightarrow> node_of (hp s') v = node_of (hp s) v"
proof -
  obtain e where e: "entry_of s' = (entry_of s)(host \<mapsto> e)"
    "case entry_of s host of None \<Rightarrow> e = JRef (length (hp s)) | Some e' \<Rightarrow> e = e'"
    "node_of (hp s') e = Some (Obj (host_fields (object_get_ex (hp s) w) (old_fields s host)))"
    "keeps {e, host_map s, nid_map s} (hp s) (hp s')"
    "\<And>k v. entry_of s k = Some v \<Longrightarrow> k \<noteq> host \<Longrightarrow> node_of (hp s') v = node_of (hp s) v"
    using u unfolding updated_def by blast
  have same: "host_map s' = host_map s" "nid_map s' = nid_map s" "server_tag_rate_map s' = server_tag_rate_map s"
    using s' by (simp_all add: same_rates_def)
  have ho: "hosts_ok s" by (rule maps_okD(1)[OF m])
  have maps: "\<not> clear s (host_map s)" "\<not> clear s (nid_map s)" by (simp_all add: clear_def outside_def)
  have ee: "\<not> clear s e \<or> node_of (hp s) e = None" "node_of (hp s) e \<noteq> Some (Arr vs)" for vs
    using e(2) hosts_okD(4)[OF ho] by (auto simp: clear_def outside_def split: option.splits) fastforce+
  have "node_of (hp s) (host_map s) \<noteq> Some (Arr vs)" "node_of (hp s) (nid_map s) \<noteq> Some (Arr vs)" for vs
    using hosts_okD(1,2)[OF ho] by auto
  moreover have "clear s' v" if "clear s v" "settled (hp s) v" for v
    using that outside_updated[OF u _ _ same(1,2)] same(3) by (simp add: clear_def)
  ultimately have "later {e, host_map s, nid_map s} s s'"
    unfolding later_def using e(4) ee maps by auto
  then show ?thesis using e(1,3,5) that by blast
qed

lemma host_fields_lookup:
  "map_of (host_fields get kvs) ''time'' = (case get ''time'' of None \<Rightarrow> map_of kvs ''time'' | Some x \<Rightarrow> Some x)"
  "map_of (host_fields get kvs) ''hid'' = (case get ''hostname'' of None \<Rightarrow> map_of kvs ''hid'' | Some x \<Rightarrow> Some x)"
  "map_of (host_fields get kvs) ''system'' = (case get ''system'' of None \<Rightarrow> map_of kvs ''system'' | Some x \<Rightarrow> Some x)"
  "map_of (host_fields get kvs) ''jid'' = (case get ''jid'' of None \<Rightarrow> map_of kvs ''jid'' | Some x \<Rightarrow> Some x)"
  "map_of (host_fields get kvs) ''uid'' = (case get ''uid'' of None \<Rightarrow> map_of kvs ''uid'' | Some x \<Rightarrow> Some x)"
  "map_of (host_fields get kvs) ''obdclass'' =
    (case get ''obdclass'' of None \<Rightarrow> map_of kvs ''obdclass'' | Some x \<Rightarrow> Some x)"
  by (rule host_fields_tag, simp add: rpc_tags_def)+

lemma host_fields_other:
  "k \<notin> insert ''data'' (snd ` set rpc_tags) \<Longrightarrow> map_of (host_fields get kvs) k = map_of kvs k"
  by (auto simp: host_fields_def Let_def map_of_copied_other split: option.split)

lemma host_fields_old:
  "map_of (host_fields get kvs) ''otime'' = map_of kvs ''otime''"
  "map_of (host_fields get kvs) ''odata'' = map_of kvs ''odata''"
  by (rule host_fields_other, simp add: rpc_tags_def)+

text \<open>An update of the right type keeps the type of the entry.\<close>

lemma host_fields_ok:
  assumes "host_ok s (map_of kvs)" "update_ok s get"
  shows "host_ok s (map_of (host_fields get kvs))"
proof -
  note look = host_fields_lookup host_fields_data host_fields_old
  have "scalars [''time'', ''otime'', ''hid'', ''system'', ''jid'', ''uid''] (map_of (host_fields get kvs))"
    using assms unfolding host_ok_def update_ok_def scalars_def
    by (simp add: look split: option.splits)
  moreover have "plain_class (map_of (host_fields get kvs))"
    using assms unfolding host_ok_def update_ok_def plain_class_def look by (auto split: option.splits)
  moreover have "data_field s (map_of (host_fields get kvs))"
    using assms unfolding host_ok_def update_ok_def data_field_def look by (auto split: option.splits)
  moreover have "\<forall>d. map_of (host_fields get kvs) ''odata'' = Some d \<longrightarrow> exports_at s d"
    using assms(1) unfolding host_ok_def look by blast
  ultimately show ?thesis unfolding host_ok_def by blast
qed

lemma old_fields_ok:
  assumes "maps_ok s"
  shows "host_ok s (map_of (old_fields s host))"
proof (cases "entry_of s host")
  case None
  then show ?thesis
    by (simp add: host_ok_def old_fields_def scalars_def plain_class_def data_field_def scalar_def)
next
  case (Some e)
  obtain kvs where "node_of (hp s) e = Some (Obj kvs)" using hosts_okD(4)[OF maps_okD(1)[OF assms] Some] by blast
  then have "map_of (old_fields s host) = object_get_ex (hp s) e" using Some by (simp add: old_fields_def fun_eq_iff)
  then show ?thesis using maps_okD(4)[OF assms Some] by simp
qed

text \<open>The update of the entry \<open>e\<close> of a host from a waiting update, and what it leaves alone.\<close>

definition entry_updated :: "stats \<Rightarrow> jval \<Rightarrow> string \<Rightarrow> jval \<Rightarrow> stats \<Rightarrow> bool" where
  "entry_updated s w host e s' \<longleftrightarrow> hosts_ok s' \<and> server_tag_rate_map s' = server_tag_rate_map s \<and>
    later {e, host_map s, nid_map s} s s' \<and> entry_of s' = (entry_of s)(host \<mapsto> e) \<and>
    object_get_ex (hp s') e = map_of (host_fields (object_get_ex (hp s) w) (old_fields s host)) \<and>
    (\<forall>k v. entry_of s k = Some v \<longrightarrow> k \<noteq> host \<longrightarrow> node_of (hp s') v = node_of (hp s) v) \<and>
    (\<forall>v. outside s v \<longrightarrow> settled (hp s) v \<longrightarrow> outside s' v \<and> object_get_ex (hp s') v = object_get_ex (hp s) v) \<and>
    (\<forall>e'. entry_of s host = Some e' \<longrightarrow> e' = e)"

lemma entry_updatedD:
  assumes "entry_updated s w host e s'"
  shows "hosts_ok s'" "server_tag_rate_map s' = server_tag_rate_map s" "later {e, host_map s, nid_map s} s s'"
    "entry_of s' = (entry_of s)(host \<mapsto> e)"
    "object_get_ex (hp s') e = map_of (host_fields (object_get_ex (hp s) w) (old_fields s host))"
    "keeps {e, host_map s, nid_map s} (hp s) (hp s')"
    "entry_of s k = Some v \<Longrightarrow> k \<noteq> host \<Longrightarrow> node_of (hp s') v = node_of (hp s) v"
    "outside s v \<Longrightarrow> settled (hp s) v \<Longrightarrow> outside s' v"
    "outside s v \<Longrightarrow> settled (hp s) v \<Longrightarrow> object_get_ex (hp s') v = object_get_ex (hp s) v"
    "entry_of s host = Some e' \<Longrightarrow> e' = e"
  using assms unfolding entry_updated_def by (simp_all add: later_def)

lemma update_host_entry_updated:
  assumes m: "maps_ok s" and w: "outside s w" "update_ok s (object_get_ex (hp s) w)"
    and tag: "object_get_ex (hp s) w ''hostname'' = Some tag"
  shows "\<exists>rc s' host e. update_host_entry E w s = Some (rc, s') \<and> entry_updated s w host e s'"
proof -
  have ho: "hosts_ok s" by (rule maps_okD(1)[OF m])
  have "update_host_entry E w s \<noteq> None"
    by (rule update_host_entry_defined[OF ho w(1)]) (use w(2) in \<open>auto simp: update_ok_def\<close>)
  then obtain rc s' where s': "update_host_entry E w s = Some (rc, s')" by auto
  have "tag \<noteq> JNull" using w(2) tag by (auto simp: update_ok_def)
  then obtain name where name: "get_string E (hp s) tag = Some name" by (cases tag) (auto simp: get_string_def)
  let ?host = "snprintf_s 64 name"
  have u: "updated s w ?host s'" "hosts_ok s'" "host_map s' = host_map s" "nid_map s' = nid_map s"
    using update_host_entry_spec[OF ho w(1) tag name] s' by auto
  have rates: "same_rates s s'" using update_host_entry_rates[of E w s] s' by simp
  obtain e where e: "later {e, host_map s, nid_map s} s s'" "entry_of s' = (entry_of s)(?host \<mapsto> e)"
    "node_of (hp s') e = Some (Obj (host_fields (object_get_ex (hp s) w) (old_fields s ?host)))"
    "\<And>k v. entry_of s k = Some v \<Longrightarrow> k \<noteq> ?host \<Longrightarrow> node_of (hp s') v = node_of (hp s) v"
    using updated_later[OF m u(1) rates u(3,4)] by blast
  have "e' = e" if "entry_of s ?host = Some e'" for e'
    using u(1) that e(2) unfolding updated_def by (auto dest: fun_cong[of _ _ ?host])
  then have "entry_updated s w ?host e s'"
    unfolding entry_updated_def using u(2) rates e outside_updated[OF u(1) _ _ u(3,4)] updated_get[OF u(1)]
    by (simp add: same_rates_def fun_eq_iff)
  with s' show ?thesis by blast
qed

text \<open>The elements of the report in the new entry: those of the update, or the ones it had.\<close>

lemma entry_updated_elems:
  assumes m: "maps_ok s" and w: "update_ok s (object_get_ex (hp s) w)" and u: "entry_updated s w host e s'"
  shows "set (elems (hp s') e) = set (elems (hp s) w) \<or> elems (hp s') e = [] \<or>
    (entry_of s host = Some e \<and> elems (hp s') e = elems (hp s) e)"
proof (cases "object_get_ex (hp s) w ''data''")
  case (Some d)
  have "object_get_ex (hp s') e ''data'' = object_get_ex (hp s) w ''data''"
    unfolding entry_updatedD(5)[OF u] host_fields_data Some by simp
  from elems_later[OF entry_updatedD(3)[OF u] _ this] w show ?thesis by (simp add: update_ok_def)
next
  case None
  have d: "object_get_ex (hp s') e ''data'' = map_of (old_fields s host) ''data''"
    unfolding entry_updatedD(5)[OF u] host_fields_data None by simp
  show ?thesis
  proof (cases "entry_of s host")
    case None
    then show ?thesis using d by (simp add: old_fields_def elems_def)
  next
    case (Some e')
    then have e: "entry_of s host = Some e" using entry_updatedD(10)[OF u Some] by simp
    obtain kvs where "node_of (hp s) e = Some (Obj kvs)" using hosts_okD(4)[OF maps_okD(1)[OF m] e] by blast
    then have "object_get_ex (hp s') e ''data'' = object_get_ex (hp s) e ''data''" using d e by (simp add: old_fields_def)
    from elems_later[OF entry_updatedD(3)[OF u] _ this] e show ?thesis using maps_okD(4)[OF m e] by (simp add: host_ok_def)
  qed
qed

lemma entry_updated_same:
  assumes m: "maps_ok s" and u: "entry_updated s w host e s'" and k: "entry_of s k = Some v" "k \<noteq> host"
  shows "object_get_ex (hp s') v = object_get_ex (hp s) v" "elems (hp s') v = elems (hp s) v"
proof -
  show 1: "object_get_ex (hp s') v = object_get_ex (hp s) v" by (rule same_node_get[OF entry_updatedD(7)[OF u k]])
  show "elems (hp s') v = elems (hp s) v"
    by (rule elems_later[OF entry_updatedD(3)[OF u]]) (use 1 maps_okD(4)[OF m k(1)] in \<open>simp_all add: host_ok_def\<close>)
qed

lemma entry_updated_apart:
  assumes m: "maps_ok s" and p: "pending s (w # ws)" and u: "entry_updated s w host e s'"
    and k: "entry_of s k = Some v" "k \<noteq> host"
  shows "set (elems (hp s') e) \<inter> set (elems (hp s') v) = {}"
proof -
  have w: "update_ok s (object_get_ex (hp s) w)" using p by (auto simp: pending_def)
  have v: "elems (hp s') v = elems (hp s) v" by (rule entry_updated_same(2)[OF m u k])
  show ?thesis
    using entry_updated_elems[OF m w u]
  proof (elim disjE)
    assume "set (elems (hp s') e) = set (elems (hp s) w)"
    then show ?thesis using pendingD(1)[OF p _ k(1), of w] v by simp
  next
    assume "entry_of s host = Some e \<and> elems (hp s') e = elems (hp s) e"
    then show ?thesis using maps_okD(5)[OF m _ k(1), of host e] k(2) v by auto
  qed simp
qed

lemma entry_updated_maps:
  assumes m: "maps_ok s" and p: "pending s (w # ws)" and u: "entry_updated s w host e s'"
  shows "maps_ok s'"
proof -
  have w: "update_ok s (object_get_ex (hp s) w)" using p by (auto simp: pending_def)
  note l = entry_updatedD(3)[OF u] and ent = entry_updatedD(4)[OF u] and rm = entry_updatedD(2)[OF u]
  have "is_obj (hp s') (server_tag_rate_map s')"
    unfolding rm by (rule is_obj_keeps_arr[OF entry_updatedD(6)[OF u] maps_okD(2)[OF m]])
  moreover have "outside s' (server_tag_rate_map s')"
    unfolding rm by (rule entry_updatedD(8)[OF u maps_okD(3)[OF m] is_obj_settled[OF maps_okD(2)[OF m]]])
  moreover have "host_ok s' (object_get_ex (hp s') v)" if "entry_of s' j = Some v" for j v
  proof (cases "j = host")
    case True
    then have "v = e" using that ent by simp
    then show ?thesis
      using host_ok_later[OF host_fields_ok[OF old_fields_ok[OF m] w] l] entry_updatedD(5)[OF u] by simp
  next
    case False
    then have v: "entry_of s j = Some v" using that ent by simp
    show ?thesis unfolding entry_updated_same(1)[OF m u v False] by (rule host_ok_later[OF maps_okD(4)[OF m v] l])
  qed
  moreover have "set (elems (hp s') v) \<inter> set (elems (hp s') v') = {}"
    if ij: "entry_of s' i = Some v" "entry_of s' j = Some v'" "i \<noteq> j" for i j v v'
  proof -
    consider "v = e" "entry_of s j = Some v'" "j \<noteq> host" | "v' = e" "entry_of s i = Some v" "i \<noteq> host"
      | "entry_of s i = Some v" "entry_of s j = Some v'" "i \<noteq> host" "j \<noteq> host"
      using ij unfolding ent by (cases "i = host"; cases "j = host") simp_all
    then show ?thesis
    proof cases
      case 1
      then show ?thesis using entry_updated_apart[OF m p u 1(2,3)] by simp
    next
      case 2
      then show ?thesis using entry_updated_apart[OF m p u 2(2,3)] by auto
    next
      case 3
      then show ?thesis using maps_okD(5)[OF m 3(1,2) ij(3)] entry_updated_same(2)[OF m u] by simp
    qed
  qed
  ultimately show ?thesis unfolding maps_ok_def using entry_updatedD(1)[OF u] by blast
qed

lemma waiting_kept:
  assumes p: "pending s (w # ws)" and u: "entry_updated s w host e s'" and v: "v \<in> set ws"
  shows "outside s' v" "settled (hp s') v" "update_ok s' (object_get_ex (hp s') v)" "elems (hp s') v = elems (hp s) v"
proof -
  have pv: "outside s v" "settled (hp s) v" "update_ok s (object_get_ex (hp s) v)" using p v by (auto simp: pending_def)
  note l = entry_updatedD(3)[OF u] and same = entry_updatedD(9)[OF u pv(1,2)]
  show "outside s' v" by (rule entry_updatedD(8)[OF u pv(1,2)])
  show "settled (hp s') v" by (rule settled_mono[OF pv(2) keeps_length[OF entry_updatedD(6)[OF u]]])
  show "update_ok s' (object_get_ex (hp s') v)" unfolding same by (rule update_ok_later[OF pv(3) l])
  show "elems (hp s') v = elems (hp s) v"
    by (rule elems_later[OF l]) (use same pv(3) in \<open>simp_all add: update_ok_def\<close>)
qed

lemma entry_updated_pending:
  assumes m: "maps_ok s" and p: "pending s (w # ws)" and u: "entry_updated s w host e s'"
  shows "pending s' ws"
proof -
  have rest: "pending s ws" and w: "update_ok s (object_get_ex (hp s) w)" using p by (auto simp: pending_def)
  note old = waiting_kept[OF p u]
  have "set (elems (hp s) v) \<inter> set (elems (hp s') v') = {}" if v: "v \<in> set ws" and v': "entry_of s' j = Some v'" for v j v'
  proof (cases "j = host")
    case True
    then have e: "v' = e" using v' entry_updatedD(4)[OF u] by simp
    show ?thesis
      using entry_updated_elems[OF m w u]
    proof (elim disjE)
      assume "set (elems (hp s') e) = set (elems (hp s) w)"
      then show ?thesis using pendingD(2)[OF p refl v] e by auto
    next
      assume "entry_of s host = Some e \<and> elems (hp s') e = elems (hp s) e"
      then show ?thesis using pendingD(1)[OF rest v, of host e] e by simp
    qed (simp add: e)
  next
    case False
    then have o: "entry_of s j = Some v'" using v' entry_updatedD(4)[OF u] by simp
    show ?thesis using entry_updated_same(2)[OF m u o False] pendingD(1)[OF rest v o] by simp
  qed
  moreover have "sorted_wrt (\<lambda>a b. set (elems (hp s') a) \<inter> set (elems (hp s') b) = {}) ws"
    by (rule sorted_wrt_mono_rel[where P = "\<lambda>a b. set (elems (hp s) a) \<inter> set (elems (hp s) b) = {}"])
      (use old(4) rest in \<open>auto simp: pending_def\<close>)
  ultimately show ?thesis unfolding pending_def using old by auto
qed

lemma update_host_entry_keeps:
  assumes m: "maps_ok s" and p: "pending s (w # ws)"
  shows "ok (update_host_entry E w s) (\<lambda>(rc, s'). maps_ok s' \<and> pending s' ws)"
proof (cases "object_get_ex (hp s) w ''hostname''")
  case None
  have "pending s ws" using p by (auto simp: pending_def)
  with None m show ?thesis by (simp add: update_host_entry_def)
next
  case (Some tag)
  have "outside s w" "update_ok s (object_get_ex (hp s) w)" using p by (auto simp: pending_def)
  from update_host_entry_updated[OF m this Some]
  obtain rc s' host e where "update_host_entry E w s = Some (rc, s')" "entry_updated s w host e s'" by blast
  then show ?thesis using entry_updated_maps[OF m p] entry_updated_pending[OF m p] by simp
qed

lemma update_all_keeps: "maps_ok s \<Longrightarrow> pending s ws \<Longrightarrow> ok (update_all E ws s) maps_ok"
proof (induction ws arbitrary: s)
  case Nil
  then show ?case by (simp add: update_all_def)
next
  case (Cons w ws)
  obtain rc t where t: "update_host_entry E w s = Some (rc, t)" "maps_ok t" "pending t ws"
    using update_host_entry_keeps[OF Cons.prems, of E] by (auto elim!: okE)
  then show ?case using Cons.IH[OF t(2,3)] by (simp add: update_all_def)
qed

section \<open>The shape of a parsed document\<close>

text \<open>The tokener allocates one node after the other, so the nodes of an array are in increasing order.\<close>

definition increasing :: "jval list \<Rightarrow> bool" where
  "increasing vs \<longleftrightarrow> sorted_wrt (\<lambda>a b. \<forall>x y. a = JRef x \<longrightarrow> b = JRef y \<longrightarrow> x < y) vs"

lemma increasing_distinct: "increasing vs \<Longrightarrow> \<forall>v \<in> set vs. \<exists>a. v = JRef a \<Longrightarrow> distinct vs"
proof (induction vs)
  case (Cons v vs)
  then obtain a where "v = JRef a" by auto
  then show ?case using Cons by (auto simp: increasing_def)
qed simp

lemma build_list_increasing: "build_list ts h = (vs, h') \<Longrightarrow> increasing vs"
proof (induction ts arbitrary: h vs)
  case Nil
  then show ?case by (simp add: increasing_def)
next
  case (Cons t ts)
  obtain v h1 where b: "build t h = (v, h1)" by fastforce
  obtain ws where b2: "build_list ts h1 = (ws, h')" "vs = v # ws" using Cons.prems b by (auto split: prod.splits)
  have "newer h h1 v" "\<forall>w \<in> set ws. newer h1 h' w" using build_frame(1)[OF b] build_frame(2)[OF b2(1)] by blast+
  then have "\<forall>w \<in> set ws. \<forall>x y. v = JRef x \<longrightarrow> w = JRef y \<longrightarrow> x < y" by (fastforce simp: newer_def)
  then show ?case using Cons.IH[OF b2(1)] b2(2) by (simp add: increasing_def)
qed

definition arrays_increasing :: "heap \<Rightarrow> jval set \<Rightarrow> bool" where
  "arrays_increasing h R \<longleftrightarrow> (\<forall>d \<in> R. \<forall>vs. node_of h d = Some (Arr vs) \<longrightarrow> increasing vs)"

lemma arrays_increasing_trans:
  assumes "arrays_increasing h1 (fresh_nodes h h1)" "keeps {} h1 h2" "arrays_increasing h2 (fresh_nodes h1 h2)"
  shows "arrays_increasing h2 (fresh_nodes h h2)"
  unfolding arrays_increasing_def
proof (intro ballI allI impI)
  fix d vs
  assume d: "d \<in> fresh_nodes h h2" and n: "node_of h2 d = Some (Arr vs)"
  show "increasing vs"
  proof (cases "d \<in> fresh_nodes h1 h2")
    case True
    then show ?thesis using assms(3) n by (auto simp: arrays_increasing_def)
  next
    case False
    then have d1: "d \<in> fresh_nodes h h1" using d by (auto simp: fresh_nodes_def not_le)
    then obtain m where m: "node_of h1 d = Some m" by (auto simp: fresh_nodes_def node_of_def)
    then have "node_of h2 d = Some m" using keeps_node[OF assms(2) m] by simp
    then show ?thesis using assms(1) d1 m n by (auto simp: arrays_increasing_def)
  qed
qed

lemma arrays_increasing_push:
  assumes "arrays_increasing h1 (fresh_nodes h h1)" "\<And>vs. n = Arr vs \<Longrightarrow> increasing vs"
  shows "arrays_increasing (push n h1) (fresh_nodes h (push n h1))"
  unfolding arrays_increasing_def
proof (intro ballI allI impI)
  fix d vs
  assume d: "d \<in> fresh_nodes h (push n h1)" and a: "node_of (push n h1) d = Some (Arr vs)"
  show "increasing vs"
  proof (cases "d = JRef (length h1)")
    case True
    then show ?thesis using a assms(2) by simp
  next
    case False
    then have "node_of h1 d = Some (Arr vs)" using a by simp
    moreover from this have "d \<in> fresh_nodes h h1" using d by (auto simp: fresh_nodes_def dest: node_of_ref)
    ultimately show ?thesis using assms(1) by (auto simp: arrays_increasing_def)
  qed
qed

lemma arrays_increasing_empty [simp]: "arrays_increasing h (fresh_nodes h h)"
  by (auto simp: arrays_increasing_def fresh_nodes_def)

lemma build_arrays:
  shows "build t h = (v, h') \<Longrightarrow> arrays_increasing h' (fresh_nodes h h')"
    and "build_list ts h = (vs, h') \<Longrightarrow> arrays_increasing h' (fresh_nodes h h')"
    and "build_fields fs acc h = (kvs, h') \<Longrightarrow> arrays_increasing h' (fresh_nodes h h')"
proof (induction t h and ts h and fs acc h arbitrary: v h' and vs h' and kvs h' rule: build_build_list_build_fields.induct)
  case (6 ts h)
  obtain vs1 h1 where b: "build_list ts h = (vs1, h1)" by fastforce
  have "arrays_increasing (push (Arr vs1) h1) (fresh_nodes h (push (Arr vs1) h1))"
    by (rule arrays_increasing_push[OF 6(1)[OF b]]) (use build_list_increasing[OF b] in simp)
  then show ?case using 6(2) b by (simp add: new_node_def)
next
  case (7 fs h)
  obtain kvs1 h1 where b: "build_fields fs [] h = (kvs1, h1)" by fastforce
  have "arrays_increasing (push (Obj kvs1) h1) (fresh_nodes h (push (Obj kvs1) h1))"
    by (rule arrays_increasing_push[OF 7(1)[OF b]]) simp
  then show ?case using 7(2) b by (simp add: new_node_def)
next
  case (9 t ts h)
  obtain v1 h1 where b: "build t h = (v1, h1)" by fastforce
  obtain vs2 h2 where b2: "build_list ts h1 = (vs2, h2)" by fastforce
  show ?case using 9(3) b b2 arrays_increasing_trans[OF 9(1)[OF b] _ 9(2)[OF b[symmetric] refl b2]]
      build_frame(2)[OF b2] by auto
next
  case (11 k t fs acc h)
  obtain v1 h1 where b: "build t h = (v1, h1)" by fastforce
  have b2: "build_fields fs (AList.update k v1 acc) h1 = (kvs, h')" using 11(3) b by simp
  show ?case using arrays_increasing_trans[OF 11(1)[OF b] _ 11(2)[OF b[symmetric] refl b2]] build_frame(3)[OF b2] by auto
qed auto

text \<open>The entries of the updates of one document are apart.\<close>

lemma elems_member:
  assumes "x \<in> set (elems h w)"
  shows "\<exists>d vs. object_get_ex h w ''data'' = Some d \<and> node_of h d = Some (Arr vs) \<and> x \<in> set vs"
proof -
  obtain d where d: "object_get_ex h w ''data'' = Some d"
    using assms by (cases "object_get_ex h w ''data''") (simp_all add: elems_def)
  obtain vs where "arr_of h d = Some vs" "x \<in> set vs" using assms d by (cases "arr_of h d") (simp_all add: elems_def)
  moreover from this have "node_of h d = Some (Arr vs)"
    by (cases "node_of h d"; cases "the (node_of h d)") (simp_all add: arr_of_def)
  ultimately show ?thesis using d by blast
qed

lemma region_elems:
  assumes "region h R" "plain w \<or> w \<in> R" "x \<in> set (elems h w)"
  shows "plain x \<or> x \<in> R"
proof -
  obtain d vs where d: "object_get_ex h w ''data'' = Some d" "node_of h d = Some (Arr vs)" "x \<in> set vs"
    using elems_member[OF assms(3)] by blast
  obtain kvs where kvs: "node_of h w = Some (Obj kvs)" "map_of kvs ''data'' = Some d"
    using object_get_ex_SomeD[OF d(1)] by blast
  have "w \<in> R" using assms(2) kvs(1) by (auto simp: plain_def dest: node_of_ref)
  moreover have "d \<in> children (Obj kvs)" using kvs(2) by (auto dest: map_of_SomeD intro: rev_image_eqI)
  ultimately have "plain d \<or> d \<in> R" using assms(1) kvs(1) unfolding region_def by blast
  then have "d \<in> R" using d(2) by (auto simp: plain_def dest: node_of_ref)
  then show ?thesis using assms(1) d(2,3) unfolding region_def by fastforce
qed

lemma elems_kept:
  assumes r: "region h1 (fresh_nodes h h1)" and n: "newer h h1 v" and k: "keeps {} h1 h2"
  shows "elems h2 v = elems h1 v"
proof (cases "plain v")
  case True
  then have "object_get_ex g v ''data'' = None" for g
    by (cases "object_get_ex g v ''data''") (auto simp: plain_def dest!: object_get_ex_SomeD node_of_ref)
  then show ?thesis by (simp add: elems_def)
next
  case False
  then have "node_of h1 v \<noteq> None" using n by (auto simp: newer_iff fresh_nodes_def node_of_def)
  then have get: "object_get_ex h2 v = object_get_ex h1 v" using keeps_get_ex[OF k] by (simp add: fun_eq_iff)
  have "arr_of h2 d = arr_of h1 d" if "object_get_ex h1 v ''data'' = Some d" for d
  proof (cases "node_of h1 d")
    case None
    obtain kvs where "node_of h1 v = Some (Obj kvs)" "map_of kvs ''data'' = Some d"
      using object_get_ex_SomeD[OF \<open>object_get_ex h1 v ''data'' = Some d\<close>] by blast
    moreover have "v \<in> fresh_nodes h h1" using n False by (simp add: newer_iff)
    ultimately have "plain d \<or> d \<in> fresh_nodes h h1" using r unfolding region_def by (fastforce dest: map_of_SomeD)
    then have "plain d" using None by (auto simp: fresh_nodes_def node_of_def)
    then have "node_of g d = None" for g by (cases "node_of g d") (auto simp: plain_def dest!: node_of_ref)
    then show ?thesis by (simp add: arr_of_def)
  next
    case (Some n)
    then show ?thesis using keeps_node[OF k Some] by (simp add: arr_of_def)
  qed
  then show ?thesis using get by (simp add: elems_def split: option.split)
qed

lemma build_list_apart:
  "build_list ts h = (vs, h') \<Longrightarrow> sorted_wrt (\<lambda>a b. \<forall>x \<in> set (elems h' a) \<inter> set (elems h' b). plain x) vs"
proof (induction ts arbitrary: h vs)
  case (Cons t ts)
  obtain v h1 where b: "build t h = (v, h1)" by fastforce
  obtain ws where b2: "build_list ts h1 = (ws, h')" "vs = v # ws" using Cons.prems b by (auto split: prod.splits)
  have k: "keeps {} h1 h'" "\<forall>w \<in> set ws. newer h1 h' w" using build_frame(2)[OF b2(1)] by blast+
  have lv: "plain x \<or> x \<in> fresh_nodes h h1" if "x \<in> set (elems h' v)" for x
  proof -
    have n: "newer h h1 v" using build_frame(1)[OF b] by blast
    have "elems h' v = elems h1 v" by (rule elems_kept[OF build_region(1)[OF b] n k(1)])
    then show ?thesis using region_elems[OF build_region(1)[OF b], of v x] n that by (simp add: newer_iff)
  qed
  have lw: "plain x \<or> x \<in> fresh_nodes h1 h'" if "w \<in> set ws" "x \<in> set (elems h' w)" for w x
    using region_elems[OF build_region(2)[OF b2(1)] _ that(2)] k(2) that(1) by (auto simp: newer_iff)
  have "plain x" if "w \<in> set ws" "x \<in> set (elems h' v)" "x \<in> set (elems h' w)" for w x
    using lv[OF that(2)] lw[OF that(1,3)] by (auto simp: fresh_nodes_def)
  then show ?case using Cons.IH[OF b2(1)] b2(2) by simp
qed simp

section \<open>The type of a document\<close>

definition field_is :: "(json \<Rightarrow> bool) \<Rightarrow> (string \<times> json) list \<Rightarrow> string \<Rightarrow> bool" where
  "field_is P fs k \<longleftrightarrow> (case map_of fs k of None \<Rightarrow> True | Some u \<Rightarrow> P u)"

definition is_text :: "json \<Rightarrow> bool" where
  "is_text u \<longleftrightarrow> (case u of TString _ \<Rightarrow> True | _ \<Rightarrow> False)"

definition is_object :: "json \<Rightarrow> bool" where
  "is_object u \<longleftrightarrow> (case u of TObject _ \<Rightarrow> True | _ \<Rightarrow> False)"

definition is_plain :: "json \<Rightarrow> bool" where
  "is_plain u \<longleftrightarrow> (case u of TObject _ \<Rightarrow> False | TArray _ \<Rightarrow> False | _ \<Rightarrow> True)"

text \<open>The name of a target has the suffix of eight characters that \<open>tag_stats\<close> cuts off.\<close>

definition is_target :: "json \<Rightarrow> bool" where
  "is_target u \<longleftrightarrow> (case u of TString t \<Rightarrow> 8 \<le> length t | _ \<Rightarrow> False)"

definition is_class_text :: "json \<Rightarrow> bool" where
  "is_class_text u \<longleftrightarrow> (case u of TString c \<Rightarrow> CHR ''%'' \<notin> set c \<and> length c < 32 | _ \<Rightarrow> False)"

definition export_typed :: "json \<Rightarrow> bool" where
  "export_typed t \<longleftrightarrow> (case t of
     TObject fs \<Rightarrow> list_all (field_is is_text fs) [''stats_type'', ''client_nid'', ''target''] \<and>
       field_is is_object fs ''stats'' \<and> (map_of fs ''client_nid'' \<noteq> None \<longrightarrow> field_is is_target fs ''target'') \<and>
       list_all (field_is is_plain fs) group_keys
   | _ \<Rightarrow> False)"

definition data_typed :: "json \<Rightarrow> bool" where
  "data_typed u \<longleftrightarrow> (case u of TArray ts \<Rightarrow> list_all export_typed ts | _ \<Rightarrow> False)"

definition update_typed :: "json \<Rightarrow> bool" where
  "update_typed t \<longleftrightarrow> (case t of
     TObject fs \<Rightarrow> map_of fs ''hostname'' \<noteq> Some TNull \<and> map_of fs ''nid'' \<noteq> Some TNull \<and>
       list_all (field_is is_plain fs) [''time'', ''hostname'', ''system'', ''jid'', ''uid''] \<and>
       field_is is_class_text fs ''obdclass'' \<and> field_is data_typed fs ''data'' \<and>
       (map_of fs ''data'' \<noteq> None \<longrightarrow> map_of fs ''time'' \<noteq> None \<and> map_of fs ''obdclass'' \<noteq> None)
   | _ \<Rightarrow> True)"

definition report_typed :: "json \<Rightarrow> bool" where
  "report_typed t \<longleftrightarrow> (case t of TArray ts \<Rightarrow> list_all update_typed ts | _ \<Rightarrow> update_typed t)"

text \<open>From the document to its image in the store.\<close>

lemma rep_field:
  assumes "rep h v (TObject fs)"
  shows "object_get_ex h v k = Some d \<Longrightarrow> \<exists>u. map_of fs k = Some u \<and> rep h d u"
    and "object_get_ex h v k = None \<longleftrightarrow> map_of fs k = None"
proof -
  obtain kvs where kvs: "node_of h v = Some (Obj kvs)" "rep_fields h kvs fs"
    using assms by (auto split: option.splits node.splits)
  show "object_get_ex h v k = Some d \<Longrightarrow> \<exists>u. map_of fs k = Some u \<and> rep h d u"
    using rep_fields_map_of'[OF kvs(2)] kvs(1) by simp
  show "object_get_ex h v k = None \<longleftrightarrow> map_of fs k = None"
    using kvs(1) arg_cong[where f = set, OF rep_fields_keys[OF kvs(2)]] by (simp add: map_of_eq_None_iff)
qed

lemma rep_not_object: "rep h v t \<Longrightarrow> \<not> is_object t \<Longrightarrow> object_get_ex h v k = None"
  by (cases t; cases "object_get_ex h v k") (auto simp: is_object_def dest!: object_get_ex_SomeD split: option.splits)

lemma rep_plain: "rep h d u \<Longrightarrow> is_plain u \<Longrightarrow> scalar d"
  by (cases u) (auto simp: is_plain_def scalar_def)

lemma rep_text: "rep h d u \<Longrightarrow> is_text u \<Longrightarrow> \<exists>s. d = JString s"
  by (cases u) (auto simp: is_text_def)

lemma rep_object: "rep h d u \<Longrightarrow> is_object u \<Longrightarrow> is_obj h d"
  by (cases u) (auto simp: is_object_def is_obj_def split: option.splits node.splits)

lemma rep_field_is:
  assumes "rep h v (TObject fs)" "field_is P fs k" "object_get_ex h v k = Some d"
  shows "\<exists>u. P u \<and> rep h d u"
  using rep_field(1)[OF assms(1,3)] assms(2) by (auto simp: field_is_def)

lemma rep_scalars:
  assumes "rep h v (TObject fs)" "list_all (field_is is_plain fs) ks"
  shows "scalars ks (object_get_ex h v)"
  using assms rep_field_is[OF assms(1)] rep_plain unfolding scalars_def list_all_iff by metis

lemma rep_export:
  assumes "rep h v t" "export_typed t"
  shows "export_at h v"
proof -
  obtain fs where t: "t = TObject fs" using assms(2) by (cases t) (auto simp: export_typed_def)
  have f: "field_is is_text fs ''stats_type''" "field_is is_text fs ''client_nid''" "field_is is_text fs ''target''"
    "field_is is_object fs ''stats''" "map_of fs ''client_nid'' \<noteq> None \<Longrightarrow> field_is is_target fs ''target''"
    "list_all (field_is is_plain fs) group_keys"
    using assms(2) by (simp_all add: export_typed_def t)
  have r: "rep h v (TObject fs)" using assms(1) t by simp
  note look = rep_field_is[OF r]
  have ob: "is_obj h v" by (rule rep_object[OF r]) (simp add: is_object_def)
  have strs: "\<exists>s. x = JString s" if "object_get_ex h v k = Some x" "k \<in> {''stats_type'', ''client_nid'', ''target''}" for k x
    using that look[OF f(1)] look[OF f(2)] look[OF f(3)] rep_text by blast
  have tg: "8 \<le> length n" if "object_get_ex h v ''client_nid'' \<noteq> None" "object_get_ex h v ''target'' = Some (JString n)" for n
  proof -
    have "map_of fs ''client_nid'' \<noteq> None" using that(1) rep_field(2)[OF r, of "''client_nid''"] by simp
    from look[OF f(5)[OF this] that(2)] obtain u where "is_target u" "rep h (JString n) u" by blast
    then show ?thesis by (cases u) (auto simp: is_target_def split: option.splits node.splits)
  qed
  have "entry_ok (fields_at h v)"
  proof (cases "object_get_ex h v ''client_nid''")
    case None
    then show ?thesis by (simp add: entry_ok_def map_of_fields_at)
  next
    case (Some c)
    then obtain n where n: "object_get_ex h v ''client_nid'' = Some (JString n)" using strs by blast
    show ?thesis
    proof (cases "object_get_ex h v ''target''")
      case None
      then show ?thesis using n by (simp add: entry_ok_def map_of_fields_at)
    next
      case (Some g)
      then obtain m where "g = JString m" using strs by blast
      then show ?thesis using Some n tg[of m] by (simp add: entry_ok_def map_of_fields_at)
    qed
  qed
  moreover have "stat_entry_ok h v"
    unfolding stat_entry_ok_def using strs look[OF f(4)] rep_object ob is_obj_settled by blast
  ultimately show ?thesis using ob rep_scalars[OF r f(6)] by (simp add: export_at_def)
qed

lemma rep_list_member: "rep_list h vs ts \<Longrightarrow> v \<in> set vs \<Longrightarrow> \<exists>t \<in> set ts. rep h v t"
  by (induction ts arbitrary: vs) (auto split: list.splits)

section \<open>A document that was parsed\<close>

lemma build_later:
  assumes m: "maps_ok s" and b: "build t (hp s) = (v, h)"
  shows "later {} s (s\<lparr>hp := h\<rparr>)" and "maps_ok (s\<lparr>hp := h\<rparr>)"
    and "w \<in> fresh_nodes (hp s) h \<Longrightarrow> clear (s\<lparr>hp := h\<rparr>) w"
    and "entry_of s k = Some e \<Longrightarrow> elems h e = elems (hp s) e"
proof -
  let ?s = "s\<lparr>hp := h\<rparr>"
  have ho: "hosts_ok s" by (rule maps_okD(1)[OF m])
  have k: "keeps {} (hp s) h" using build_frame(1)[OF b] by blast
  have ent: "entry_of ?s = entry_of s" by (rule build_outside(3)[OF ho b])
  have out: "outside ?s w = outside s w" for w by (simp add: outside_def ent)
  show l: "later {} s ?s" using k by (simp add: later_def clear_def out)
  have get: "object_get_ex h e = object_get_ex (hp s) e" if "entry_of s k = Some e" for k e
    using hosts_okD(4)[OF ho that] keeps_get_ex[OF k] by (auto simp: fun_eq_iff)
  have el: "elems h e = elems (hp s) e" if "entry_of s k = Some e" for k e
    using elems_later[OF l, of e e] get[OF that] maps_okD(4)[OF m that] by (simp add: host_ok_def)
  then show "entry_of s k = Some e \<Longrightarrow> elems h e = elems (hp s) e" .
  have rm: "is_obj h (server_tag_rate_map s)" by (rule is_obj_keeps_arr[OF k maps_okD(2)[OF m]])
  have "host_ok ?s (object_get_ex h e)" if "entry_of s k = Some e" for k e
    unfolding get[OF that] by (rule host_ok_later[OF maps_okD(4)[OF m that] l])
  moreover have "set (elems h e) \<inter> set (elems h e') = {}"
    if "entry_of s i = Some e" "entry_of s j = Some e'" "i \<noteq> j" for i j e e'
    using maps_okD(5)[OF m that] el that by simp
  ultimately show "maps_ok ?s"
    unfolding maps_ok_def ent out using build_outside(1)[OF ho b] rm maps_okD(3)[OF m] by (auto simp: out)
  show "clear ?s w" if "w \<in> fresh_nodes (hp s) h"
  proof -
    have "outside ?s w" using build_outside(2)[OF ho b] that by (simp add: newer_iff)
    moreover have "w \<noteq> server_tag_rate_map s"
      using that maps_okD(2)[OF m] by (auto simp: fresh_nodes_def is_obj_def dest: node_of_ref)
    ultimately show ?thesis by (simp add: clear_def)
  qed
qed

lemma rep_exports:
  assumes m: "maps_ok s" and b: "build t (hp s) = (v, h)"
    and d: "d \<in> fresh_nodes (hp s) h" "rep h d (TArray ts)" "list_all export_typed ts"
  shows "exports_at (s\<lparr>hp := h\<rparr>) d"
proof -
  let ?R = "fresh_nodes (hp s) h"
  have R: "region h ?R" by (rule build_region(1)[OF b])
  obtain vs where vs: "node_of h d = Some (Arr vs)" "rep_list h vs ts" using d(2) by (auto split: option.splits node.splits)
  have ex: "export_at h x" if "x \<in> set vs" for x
    using rep_list_member[OF vs(2) that] d(3) rep_export by (auto simp: list_all_iff)
  have fresh: "x \<in> ?R" if "x \<in> set vs" for x
  proof -
    have "plain x \<or> x \<in> ?R" using R d(1) vs(1) that unfolding region_def by fastforce
    moreover have "\<not> plain x" using ex[OF that] by (auto simp: export_at_def is_obj_def plain_def dest: node_of_ref)
    ultimately show ?thesis by blast
  qed
  have "increasing vs" using build_arrays(1)[OF b] d(1) vs(1) by (auto simp: arrays_increasing_def)
  moreover have "\<forall>x \<in> set vs. \<exists>a. x = JRef a" using fresh by (auto simp: fresh_nodes_def)
  ultimately have dist: "distinct vs" by (rule increasing_distinct)
  have cl: "clear (s\<lparr>hp := h\<rparr>) x" if "x \<in> set vs" for x by (rule build_later(3)[OF m b fresh[OF that]])
  have "clear (s\<lparr>hp := h\<rparr>) st" if x: "x \<in> set vs" and st: "object_get_ex h x ''stats'' = Some st" for x st
  proof -
    obtain kvs where kvs: "node_of h x = Some (Obj kvs)" "map_of kvs ''stats'' = Some st" using object_get_ex_SomeD[OF st] by blast
    then have "st \<in> children (Obj kvs)" by (auto dest: map_of_SomeD intro: rev_image_eqI)
    then have "plain st \<or> st \<in> ?R" using R fresh[OF x] kvs(1) unfolding region_def by blast
    moreover have "is_obj h st" using ex[OF x] st by (simp add: export_at_def stat_entry_ok_def)
    ultimately have "st \<in> ?R" by (auto simp: is_obj_def plain_def dest: node_of_ref)
    then show ?thesis by (rule build_later(3)[OF m b])
  qed
  then show ?thesis unfolding exports_at_def using vs(1) dist ex cl by auto
qed

lemma rep_update:
  assumes m: "maps_ok s" and b: "build t (hp s) = (v, h)"
    and w: "newer (hp s) h w" "rep h w u" "update_typed u"
  shows "update_ok (s\<lparr>hp := h\<rparr>) (object_get_ex h w)"
proof (cases "is_object u")
  case False
  then have "object_get_ex h w = Map.empty" using rep_not_object[OF w(2)] by (simp add: fun_eq_iff)
  then show ?thesis by (simp add: update_ok_def scalars_def plain_class_def data_field_def)
next
  case True
  then obtain fs where u: "u = TObject fs" by (cases u) (auto simp: is_object_def)
  have r: "rep h w (TObject fs)" using w(2) u by simp
  have f: "map_of fs ''hostname'' \<noteq> Some TNull" "map_of fs ''nid'' \<noteq> Some TNull"
    "list_all (field_is is_plain fs) [''time'', ''hostname'', ''system'', ''jid'', ''uid'']"
    "field_is is_class_text fs ''obdclass''" "field_is data_typed fs ''data''"
    "map_of fs ''data'' \<noteq> None \<Longrightarrow> map_of fs ''time'' \<noteq> None \<and> map_of fs ''obdclass'' \<noteq> None"
    using w(3) by (simp_all add: update_typed_def u)
  note look = rep_field_is[OF r]
  have null: "object_get_ex h w k \<noteq> Some JNull" if "map_of fs k \<noteq> Some TNull" for k
  proof
    assume "object_get_ex h w k = Some JNull"
    from rep_field(1)[OF r this] obtain x where "map_of fs k = Some x" "rep h JNull x" by blast
    with that show False by (cases x) (auto split: option.splits node.splits)
  qed
  have "plain_class (object_get_ex h w)"
    unfolding plain_class_def
  proof (intro allI impI)
    fix x
    assume "object_get_ex h w ''obdclass'' = Some x"
    from look[OF f(4) this] obtain y where "is_class_text y" "rep h x y" by blast
    then show "\<exists>c. x = JString c \<and> CHR ''%'' \<notin> set c \<and> length c < 32" by (cases y) (auto simp: is_class_text_def)
  qed
  moreover have "data_field (s\<lparr>hp := h\<rparr>) (object_get_ex h w)"
    unfolding data_field_def
  proof (intro allI impI conjI)
    fix d
    assume d: "object_get_ex h w ''data'' = Some d"
    from look[OF f(5) d] obtain y where y: "data_typed y" "rep h d y" by blast
    then obtain ts where ts: "y = TArray ts" "list_all export_typed ts" by (cases y) (auto simp: data_typed_def)
    have "d \<in> fresh_nodes (hp s) h"
    proof -
      obtain kvs where kvs: "node_of h w = Some (Obj kvs)" "map_of kvs ''data'' = Some d" using object_get_ex_SomeD[OF d] by blast
      then have "w \<in> fresh_nodes (hp s) h" using w(1) by (auto simp: newer_iff plain_def dest: node_of_ref)
      moreover have "d \<in> children (Obj kvs)" using kvs(2) by (auto dest: map_of_SomeD intro: rev_image_eqI)
      ultimately have "plain d \<or> d \<in> fresh_nodes (hp s) h"
        using build_region(1)[OF b] kvs(1) unfolding region_def by blast
      moreover have "\<not> plain d" using y(2) ts(1) by (auto simp: plain_def split: option.splits dest: node_of_ref)
      ultimately show ?thesis by blast
    qed
    then show "exports_at (s\<lparr>hp := h\<rparr>) d" using rep_exports[OF m b] y(2) ts by simp
    have "map_of fs ''data'' \<noteq> None" using d rep_field(2)[OF r, of "''data''"] by simp
    then show "object_get_ex h w ''time'' \<noteq> None" "object_get_ex h w ''obdclass'' \<noteq> None"
      using f(6) rep_field(2)[OF r, of "''time''"] rep_field(2)[OF r, of "''obdclass''"] by simp_all
  qed
  ultimately show ?thesis
    unfolding update_ok_def using null f(1,2) rep_scalars[OF r f(3)] by blast
qed

lemma parsed_pending:
  assumes m: "maps_ok s" and b: "build t (hp s) = (v, h)"
    and ws: "\<forall>w \<in> set ws. newer (hp s) h w \<and> update_ok (s\<lparr>hp := h\<rparr>) (object_get_ex h w)"
    and apart: "sorted_wrt (\<lambda>a b. \<forall>x \<in> set (elems h a) \<inter> set (elems h b). plain x) ws"
  shows "pending (s\<lparr>hp := h\<rparr>) ws"
proof -
  let ?s = "s\<lparr>hp := h\<rparr>"
  have ho: "hosts_ok s" by (rule maps_okD(1)[OF m])
  have ob: "is_obj (hp t) x" if "data_field t (object_get_ex (hp t) c)" "x \<in> set (elems (hp t) c)" for t c x
    using elems_member[OF that(2)] that(1) by (auto simp: data_field_def exports_at_def export_at_def)
  then have ref: "\<not> plain x" if "data_field t (object_get_ex (hp t) c)" "x \<in> set (elems (hp t) c)" for t c x
    using that by (fastforce simp: is_obj_def plain_def dest: node_of_ref)
  have node: "is_obj (hp s) x" if e: "entry_of s k = Some e" "x \<in> set (elems (hp s) e)" for k e x
    using ob[OF _ e(2)] maps_okD(4)[OF m e(1)] by (simp add: host_ok_def)
  have fresh: "x \<in> fresh_nodes (hp s) h" if w: "w \<in> set ws" "x \<in> set (elems h w)" for w x
  proof -
    have "plain x \<or> x \<in> fresh_nodes (hp s) h"
      by (rule region_elems[OF build_region(1)[OF b] _ w(2)]) (use ws w(1) in \<open>auto simp: newer_iff\<close>)
    moreover have "data_field ?s (object_get_ex (hp ?s) w)" using ws w(1) by (auto simp: update_ok_def)
    from ref[OF this] have "\<not> plain x" using w(2) by simp
    ultimately show ?thesis by blast
  qed
  have "set (elems h w) \<inter> set (elems h e) = {}" if "w \<in> set ws" "entry_of s k = Some e" for w k e
    using fresh[OF that(1)] node[OF that(2)] build_later(4)[OF m b that(2)]
    by (fastforce simp: fresh_nodes_def is_obj_def dest: node_of_ref)
  moreover have "sorted_wrt (\<lambda>a b. set (elems h a) \<inter> set (elems h b) = {}) ws"
    by (rule sorted_wrt_mono_rel[OF _ apart]) (use fresh in \<open>fastforce simp: fresh_nodes_def plain_def\<close>)
  moreover have "outside ?s w \<and> settled h w" if "w \<in> set ws" for w
    using build_outside(2)[OF ho b] ws that by blast
  ultimately show ?thesis unfolding pending_def build_outside(3)[OF ho b] using ws by auto
qed

section \<open>Whole RPCs\<close>

lemma update_host_map_keeps_ok:
  assumes m: "maps_ok s" and t: "of_json E rpc = Some t" "canon t" "report_typed t"
  shows "ok (update_host_map E rpc s) (\<lambda>(rc, s'). maps_ok s')"
proof -
  obtain v h where b: "build t (hp s) = (v, h)" by fastforce
  let ?s = "s\<lparr>hp := h\<rparr>"
  have r: "rep h v t" by (rule build_rep(1)[OF b t(2)])
  have eq: "tokener_parse E rpc (hp s) = Some (v, h)" using t(1) b by (simp add: tokener_parse_def)
  have m': "maps_ok ?s" by (rule build_later(2)[OF m b])
  show ?thesis
  proof (cases "arr_of h v")
    case None
    then have "update_typed t" using t(3) r by (cases t) (auto simp: report_typed_def arr_of_def split: option.splits node.splits)
    then have "pending ?s [v]" using build_frame(1)[OF b] r rep_update[OF m b] by (intro parsed_pending[OF m b]) auto
    from update_host_entry_keeps[OF m' this, of E] show ?thesis
      using None eq by (auto simp: update_host_map_def elim!: okE)
  next
    case (Some vs)
    then obtain ts where ts: "t = TArray ts" "rep_list h vs ts"
      using r by (cases t) (auto simp: arr_of_def split: option.splits node.splits)
    obtain h1 where b1: "build_list ts (hp s) = (vs, h1)" "h = push (Arr vs) h1"
      using b Some ts(1) by (auto simp: new_node_def arr_of_def split: prod.splits)
    have "pending ?s vs"
    proof (rule parsed_pending[OF m b])
      show "\<forall>w \<in> set vs. newer (hp s) h w \<and> update_ok ?s (object_get_ex h w)"
      proof
        fix w
        assume w: "w \<in> set vs"
        have n: "newer (hp s) h w" using build_frame(2)[OF b1(1)] w b1(2) by (auto simp: newer_def)
        obtain u where "u \<in> set ts" "rep h w u" using rep_list_member[OF ts(2) w] by blast
        then show "newer (hp s) h w \<and> update_ok ?s (object_get_ex h w)"
          using n rep_update[OF m b n] t(3) by (auto simp: report_typed_def ts(1) list_all_iff)
      qed
      show "sorted_wrt (\<lambda>a b. \<forall>x \<in> set (elems h a) \<inter> set (elems h b). plain x) vs"
      proof (rule sorted_wrt_mono_rel[OF _ build_list_apart[OF b1(1)]])
        have k: "keeps {} h1 h" by (simp add: b1(2))
        have el: "elems h w = elems h1 w" if "w \<in> set vs" for w
          by (rule elems_kept[OF build_region(2)[OF b1(1)] _ k]) (use build_frame(2)[OF b1(1)] that in blast)
        fix a c
        assume "a \<in> set vs" "c \<in> set vs" "\<forall>x \<in> set (elems h1 a) \<inter> set (elems h1 c). plain x"
        then show "\<forall>x \<in> set (elems h a) \<inter> set (elems h c). plain x" using el by simp
      qed
    qed
    from update_all_keeps[OF m' this, of E] show ?thesis
      using Some eq by (auto simp: update_host_map_def elim!: okE)
  qed
qed

text \<open>The buffer after a connection, and what a peer may send: a buffer with a NUL, whose text is no json or a
  report of the right type.\<close>

definition request_buffer :: "segment list option \<Rightarrow> string option" where
  "request_buffer conn =
    (let (buf, good) = recv_loop socket_buffersize [] (case conn of None \<Rightarrow> [Fail] | Some segs \<Rightarrow> segs)
     in if good then Some (buf @ replicate (socket_buffersize - length buf) nul) else None)"

definition conn_ok :: "env \<Rightarrow> segment list option \<Rightarrow> bool" where
  "conn_ok E conn \<longleftrightarrow>
    (case request_buffer conn of None \<Rightarrow> True
     | Some request \<Rightarrow> nul \<in> set request \<and>
         (case of_json E (c_string request) of None \<Rightarrow> True | Some t \<Rightarrow> canon t \<and> report_typed t))"

lemma sock_rpc_buffer:
  "sock_rpc E conn s =
    (case request_buffer conn of None \<Rightarrow> Some s
     | Some request \<Rightarrow> if nul \<notin> set request then None else map_option snd (process_rpc E (c_string request) s))"
  by (simp add: sock_rpc_def request_buffer_def Let_def split: prod.split)

lemma short_conn_ok:
  assumes "payload (case conn of None \<Rightarrow> [Fail] | Some segs \<Rightarrow> segs) < socket_buffersize" "request_buffer conn = Some request"
  shows "nul \<in> set request"
proof -
  have "length (fst (recv_loop socket_buffersize [] (case conn of None \<Rightarrow> [Fail] | Some segs \<Rightarrow> segs))) < socket_buffersize"
    using recv_loop_length[of socket_buffersize "[]"] assms(1) by (metis add_0 le_less_trans list.size(3))
  then show ?thesis using assms(2) by (auto simp: request_buffer_def Let_def split: prod.splits if_splits)
qed

lemma sock_rpc_keeps:
  assumes "maps_ok s" "conn_ok E conn"
  shows "ok (sock_rpc E conn s) maps_ok"
proof (cases "request_buffer conn")
  case None
  then show ?thesis using assms(1) by (simp add: sock_rpc_buffer)
next
  case (Some request)
  with assms(2) have z: "nul \<in> set request" by (simp add: conn_ok_def)
  have "ok (process_rpc E (c_string request) s) (\<lambda>(rc, s'). maps_ok s')"
  proof (cases "of_json E (c_string request)")
    case None
    then show ?thesis using assms(1) by (simp add: process_rpc_def update_host_map_def tokener_parse_def)
  next
    case t: (Some t)
    then have "canon t" "report_typed t" using assms(2) Some by (simp_all add: conn_ok_def)
    from update_host_map_keeps_ok[OF assms(1) t this] show ?thesis
      using assms(1) by (auto simp: process_rpc_def elim!: okE)
  qed
  then show ?thesis using z Some by (auto simp: sock_rpc_buffer elim!: okE)
qed

end
