(* ===== verification/Upkeep.thy ===== *)
theory Upkeep
  imports Intake
begin

text \<open>
  The two passes of a tick, \<open>tag_stats\<close> and \<open>group_statsbytags\<close>, keep \<open>maps_ok\<close>: what an RPC needs
  in order to be processed and what the next tick needs holds after every tick as well.
\<close>

section \<open>Maps whose nodes are not written\<close>

lemma hosts_ok_same:
  assumes ho: "hosts_ok s" and f: "host_map s' = host_map s" "nid_map s' = nid_map s"
    and n: "node_of (hp s') (host_map s) = node_of (hp s) (host_map s)"
      "node_of (hp s') (nid_map s) = node_of (hp s) (nid_map s)"
    and o': "\<And>v. is_obj (hp s) v \<Longrightarrow> is_obj (hp s') v"
  shows "hosts_ok s'" "entry_of s' = entry_of s" "outside s' v = outside s v"
proof -
  have get: "object_get_ex (hp s') (host_map s) = object_get_ex (hp s) (host_map s)"
    "object_get_ex (hp s') (nid_map s) = object_get_ex (hp s) (nid_map s)"
    by (rule same_node_get[OF n(1)], rule same_node_get[OF n(2)])
  show ent: "entry_of s' = entry_of s" using f get by (simp add: entry_of_def fun_eq_iff)
  have nid: "nid_entry_of s' = nid_entry_of s" using f get by (simp add: nid_entry_of_def fun_eq_iff)
  show "outside s' v = outside s v" by (simp add: outside_def ent f)
  show "hosts_ok s'"
    using ho o' unfolding hosts_ok_def ent nid f n by blast
qed

section \<open>Tagging\<close>

lemma maps_ok_exports:
  assumes "maps_ok s" "entry_of s k = Some e"
  shows "object_get_ex (hp s) e ''data'' = Some d \<Longrightarrow> exports_at s d"
    and "object_get_ex (hp s) e ''odata'' = Some d \<Longrightarrow> exports_at s d"
  using maps_okD(4)[OF assms] by (auto simp: host_ok_def data_field_def)

lemma maps_ok_data:
  assumes "maps_ok s"
  shows "data_ok s"
  unfolding data_ok_def
proof (intro conjI allI impI)
  show "set (elems (hp s) e) \<inter> set (elems (hp s) e') = {}"
    if "entry_of s j = Some e" "entry_of s k = Some e'" "j \<noteq> k" for j k e e'
    by (rule maps_okD(5)[OF assms that])
  show "\<exists>vs. node_of (hp s) d = Some (Arr vs) \<and> distinct vs \<and>
      (\<forall>v \<in> set vs. outside s v \<and> is_obj (hp s) v \<and> entry_ok (fields_at (hp s) v))"
    if "entry_of s k = Some e" "object_get_ex (hp s) e ''data'' = Some d" for k e d
    using maps_ok_exports(1)[OF assms that] unfolding exports_at_def export_at_def clear_def by blast
qed

lemma entry_elems:
  assumes "maps_ok s" "entry_of s k = Some e" "v \<in> set (elems (hp s) e)"
  shows "export_at (hp s) v" "clear s v"
proof -
  obtain d vs where "object_get_ex (hp s) e ''data'' = Some d" "node_of (hp s) d = Some (Arr vs)" "v \<in> set vs"
    using elems_member[OF assms(3)] by blast
  then show "export_at (hp s) v" "clear s v"
    using maps_ok_exports(1)[OF assms(1,2)] unfolding exports_at_def by auto
qed

text \<open>Tagging an entry of a report keeps its type.\<close>

lemma scalars_tagged:
  assumes "scalars group_keys (map_of kvs)"
    and "\<And>n get. nids n = Some get \<Longrightarrow> scalars [''hid'', ''system'', ''jid'', ''uid''] get"
  shows "scalars group_keys (map_of (tagged nids server kvs))"
  unfolding scalars_def
proof (intro ballI allI impI)
  fix k x
  assume k: "k \<in> set group_keys" and x: "map_of (tagged nids server kvs) k = Some x"
  show "scalar x"
  proof (cases "\<exists>nid. map_of kvs ''client_nid'' = Some (JString nid)")
    case False
    have "tagged nids server kvs = AList.update ''server'' (JString server) kvs"
    proof (cases "map_of kvs ''client_nid''")
      case None
      then show ?thesis by (simp add: tagged_def Let_def)
    next
      case (Some v)
      then show ?thesis using False by (cases v) (simp_all add: tagged_def Let_def)
    qed
    then show ?thesis using x k assms(1) by (cases "k = ''server''") (auto simp: scalars_def scalar_def)
  next
    case True
    then obtain nid where nid: "map_of kvs ''client_nid'' = Some (JString nid)" by blast
    have "(j, j) \<in> set nid_tags" if "j \<in> {''system'', ''jid'', ''uid''}" for j using that by (auto simp: nid_tags_def)
    moreover have "k \<in> {''system'', ''fid'', ''server'', ''jid'', ''uid''}" using k by (simp add: group_keys_def)
    ultimately consider "k = ''server''" | "k = ''fid''" | "(k, k) \<in> set nid_tags" "k \<in> {''system'', ''jid'', ''uid''}"
      by blast
    then show ?thesis
    proof cases
      case 1
      then show ?thesis using x by (auto simp: map_of_tagged_server scalar_def)
    next
      case 2
      define kvs2 where "kvs2 = wildcards (JString nid) (AList.update ''server'' (JString server) kvs)"
      define kvs3 where "kvs3 = (case nids nid of None \<Rightarrow> kvs2 | Some get \<Rightarrow> copied get nid_tags kvs2)"
      have t: "tagged nids server kvs = (case map_of kvs3 ''target'' of
          Some (JString t) \<Rightarrow> AList.update ''fid'' (JString (take (min 31 (length t) - 8) t)) kvs3 | _ \<Rightarrow> kvs3)"
        unfolding tagged_def Let_def kvs2_def kvs3_def using nid by simp
      have "''fid'' \<notin> snd ` set nid_tags" by (simp add: nid_tags_def)
      then have "map_of kvs3 ''fid'' = Some (JString ''*'')"
        by (cases "nids nid") (simp_all add: kvs3_def kvs2_def map_of_copied_other wildcards_def)
      then have "\<exists>s. map_of (tagged nids server kvs) ''fid'' = Some (JString s)"
        unfolding t by (simp split: option.split jval.split)
      then show ?thesis using x 2 by (auto simp: scalar_def)
    next
      case 3
      then have "Some x = Some (case nids nid of None \<Rightarrow> tag_default nid k
          | Some get \<Rightarrow> (case get k of None \<Rightarrow> tag_default nid k | Some y \<Rightarrow> y))"
        using map_of_tagged_tag[OF 3(1) nid] x by simp
      moreover have "scalar (tag_default nid k)" by (simp add: tag_default_def scalar_def)
      moreover have "scalar y" if "nids nid = Some get" "get k = Some y" for get y
        using assms(2)[OF that(1)] that(2) 3(2) by (auto simp: scalars_def)
      ultimately show ?thesis by (auto split: option.splits)
    qed
  qed
qed

lemma export_tagged:
  assumes v: "export_at h v" and n: "node_of h' v = Some (Obj (tagged nids server (fields_at h v)))"
    and o': "\<And>x. is_obj h x \<Longrightarrow> is_obj h' x" and len: "length h' = length h"
    and nids: "\<And>n get. nids n = Some get \<Longrightarrow> scalars [''hid'', ''system'', ''jid'', ''uid''] get"
  shows "export_at h' v" "object_get_ex h' v ''stats'' = object_get_ex h v ''stats''"
proof -
  have f: "fields_at h' v = tagged nids server (fields_at h v)" using n by simp
  have get: "object_get_ex h' v = map_of (tagged nids server (fields_at h v))" using n by (simp add: fun_eq_iff)
  have same: "object_get_ex h' v k = object_get_ex h v k"
    if "k \<notin> {''server'', ''client'', ''system'', ''jid'', ''uid'', ''fid''}" for k
    unfolding get map_of_tagged_other[OF that] map_of_fields_at ..
  show "object_get_ex h' v ''stats'' = object_get_ex h v ''stats''" by (rule same) simp
  have k: "object_get_ex h' v k = object_get_ex h v k" if "k \<in> {''stats_type'', ''client_nid'', ''target'', ''stats''}" for k
    by (rule same) (use that in auto)
  have st: "stat_entry_ok h v" using v by (simp add: export_at_def)
  have "settled h' v" using st len by (simp add: stat_entry_ok_def settled_def)
  then have "stat_entry_ok h' v"
    using st o' unfolding stat_entry_ok_def by (simp add: k)
  moreover have "scalars group_keys (object_get_ex h' v)"
    unfolding get by (rule scalars_tagged[OF _ nids]) (use v in \<open>simp_all add: export_at_def map_of_fields_at\<close>)
  ultimately show "export_at h' v"
    using v n entry_ok_tagged unfolding export_at_def f by (auto simp: is_obj_def)
qed

text \<open>The store after the pass.\<close>

lemma tagged_nodes:
  assumes m: "maps_ok s" and hm: "node_of (hp s) (host_map s) = Some (Obj hosts)" and h: "tagged_upto s hosts h"
  shows "\<not> (export_at (hp s) v \<and> clear s v) \<Longrightarrow> node_of h v = node_of (hp s) v"
    and "is_obj (hp s) v \<Longrightarrow> is_obj h v"
proof -
  note new = tagged_upto_unfold(1)[OF maps_okD(1)[OF m] hm h] and rest = tagged_upto_unfold(2)[OF maps_okD(1)[OF m] hm h]
  show "node_of h v = node_of (hp s) v" if "\<not> (export_at (hp s) v \<and> clear s v)"
    by (rule rest) (use entry_elems[OF m] that in blast)
  show "is_obj h v" if "is_obj (hp s) v"
  proof (cases "\<exists>k e. entry_of s k = Some e \<and> v \<in> set (elems (hp s) e)")
    case True
    then show ?thesis using new by (auto simp: is_obj_def)
  next
    case False
    then have "node_of h v = node_of (hp s) v" using rest[of v] by blast
    then show ?thesis using that by (simp add: is_obj_def)
  qed
qed

lemma tagged_maps:
  assumes m: "maps_ok s" and hm: "node_of (hp s) (host_map s) = Some (Obj hosts)" and h: "tagged_upto s hosts h"
  shows "hosts_ok (s\<lparr>hp := h\<rparr>)" "entry_of (s\<lparr>hp := h\<rparr>) = entry_of s" "outside (s\<lparr>hp := h\<rparr>) v = outside s v"
    "clear (s\<lparr>hp := h\<rparr>) v = clear s v" "entry_of s k = Some e \<Longrightarrow> object_get_ex h e = object_get_ex (hp s) e"
proof -
  note same = tagged_nodes(1)[OF m hm h] and ob = tagged_nodes(2)[OF m hm h]
  have unclear: "\<not> clear s (host_map s)" "\<not> clear s (nid_map s)" "entry_of s k = Some e \<Longrightarrow> \<not> clear s e" for k e
    by (auto simp: clear_def outside_def)
  have "hosts_ok (s\<lparr>hp := h\<rparr>) \<and> entry_of (s\<lparr>hp := h\<rparr>) = entry_of s \<and> (\<forall>v. outside (s\<lparr>hp := h\<rparr>) v = outside s v)"
    using hosts_ok_same[OF maps_okD(1)[OF m], of "s\<lparr>hp := h\<rparr>"] same unclear(1,2) ob by simp
  then show "hosts_ok (s\<lparr>hp := h\<rparr>)" "entry_of (s\<lparr>hp := h\<rparr>) = entry_of s" and o: "outside (s\<lparr>hp := h\<rparr>) v = outside s v"
    by blast+
  show "clear (s\<lparr>hp := h\<rparr>) v = clear s v" by (simp add: clear_def o)
  show "object_get_ex h e = object_get_ex (hp s) e" if "entry_of s k = Some e"
    by (rule same_node_get[OF same]) (use unclear(3)[OF that] in blast)
qed

lemma nid_lookup_scalars:
  assumes m: "maps_ok s" and look: "nid_lookup (hp s) (nid_map s) n = Some get"
  shows "scalars [''hid'', ''system'', ''jid'', ''uid''] get"
proof -
  obtain w where w: "nid_entry_of s n = Some w" "get = object_get_ex (hp s) w"
    using look unfolding nid_lookup_def nid_entry_of_def by (cases "object_get_ex (hp s) (nid_map s) n") simp_all
  then obtain k where "entry_of s k = Some w" using hosts_okD(7)[OF maps_okD(1)[OF m]] by blast
  from maps_okD(4)[OF m this] show ?thesis using w(2) by (simp add: host_ok_def scalars_def)
qed

lemma tagged_exports:
  assumes m: "maps_ok s" and hm: "node_of (hp s) (host_map s) = Some (Obj hosts)" and h: "tagged_upto s hosts h"
  shows "export_at (hp s) v \<Longrightarrow> export_at h v \<and> object_get_ex h v ''stats'' = object_get_ex (hp s) v ''stats''"
    and "exports_at s d \<Longrightarrow> exports_at (s\<lparr>hp := h\<rparr>) d"
proof -
  have len: "length h = length (hp s)" using h by (simp add: tagged_upto_def)
  note new = tagged_upto_unfold[OF maps_okD(1)[OF m] hm h] and ob = tagged_nodes(2)[OF m hm h]
  show ex: "export_at h v \<and> object_get_ex h v ''stats'' = object_get_ex (hp s) v ''stats''" if v: "export_at (hp s) v" for v
  proof (cases "\<exists>k e. entry_of s k = Some e \<and> v \<in> set (elems (hp s) e)")
    case True
    then obtain k e where e: "entry_of s k = Some e" "v \<in> set (elems (hp s) e)" by blast
    show ?thesis using export_tagged[OF v new(1)[OF e] _ len] ob nid_lookup_scalars[OF m] by blast
  next
    case False
    then have n: "node_of h v = node_of (hp s) v" using new(2)[of v] by blast
    have "export_at h v" by (rule export_at_mono[OF v _ ob n]) (simp_all add: len)
    then show ?thesis using same_node_get[OF n] by simp
  qed
  assume d: "exports_at s d"
  obtain vs where vs: "node_of (hp s) d = Some (Arr vs)" "distinct vs"
    "\<forall>v \<in> set vs. export_at (hp s) v \<and> clear s v \<and> (\<forall>st. object_get_ex (hp s) v ''stats'' = Some st \<longrightarrow> clear s st)"
    using d unfolding exports_at_def by blast
  have "\<not> export_at (hp s) d" using vs(1) by (auto simp: export_at_def is_obj_def)
  then have "node_of h d = Some (Arr vs)" using tagged_nodes(1)[OF m hm h, of d] vs(1) by simp
  then show "exports_at (s\<lparr>hp := h\<rparr>) d" using vs(2,3) ex unfolding exports_at_def tagged_maps(4)[OF m hm h] by auto
qed

lemma tag_stats_keeps:
  assumes m: "maps_ok s"
  shows "ok (tag_stats E s) maps_ok"
proof -
  have ho: "hosts_ok s" and da: "data_ok s" by (rule maps_okD(1)[OF m], rule maps_ok_data[OF m])
  obtain hosts where hm: "node_of (hp s) (host_map s) = Some (Obj hosts)" using hosts_okD(1)[OF ho] by blast
  obtain h where h: "tag_stats E s = Some (s\<lparr>hp := h\<rparr>)" "tagged_upto s hosts h"
    using tag_stats_spec[OF ho da hm, of E] by (auto elim: okE)
  note same = tagged_nodes(1)[OF m hm h(2)] and ob = tagged_nodes(2)[OF m hm h(2)] and t = tagged_maps[OF m hm h(2)]
  have el: "elems h e = elems (hp s) e" if e: "entry_of s k = Some e" for k e
  proof (rule elems_data)
    show "object_get_ex h e ''data'' = object_get_ex (hp s) e ''data''" using t(5)[OF e] by simp
    show "node_of h d = Some (Arr vs)" if "node_of (hp s) d = Some (Arr vs)" for d vs
      using same[of d] that by (auto simp: export_at_def is_obj_def)
    show "\<exists>vs. node_of (hp s) d = Some (Arr vs)" if "object_get_ex (hp s) e ''data'' = Some d" for d
      using maps_ok_exports(1)[OF m e that] by (auto simp: exports_at_def)
  qed
  have "host_ok (s\<lparr>hp := h\<rparr>) (object_get_ex h e)" if e: "entry_of s k = Some e" for k e
    using maps_okD(4)[OF m e] tagged_exports(2)[OF m hm h(2)] unfolding t(5)[OF e] host_ok_def data_field_def by blast
  moreover have "set (elems h e) \<inter> set (elems h e') = {}"
    if "entry_of s i = Some e" "entry_of s j = Some e'" "i \<noteq> j" for i j e e'
    using maps_okD(5)[OF m that] el that by simp
  ultimately have "maps_ok (s\<lparr>hp := h\<rparr>)"
    unfolding maps_ok_def t(2) using t(1) ob[OF maps_okD(2)[OF m]] maps_okD(3)[OF m] by (auto simp: t(3))
  then show ?thesis using h(1) by simp
qed

section \<open>Grouping\<close>

lemma maps_ok_later:
  assumes m: "maps_ok s" and l: "later S s s'" and hs: "hosts_ok s'" and ent: "entry_of s' = entry_of s"
    and rm: "server_tag_rate_map s' = server_tag_rate_map s" and out: "\<And>v. outside s' v = outside s v"
    and host: "\<And>k e. entry_of s k = Some e \<Longrightarrow> host_ok s (object_get_ex (hp s') e) \<and>
      object_get_ex (hp s') e ''data'' = object_get_ex (hp s) e ''data''"
  shows "maps_ok s'"
proof -
  have k: "keeps S (hp s) (hp s')" using l by (simp add: later_def)
  have el: "elems (hp s') e = elems (hp s) e" if e: "entry_of s k = Some e" for k e
    by (rule elems_later[OF l]) (use host[OF e] maps_okD(4)[OF m e] in \<open>simp_all add: host_ok_def\<close>)
  have "host_ok s' (object_get_ex (hp s') e)" if "entry_of s k = Some e" for k e
    using host_ok_later[OF _ l] host[OF that] by blast
  moreover have "set (elems (hp s') e) \<inter> set (elems (hp s') e') = {}"
    if "entry_of s i = Some e" "entry_of s j = Some e'" "i \<noteq> j" for i j e e'
    using maps_okD(5)[OF m that] el that by simp
  ultimately show ?thesis
    unfolding maps_ok_def ent rm out using hs is_obj_keeps_arr[OF k maps_okD(2)[OF m]] maps_okD(3)[OF m] by blast
qed

lemma host_ok_moved:
  assumes "host_ok s (object_get_ex h e)" "entry_moved h e g"
  shows "host_ok s (object_get_ex g e)" "object_get_ex g e ''data'' = object_get_ex h e ''data''"
proof -
  have same: "object_get_ex g e k = object_get_ex h e k" if "k \<notin> {''rates'', ''otime'', ''odata''}" for k
    using assms(2) that unfolding entry_moved_def by blast
  show d: "object_get_ex g e ''data'' = object_get_ex h e ''data''" by (rule same) simp
  have o1: "object_get_ex g e ''otime'' \<in> {object_get_ex h e ''otime'', object_get_ex h e ''time''}"
    and o2: "object_get_ex g e ''odata'' \<in> {object_get_ex h e ''odata'', object_get_ex h e ''data''}"
    using assms(2) by (simp_all add: entry_moved_def)
  have "scalars [''time'', ''otime'', ''hid'', ''system'', ''jid'', ''uid''] (object_get_ex g e)"
    unfolding scalars_def
  proof (intro ballI allI impI)
    fix k x
    assume k: "k \<in> set [''time'', ''otime'', ''hid'', ''system'', ''jid'', ''uid'']" and x: "object_get_ex g e k = Some x"
    have old: "scalar x" if "object_get_ex h e j = Some x" "j \<in> set [''time'', ''otime'', ''hid'', ''system'', ''jid'', ''uid'']" for j
      using assms(1) that unfolding host_ok_def scalars_def by blast
    show "scalar x"
    proof (cases "k = ''otime''")
      case True
      then show ?thesis using x o1 old[of "''otime''"] old[of "''time''"] by auto
    next
      case False
      then have "k \<notin> {''rates'', ''otime'', ''odata''}" using k by auto
      then have "object_get_ex h e k = Some x" using x same by simp
      then show ?thesis using old k by blast
    qed
  qed
  moreover have "plain_class (object_get_ex g e)" using assms(1) by (simp add: host_ok_def plain_class_def same)
  moreover have "data_field s (object_get_ex g e)" using assms(1) by (simp add: host_ok_def data_field_def same)
  moreover have "\<forall>d. object_get_ex g e ''odata'' = Some d \<longrightarrow> exports_at s d"
    using assms(1) o2 by (auto simp: host_ok_def data_field_def)
  ultimately show "host_ok s (object_get_ex g e)" by (simp add: host_ok_def)
qed

lemma exports_ready:
  assumes "exports_at s d" "\<And>w. w \<in> W \<Longrightarrow> \<not> clear s w" "fst ` set tkvs \<subseteq> set group_keys"
  shows "\<exists>vs. node_of (hp s) d = Some (Arr vs) \<and> report_entries_ok (hp s) vs \<and> scalar_tags (hp s) tkvs vs \<and> apart (hp s) W vs"
proof -
  obtain vs where vs: "node_of (hp s) d = Some (Arr vs)"
    "\<forall>v \<in> set vs. export_at (hp s) v \<and> clear s v \<and> (\<forall>st. object_get_ex (hp s) v ''stats'' = Some st \<longrightarrow> clear s st)"
    using assms(1) unfolding exports_at_def by blast
  have "report_entries_ok (hp s) vs" using vs(2) by (simp add: report_entries_ok_def export_at_def)
  moreover have "scalar_tags (hp s) tkvs vs" using vs(2) assms(3) unfolding scalar_tags_def export_at_def scalars_def by blast
  moreover have "apart (hp s) W vs" using vs(2) assms(2) unfolding apart_def by blast
  ultimately show ?thesis using vs(1) by blast
qed

lemma host_ok_ready:
  assumes h: "host_ok s (object_get_ex (hp s) e)" and W: "\<And>w. w \<in> W \<Longrightarrow> \<not> clear s w"
    and t: "fst ` set tkvs \<subseteq> set group_keys"
  shows "host_ready E (hp s) tkvs W e"
  unfolding host_ready_def
proof (intro allI impI)
  fix ntime nda oda idt
  assume "report_of E (hp s) e = New ntime nda oda idt"
  note new = report_of_new[OF this]
  have ex: "exports_at s nda" "exports_at s oda" and cl: "object_get_ex (hp s) e ''obdclass'' \<noteq> None"
    and time: "scalar ntime"
    using h new by (auto simp: host_ok_def data_field_def scalars_def)
  obtain ndes where n: "node_of (hp s) nda = Some (Arr ndes)" "report_entries_ok (hp s) ndes" "scalar_tags (hp s) tkvs ndes"
    "apart (hp s) W ndes"
    using exports_ready[OF ex(1) W t] by blast
  obtain odes where od: "node_of (hp s) oda = Some (Arr odes)" "report_entries_ok (hp s) odes" "apart (hp s) W odes"
    using exports_ready[OF ex(2) W t] by blast
  obtain c where "class_text (hp s) e c" using h cl by (auto simp: host_ok_def plain_class_def class_text_def)
  moreover have "''stats'' \<notin> fst ` set tkvs" using t by (auto simp: group_keys_def)
  ultimately show "\<exists>odes ndes c. report_ready (hp s) tkvs ntime nda oda odes ndes \<and> class_text (hp s) e c \<and>
      apart (hp s) W odes \<and> apart (hp s) W ndes"
    using n od time unfolding report_ready_def by blast
qed

text \<open>The pass over the hosts, from a store that holds the new tag tuple.\<close>

definition hosts_listed :: "stats \<Rightarrow> (string \<times> jval) list \<Rightarrow> bool" where
  "hosts_listed s hosts \<longleftrightarrow> node_of (hp s) (host_map s) = Some (Obj hosts) \<and>
    (\<forall>k e. entry_of s k = Some e \<longleftrightarrow> (k, e) \<in> set hosts)"

lemma hosts_listedI:
  assumes "hosts_ok s"
  obtains hosts where "hosts_listed s hosts"
proof -
  obtain hosts where h: "node_of (hp s) (host_map s) = Some (Obj hosts)" using hosts_okD(1)[OF assms] by blast
  then have "entry_of s k = Some e \<longleftrightarrow> (k, e) \<in> set hosts" for k e
    using hosts_okD(8)[OF assms h] by (simp add: entry_of_def)
  with h that show ?thesis unfolding hosts_listed_def by blast
qed

lemma tick_nodes_entries:
  assumes "hosts_listed s hosts"
  shows "w \<in> tick_nodes h rm hosts \<longleftrightarrow> w = rm \<or> (\<exists>k. entry_of s k = Some w)"
  using assms by (force simp: hosts_listed_def tick_nodes_def)

lemma maps_ok_tick_ready:
  assumes m: "maps_ok s" and hosts: "hosts_listed s hosts"
    and tuple: "node_of (hp s) tuple = Some (Obj tkvs)" "tuple \<noteq> server_tag_rate_map s" "\<And>k. entry_of s k \<noteq> Some tuple"
    and keys: "fst ` set tkvs \<subseteq> set group_keys" and texts: "no_time_text E tkvs"
  shows "tick_ready E (hp s) tuple tkvs (server_tag_rate_map s) hosts"
proof -
  let ?W = "tick_nodes (hp s) (server_tag_rate_map s) hosts"
  have hm: "node_of (hp s) (host_map s) = Some (Obj hosts)" and ent: "entry_of s k = Some e \<longleftrightarrow> (k, e) \<in> set hosts" for k e
    using hosts by (simp_all add: hosts_listed_def)
  note ho = maps_okD(1)[OF m] and W = tick_nodes_entries[OF hosts]
  have dk: "distinct (map fst hosts)" by (rule hosts_okD(8)[OF ho hm])
  have "inj_on snd (set hosts)" using ent hosts_okD(6)[OF ho] by (fastforce simp: inj_on_def)
  then have "distinct (map snd hosts)" using dk by (simp add: distinct_map)
  moreover have "server_tag_rate_map s \<notin> snd ` set hosts" using maps_okD(3)[OF m] ent by (auto simp: outside_def)
  moreover have "is_obj (hp s) w" if "w \<in> ?W" for w
    using that maps_okD(2)[OF m] hosts_okD(4)[OF ho] unfolding W by (auto simp: is_obj_def)
  moreover have "tuple \<notin> ?W" using tuple(2,3) W by blast
  moreover have "host_ready E (hp s) tkvs ?W e" if e: "e \<in> snd ` set hosts" for e
  proof (rule host_ok_ready[OF _ _ keys])
    obtain k where "entry_of s k = Some e" using e ent by force
    then show "host_ok s (object_get_ex (hp s) e)" by (rule maps_okD(4)[OF m])
    show "\<not> clear s w" if "w \<in> ?W" for w using that unfolding W by (auto simp: clear_def outside_def)
  qed
  ultimately show ?thesis unfolding tick_ready_def using texts dk tuple(1) by auto
qed

text \<open>The store after the pass.\<close>

lemma tick_keeps_maps:
  assumes m: "maps_ok s" and hosts: "hosts_listed s hosts"
    and g: "\<forall>p \<in> set hosts. entry_moved (hp s) (snd p) g" "keeps (tick_nodes (hp s) (server_tag_rate_map s) hosts) (hp s) g"
  shows "maps_ok (s\<lparr>hp := g\<rparr>)"
proof -
  let ?W = "tick_nodes (hp s) (server_tag_rate_map s) hosts" and ?s = "s\<lparr>hp := g\<rparr>"
  note ho = maps_okD(1)[OF m] and W = tick_nodes_entries[OF hosts]
  have notW: "host_map s \<notin> ?W" "nid_map s \<notin> ?W"
    using maps_okD(3)[OF m] hosts_okD(5)[OF ho] unfolding W by (auto simp: outside_def)
  have fixed: "node_of g w = node_of (hp s) w" if w: "node_of (hp s) w = Some n" "w \<notin> ?W" for w n
    using keeps_node[OF g(2) w] w(1) by simp
  have "hosts_ok ?s \<and> entry_of ?s = entry_of s \<and> (\<forall>v. outside ?s v = outside s v)"
    using hosts_ok_same[OF ho, of ?s] hosts_okD(1,2)[OF ho] fixed notW is_obj_keeps_arr[OF g(2)] by fastforce
  then have h: "hosts_ok ?s" "entry_of ?s = entry_of s" "\<And>v. outside ?s v = outside s v" by blast+
  have "later ?W s ?s"
    unfolding later_def
  proof (intro conjI ballI allI impI)
    show "keeps ?W (hp s) (hp ?s)" using g(2) by simp
    show "\<not> clear s w \<or> node_of (hp s) w = None" if "w \<in> ?W" for w using that unfolding W by (auto simp: clear_def outside_def)
    show "node_of (hp s) w \<noteq> Some (Arr vs)" if "w \<in> ?W" for w vs
      using that maps_okD(2)[OF m] hosts_okD(4)[OF ho] unfolding W by (fastforce simp: is_obj_def)
    show "clear ?s v" if "clear s v" for v using that h(3)[of v] by (simp add: clear_def)
  qed
  then show ?thesis
  proof (rule maps_ok_later[OF m _ h(1,2) _ h(3)])
    show "server_tag_rate_map ?s = server_tag_rate_map s" by simp
    fix k e
    assume e: "entry_of s k = Some e"
    then have "(k, e) \<in> set hosts" using hosts by (simp add: hosts_listed_def)
    then have "entry_moved (hp s) e g" using g(1) by fastforce
    from host_ok_moved[OF maps_okD(4)[OF m e] this]
    show "host_ok s (object_get_ex (hp ?s) e) \<and> object_get_ex (hp ?s) e ''data'' = object_get_ex (hp s) e ''data''"
      by simp
  qed
qed

text \<open>The new tag tuple is the last node of the store.\<close>

lemma new_tuple_keeps:
  assumes m: "maps_ok s"
  shows "maps_ok (s\<lparr>hp := push n (hp s), group_tags := t\<rparr>)" "entry_of (s\<lparr>hp := push n (hp s), group_tags := t\<rparr>) = entry_of s"
proof -
  let ?s1 = "s\<lparr>hp := push n (hp s), group_tags := t\<rparr>"
  have ho: "hosts_ok s" by (rule maps_okD(1)[OF m])
  have push: "keeps {} (hp s) (hp ?s1)" by simp
  have same1: "node_of (hp ?s1) v = node_of (hp s) v" if "is_obj (hp s) v" for v
    using that keeps_node[OF push] by (auto simp: is_obj_def)
  have "hosts_ok ?s1 \<and> entry_of ?s1 = entry_of s \<and> (\<forall>v. outside ?s1 v = outside s v)"
    using hosts_ok_same[OF ho, of ?s1] hosts_okD(1,2)[OF ho] is_obj_keeps_arr[OF push] same1 by (auto simp: is_obj_def)
  then have h1: "hosts_ok ?s1" "entry_of ?s1 = entry_of s" "\<And>v. outside ?s1 v = outside s v" by blast+
  have "object_get_ex (hp ?s1) e = object_get_ex (hp s) e" if "entry_of s k = Some e" for k e
    by (rule same_node_get[OF same1]) (use hosts_okD(4)[OF ho that] in \<open>auto simp: is_obj_def\<close>)
  moreover have "later {} s ?s1" by (simp add: later_def clear_def h1(3))
  ultimately show "maps_ok ?s1"
    by (intro maps_ok_later[OF m _ h1(1,2) _ h1(3)]) (use maps_okD(4)[OF m] in simp_all)
  show "entry_of ?s1 = entry_of s" by (rule h1(2))
qed

lemma group_statsbytags_keeps:
  assumes m: "maps_ok s" and texts: "no_time_text E (map (\<lambda>t. (t, JString '''')) group_keys)"
  shows "ok (group_statsbytags E group_keys s) maps_ok"
proof -
  let ?tkvs = "map (\<lambda>t. (t, JString '''')) group_keys" and ?tuple = "JRef (length (hp s))"
  let ?s1 = "s\<lparr>hp := push (Obj ?tkvs) (hp s), group_tags := ?tuple\<rparr>"
  have s1: "set_group_tags group_keys s = Some ?s1" by (rule set_group_tags_eq) (simp add: group_keys_def)
  note m1 = new_tuple_keeps[OF m, where n = "Obj ?tkvs" and t = ?tuple]
  obtain hosts where hosts: "hosts_listed ?s1 hosts" using hosts_listedI[OF maps_okD(1)[OF m1(1)]] by blast
  have new: "\<not> is_obj (hp s) ?tuple" by (simp add: is_obj_def)
  have "?tuple \<noteq> server_tag_rate_map ?s1" using new maps_okD(2)[OF m] by (intro notI) simp
  moreover have "entry_of ?s1 k \<noteq> Some ?tuple" for k
    using new hosts_okD(4)[OF maps_okD(1)[OF m], of k ?tuple] unfolding m1(2) by (auto simp: is_obj_def)
  ultimately have "tick_ready E (hp ?s1) ?tuple ?tkvs (server_tag_rate_map ?s1) hosts"
    by (intro maps_ok_tick_ready[OF m1(1) hosts _ _ _ _ texts]) auto
  then obtain g where g: "foldM (group_host E ?tuple (server_tag_rate_map s)) hosts (hp ?s1) = Some g"
    "\<forall>p \<in> set hosts. entry_moved (hp ?s1) (snd p) g" "keeps (tick_nodes (hp ?s1) (server_tag_rate_map ?s1) hosts) (hp ?s1) g"
    using tick_loop by (fastforce elim!: okE)
  have "group_statsbytags E group_keys s = Some (?s1\<lparr>hp := g\<rparr>)"
    using s1 hosts g(1) by (simp add: group_statsbytags_def hosts_listed_def)
  then show ?thesis using tick_keeps_maps[OF m1(1) hosts g(2,3)] by simp
qed

end
