(* ===== verification/ServerLoop.thy ===== *)
theory ServerLoop
  imports Upkeep Loops
begin

text \<open>
  The server as a whole.  The invariant of its maps (\<open>maps_ok\<close>) holds at the start, an RPC of the right type keeps it
  (Intake.thy), a tick keeps it (Upkeep.thy), and the other events of the loop do not touch the maps.  So the
  server runs on, whatever the order of its events, up to the two faults of the code: the text of the rates that
  does not fit the shared memory, and the database timer that a reload arms in a build without PSQL.
\<close>

section \<open>The invariant of the loop\<close>

lemma map_init_maps_ok: "maps_ok (map_init h0)"
proof -
  have e: "entry_of (map_init h0) k = None" for k
    by (simp add: map_init_def entry_of_def new_object_def new_node_def Let_def)
  show ?thesis
    using map_init_ok[of h0] e unfolding maps_ok_def outside_def
    by (auto simp: map_init_def new_object_def new_node_def Let_def is_obj_def)
qed

lemma server_tick_keeps:
  assumes "maps_ok s" "no_time_text E (map (\<lambda>t. (t, JString '''')) group_keys)"
  shows "ok (server_tick E s) (\<lambda>(rates, s'). maps_ok s')"
proof -
  obtain s1 where s1: "tag_stats E s = Some s1" "maps_ok s1" using tag_stats_keeps[OF assms(1)] by (auto simp: ok_def)
  obtain s2 where "group_statsbytags E group_keys s1 = Some s2" "maps_ok s2"
    using group_statsbytags_keeps[OF s1(2) assms(2)] by (auto simp: ok_def)
  then show ?thesis using s1 by (simp add: server_tick_def group_keys_def)
qed

text \<open>\<open>hup\<close> says whether the configuration has been reloaded.\<close>

definition loop_ok :: "bool \<Rightarrow> server \<Rightarrow> bool" where
  "loop_ok hup s \<longleftrightarrow> maps_ok (maps s) \<and> length (memory s) = mm_size \<and> has_cb (shm_timer s) \<and>
    (\<not> hup \<longrightarrow> \<not> active (pq_timer s))"

text \<open>The rates that the next tick publishes do not fit the shared memory.\<close>

definition overflows :: "env \<Rightarrow> server \<Rightarrow> bool" where
  "overflows E s \<longleftrightarrow> (case server_tick E (maps s) of None \<Rightarrow> False
    | Some (rates, st) \<Rightarrow> mm_size < length (to_json E rates))"

lemma loop_ok_start: "server_setup False connects p = Some (Run s) \<Longrightarrow> loop_ok hup s"
  by (auto simp: server_setup_def loop_ok_def map_init_maps_ok ev_timer_started_def zero_timer_def Let_def)

lemma shm_timer_keeps:
  assumes "loop_ok hup s" "no_time_text E (map (\<lambda>t. (t, JString '''')) group_keys)" "\<not> overflows E s"
  shows "ok (shm_timer_cb E s) (loop_ok hup)"
proof -
  obtain rates st where st: "server_tick E (maps s) = Some (rates, st)" "maps_ok st"
    using server_tick_keeps[OF _ assms(2), of "maps s"] assms(1) by (auto simp: loop_ok_def ok_def)
  with assms(3) have "length (to_json E rates) \<le> mm_size" by (simp add: overflows_def)
  with assms(1) obtain m where "mm_write (to_json E rates) (memory s) = Some m" "length m = mm_size"
    by (auto simp: mm_write_def loop_ok_def)
  then show ?thesis using st assms(1) by (simp add: shm_timer_cb_def loop_ok_def)
qed

lemma server_event_keeps:
  assumes "loop_ok hup s" and texts: "no_time_text E (map (\<lambda>t. (t, JString '''')) group_keys)"
    and "\<forall>conn. ev = Rpc conn \<longrightarrow> conn_ok E conn" "ev = PqTimer \<longrightarrow> \<not> hup"
    and "ev = ShmTimer \<longrightarrow> \<not> overflows E s"
  shows "ok (server_event False E rnd ev s) (loop_ok (hup \<or> (\<exists>file. ev = Hup file)))"
proof (cases ev)
  case ShmTimer
  let ?s = "s\<lparr>shm_timer := ev_timer_fired (shm_timer s)\<rparr>"
  have "loop_ok hup ?s" "\<not> overflows E ?s" using assms(1,5) ShmTimer
    by (simp_all add: loop_ok_def overflows_def ev_timer_fired_def)
  from shm_timer_keeps[OF this(1) texts this(2)] show ?thesis
    using ShmTimer assms(1) by (simp add: server_event_def loop_ok_def)
next
  case PqTimer
  with assms(1,4) show ?thesis by (simp add: server_event_def enabled_def loop_ok_def)
next
  case (Rpc conn)
  with assms(1,3) have "ok (sock_rpc E conn (maps s)) maps_ok" using sock_rpc_keeps by (simp add: loop_ok_def)
  with assms(1) Rpc show ?thesis by (auto simp: server_event_def sock_rpc_cb_def loop_ok_def elim!: okE)
next
  case (Hup hup_file)
  with assms(1) show ?thesis
    by (auto simp: server_event_def signal_cb_hup_def loop_ok_def ev_timer_again_def Let_def)
next
  case Interrupt
  with assms(1) show ?thesis by (simp add: server_event_def loop_ok_def)
qed

text \<open>Either the loop keeps the invariant, or there is a first tick that overflows.\<close>

definition reloaded :: "event list \<Rightarrow> bool" where
  "reloaded evs \<longleftrightarrow> (\<exists>file. Hup file \<in> set evs)"

lemma server_run_keeps:
  assumes "loop_ok False s0" and texts: "no_time_text E (map (\<lambda>t. (t, JString '''')) group_keys)"
    and "\<forall>conn. Rpc conn \<in> set evs \<longrightarrow> conn_ok E conn" "\<forall>pre post. evs = pre @ PqTimer # post \<longrightarrow> \<not> reloaded pre"
  shows "ok (server_run False E rnd evs s0) (loop_ok (reloaded evs)) \<or>
    (\<exists>pre post s. evs = pre @ ShmTimer # post \<and> server_run False E rnd pre s0 = Some s \<and> overflows E s)"
  using assms(3-4)
proof (induction evs rule: rev_induct)
  case Nil
  then show ?case using assms(1) by (simp add: server_run_def reloaded_def)
next
  case (snoc ev evs)
  have "ok (server_run False E rnd evs s0) (loop_ok (reloaded evs)) \<or>
      (\<exists>pre post s. evs = pre @ ShmTimer # post \<and> server_run False E rnd pre s0 = Some s \<and> overflows E s)"
    by (rule snoc.IH) (use snoc.prems in auto)
  then consider (runs) s where "server_run False E rnd evs s0 = Some s" "loop_ok (reloaded evs) s"
    | (fails) pre post s where "evs = pre @ ShmTimer # post" "server_run False E rnd pre s0 = Some s" "overflows E s"
    unfolding ok_def by blast
  then show ?case
  proof cases
    case runs
    show ?thesis
    proof (cases "ev = ShmTimer \<and> overflows E s")
      case True
      with runs(1) show ?thesis by blast
    next
      case False
      have "reloaded (evs @ [ev]) = (reloaded evs \<or> (\<exists>file. ev = Hup file))" by (auto simp: reloaded_def)
      moreover have "ok (server_event False E rnd ev s) (loop_ok (reloaded evs \<or> (\<exists>file. ev = Hup file)))"
        by (rule server_event_keeps[OF runs(2) texts]) (use snoc.prems False in auto)
      ultimately show ?thesis using runs(1) by (auto simp: server_run_def foldM_append elim!: okE)
    qed
  next
    case fails
    then have "evs @ [ev] = pre @ ShmTimer # (post @ [ev])" by simp
    with fails(2,3) show ?thesis by blast
  qed
qed

section \<open>Properties\<close>


definition oss_report :: json where
  "oss_report = TObject [(''time'', TDouble 10), (''hostname'', TString ''oss1''), (''obdclass'', TString ''oss''),
    (''data'', TArray [TObject [(''stats_type'', TString ''exports''), (''client_nid'', TString ''1@tcp''),
      (''target'', TString ''work-OST0000''), (''stats'', TObject [(''read_bytes'', TInt 4096)])]])]"

definition oss_env :: env where
  "oss_env = plain_env\<lparr>of_json := (\<lambda>_. Some oss_report)\<rparr>"

lemma oss_env_ok: "no_time_text oss_env (map (\<lambda>t. (t, JString '''')) group_keys)" "\<not> overflows oss_env s"
  "payload (case conn of None \<Rightarrow> [Fail] | Some segs \<Rightarrow> segs) < socket_buffersize \<Longrightarrow> conn_ok oss_env conn"
proof -
  show "no_time_text oss_env (map (\<lambda>t. (t, JString '''')) group_keys)"
    by (simp add: no_time_text_def group_text_def oss_env_def plain_env_def group_keys_def)
  show "\<not> overflows oss_env s" by (auto simp: overflows_def oss_env_def plain_env_def split: option.splits)
  have "canon oss_report \<and> report_typed oss_report" by code_simp
  then show "conn_ok oss_env conn" if "payload (case conn of None \<Rightarrow> [Fail] | Some segs \<Rightarrow> segs) < socket_buffersize"
    using short_conn_ok[OF that] by (auto simp: conn_ok_def oss_env_def split: option.split)
qed


end
