(* ===== verification/Cluster.thy ===== *)
theory Cluster
  imports ServerLoop Delivery
begin

text \<open>
  Clients and server together.  Whatever a client sends, over a network that cuts its bytes into any segments and may
  end the connection anywhere, is a connection the server survives (\<open>conn_ok\<close>): the report has the type the
  server relies on, and a report that did not arrive whole is no json.
\<close>

section \<open>What a client sends has the right type\<close>

text \<open>An entry with the nid of a client names a target that has the suffix \<open>tag_stats\<close> cuts off.\<close>

definition target_known :: "json \<Rightarrow> bool" where
  "target_known t \<longleftrightarrow> (case t of
    TObject fs \<Rightarrow> map_of fs ''client_nid'' = None \<or> (\<exists>u. map_of fs ''target'' = Some u \<and> is_target u) | _ \<Rightarrow> False)"

definition targets_known :: "json list \<Rightarrow> bool" where
  "targets_known ts \<longleftrightarrow> list_all target_known ts"

definition target_names :: "machine \<Rightarrow> bool" where
  "target_names M \<longleftrightarrow> names_ok M ''/proc/fs/lustre/mdt'' (\<lambda>n. 8 \<le> n) \<and> names_ok M ''/proc/fs/lustre/obdfilter'' (\<lambda>n. 8 \<le> n)"

lemma add_report_known:
  assumes "targets_known ts" "target_known (TObject tags)"
  shows "targets_known (add_report tags st ts)"
  using assms by (simp add: targets_known_def add_report_def target_known_def)

text \<open>Tags without a client.\<close>

lemma no_client_known: "map_of tags ''client_nid'' = None \<Longrightarrow> target_known (TObject tags)"
  by (simp add: target_known_def)

lemma directory_known:
  assumes "targets_known ts" and "\<And>es name t. d = Some es \<Longrightarrow> name \<in> set (visible es) \<Longrightarrow> targets_known t \<Longrightarrow>
      whenever (f name t) targets_known"
    and "(case d of None \<Rightarrow> Some (-1, ts) | Some es \<Rightarrow> map_option (Pair 0) (foldM f (visible es) ts)) = Some (rc, ts')"
  shows "targets_known ts'"
proof (cases d)
  case None
  with assms(1,3) show ?thesis by simp
next
  case (Some es)
  have "whenever (foldM f (visible es) ts) targets_known"
    by (rule whenever_foldM_inv[where I = targets_known, OF assms(1)]) (rule assms(2)[OF Some])
  with assms(3) Some show ?thesis by (auto simp: whenever_def)
qed

lemma exports_known:
  assumes "target_names M" "targets_known ts" "collect_exports M cls ts = Some (rc, ts')"
  shows "targets_known ts'"
proof -
  have one: "whenever (collect_export M p ty target nid t) targets_known" if "8 \<le> length target" "targets_known t"
    for p ty target nid t
    using that by (auto simp: collect_export_def whenever_def bind_eq_Some_conv target_known_def is_target_def
        intro!: add_report_known)
  have all: "whenever (collect_exports_of M p ty target t) targets_known" if "8 \<le> length target" "targets_known t"
    for p ty target t
    using that unfolding collect_exports_of_def Let_def
    by (auto intro!: whenever_foldM_inv[where I = targets_known] one split: option.split)
  have names: "8 \<le> length name"
    if "dir_list M path = Some es" "name \<in> set (visible es)" "path \<in> {''/proc/fs/lustre/mdt'', ''/proc/fs/lustre/obdfilter''}"
    for path es name
    using assms(1) that by (auto simp: target_names_def names_ok_def)
  show ?thesis
  proof (cases cls)
    case OSC
    with assms(3) show ?thesis by (simp add: collect_exports_def)
  next
    case MDS
    show ?thesis
      by (rule directory_known[OF assms(2), of "dir_list M ''/proc/fs/lustre/mdt''"])
        (use assms(3) MDS all names in \<open>auto simp: collect_exports_def\<close>)
  next
    case OSS
    show ?thesis
      by (rule directory_known[OF assms(2), of "dir_list M ''/proc/fs/lustre/obdfilter''"])
        (use assms(3) OSS all names in \<open>auto simp: collect_exports_def\<close>)
  qed
qed

lemma target_collector_known:
  assumes "targets_known ts" "collect_target M cls ts = Some (rc, ts')"
  shows "targets_known ts'"
  by (rule directory_known[OF assms(1) _ assms(2)[unfolded collect_target_def]])
    (auto simp: collect_one_target_def whenever_def bind_eq_Some_conv Let_def intro!: add_report_known no_client_known)

lemma llite_known:
  assumes "targets_known ts" "collect_llite M base ts = Some (rc, ts')"
  shows "targets_known ts'"
  by (rule directory_known[OF assms(1) _ assms(2)[unfolded collect_llite_def]])
    (auto simp: collect_one_llite_def whenever_def bind_eq_Some_conv Let_def split: if_splits
      intro!: add_report_known no_client_known)

lemma collect_string_other: "k \<noteq> j \<Longrightarrow> collect_string M p fs j = Some (rc, fs') \<Longrightarrow> map_of fs' k = map_of fs k"
  by (auto simp: collect_string_def split: option.splits if_splits)

lemma osc_known:
  assumes "targets_known ts" "collect_osc M nid_base base ts = Some (rc, ts')"
  shows "targets_known ts'"
proof (rule directory_known[OF assms(1) _ assms(2)[unfolded collect_osc_def]])
  fix es name t
  assume "targets_known t"
  moreover have "map_of fs ''client_nid'' = None"
    if "collect_string M p [(''stats_type'', TString ''osc''), (''target'', TString u)] ''server_nid'' = Some (r, fs)" for p u r fs
    using collect_string_other[OF _ that, of "''client_nid''"] by simp
  ultimately show "whenever (collect_one_osc M nid_base base name t) targets_known"
    by (auto simp: collect_one_osc_def whenever_def bind_eq_Some_conv Let_def split: if_splits
        intro!: add_report_known no_client_known)
qed

lemma collected_known:
  assumes "target_names M" "collect_data M info = Some data"
  shows "targets_known data"
proof -
  obtain rc1 d1 where d1: "collect_sysinfo M [] = (rc1, d1)" by (cases "collect_sysinfo M []")
  obtain rc2 d2 where d2: "collect_cpu M d1 = (rc2, d2)" by (cases "collect_cpu M d1")
  have "targets_known d1" using d1
    by (auto simp: collect_sysinfo_def targets_known_def[of "[]"] split: option.splits prod.splits
        intro!: add_report_known no_client_known)
  then have "targets_known d2" using d2
    by (auto simp: collect_cpu_def split: option.splits intro!: add_report_known no_client_known)
  then show ?thesis
    using assms(2) by (cases "dev_class info")
      (auto simp: collect_data_def d1 d2 bind_eq_Some_conv
        dest!: exports_known[OF assms(1), rotated] target_collector_known[rotated] llite_known[rotated] osc_known[rotated])
qed

text \<open>The whole report.\<close>

lemma report_entry_typed:
  assumes "report_ok t" "target_known t"
  shows "export_typed t"
proof -
  obtain tags st ty where t: "t = TObject (tags @ [(''stats'', TObject st)])" "texts tags"
    using assms(1) by (auto simp: report_ok_def)
  have tag: "map_of (tags @ [(''stats'', TObject st)]) k = map_of tags k" if "k \<noteq> ''stats''" for k
    using that by (cases "map_of tags k") simp_all
  have "''stats'' \<notin> set (keys tags)" using t(2) by (auto simp: texts_def)
  then have "map_of tags ''stats'' = None" using map_of_eq_None by fast
  then have st: "map_of (tags @ [(''stats'', TObject st)]) ''stats'' = Some (TObject st)" by (simp add: map_add_def)
  have txts: "map_of tags k = None \<or> (\<exists>s. map_of tags k = Some (TString s))" for k
    using t(2) map_of_in_set[of tags k] by (cases "map_of tags k") (fastforce simp: texts_def)+
  have "field_is is_text (tags @ [(''stats'', TObject st)]) k" "field_is is_plain (tags @ [(''stats'', TObject st)]) k"
    if "k \<noteq> ''stats''" for k
    using txts[of k] unfolding field_is_def tag[OF that] by (auto simp: is_text_def is_plain_def)
  moreover have "field_is is_target (tags @ [(''stats'', TObject st)]) ''target''"
    if "map_of (tags @ [(''stats'', TObject st)]) ''client_nid'' \<noteq> None"
    using assms(2) that by (auto simp: target_known_def t(1) field_is_def)
  moreover have "field_is is_object (tags @ [(''stats'', TObject st)]) ''stats''"
    unfolding field_is_def st by (simp add: is_object_def)
  ultimately show ?thesis by (simp add: export_typed_def t(1) group_keys_def)
qed

lemma collected_typed:
  assumes "collect_devices E M info [] = Some jobj" "target_names M" "CHR ''%'' \<notin> set (class_str info)" "length (class_str info) < 32"
  shows "report_typed (TObject jobj)"
proof -
  obtain data where data: "collect_data M info = Some data" "map_of jobj ''data'' = Some (TArray data)"
    and jobj: "jobj = AList.update ''data'' (TArray data) (report_head E M info [])"
    using assms(1) by (auto simp: collect_devices_def bind_eq_Some_conv)
  have "\<forall>t \<in> set data. report_ok t" using collect_data_ok[of M info] data(1) by simp
  moreover have "\<forall>t \<in> set data. target_known t"
    using collected_known[OF assms(2) data(1)] by (simp add: targets_known_def list_all_iff)
  ultimately have d: "data_typed (TArray data)" using report_entry_typed by (simp add: data_typed_def list_all_iff)
  obtain x where h: "report_head E M info [] = [(''time'', TDouble x), (''obdclass'', TString (class_str info)),
      (''hostname'', TString (dev_hostname info)), (''nid'', TString (dev_nid info))] @
    (if dev_class info = OSC then [(''jid'', TString (dev_jid info)), (''uid'', TString (dev_uid info))] else [])"
    using report_head_eq by blast
  have m: "map_of jobj = (map_of (report_head E M info []))(''data'' \<mapsto> TArray data)" by (simp add: jobj)
  show ?thesis
    using d assms(3,4) unfolding report_typed_def update_typed_def json.case field_is_def m h
    by (auto simp: is_plain_def is_class_text_def)
qed

section \<open>What arrives of it\<close>

text \<open>The documents that the two programs exchange: the parser reads back the whole text and rejects every proper
  prefix of it, and the text has neither a NUL nor a percent sign.\<close>

definition wire_ok :: "env \<Rightarrow> json \<Rightarrow> bool" where
  "wire_ok E t \<longleftrightarrow> of_json E (to_json E t) = Some t \<and> (\<forall>m < length (to_json E t). of_json E (take m (to_json E t)) = None) \<and>
    nul \<notin> set (to_json E t) \<and> CHR ''%'' \<notin> set (to_json E t)"

text \<open>A connection that ends in an error delivers nothing, unless the buffer is full before.\<close>

lemma recv_data_fail:
  assumes "\<forall>d \<in> set ds. d \<noteq> []" "length buf \<le> cap"
  shows "recv_loop cap buf (map Data ds @ [Fail]) = (take cap (buf @ concat ds), cap \<le> length (buf @ concat ds))"
  using assms
proof (induction ds arbitrary: buf)
  case Nil
  then show ?case by simp
next
  case (Cons d ds)
  show ?case
  proof (cases "cap \<le> length buf")
    case True
    with Cons.prems show ?thesis by simp
  next
    case False
    let ?buf = "buf @ take (cap - length buf) d"
    have "recv_loop cap buf (map Data (d # ds) @ [Fail]) = recv_loop cap ?buf (map Data ds @ [Fail])"
      using False Cons.prems by simp
    also have "\<dots> = (take cap (?buf @ concat ds), cap \<le> length (?buf @ concat ds))"
      by (rule Cons.IH) (use Cons.prems False in auto)
    also have "\<dots> = (take cap (buf @ concat (d # ds)), cap \<le> length (buf @ concat (d # ds)))"
      using False by (cases "length d \<le> cap - length buf") (auto simp: min_def)
    finally show ?thesis .
  qed
qed

lemma received:
  assumes "\<forall>d \<in> set ds. d \<noteq> []" "tail = [] \<or> tail = [Fail]"
  shows "request_buffer (Some (map Data ds @ tail)) \<in>
    {None, Some (take socket_buffersize (concat ds) @ replicate (socket_buffersize - length (take socket_buffersize (concat ds))) nul)}"
  using assms(2) recv_data[OF assms(1), of "[]" socket_buffersize] recv_data_fail[OF assms(1), of "[]" socket_buffersize]
  by (auto simp: request_buffer_def)

text \<open>Any part of the buffer of the client, padded, is a prefix of the text, padded.\<close>

lemma padded_prefix:
  assumes "0 < cap" "CHR ''%'' \<notin> set t"
  shows "\<exists>m. take n (client_request E cap t) @ replicate (cap - length (take n (client_request E cap t))) nul =
    take m t @ replicate (Suc (cap - Suc (length (take m t)))) nul"
proof -
  let ?u = "take (cap - 1) t"
  have u: "length ?u < cap" using assms(1) by simp
  have r: "client_request E cap t = ?u @ replicate (cap - length ?u) nul"
    using assms by (simp add: client_request_def snprintf_fmt_def)
  have "take n (client_request E cap t) @ replicate (cap - length (take n (client_request E cap t))) nul =
      take n ?u @ replicate (min (n - length ?u) (cap - length ?u)) nul @
      replicate (cap - length (take n ?u) - min (n - length ?u) (cap - length ?u)) nul"
    unfolding r by (simp add: take_replicate)
  also have "\<dots> = take n ?u @ replicate (cap - length (take n ?u)) nul"
  proof -
    have "min (n - length ?u) (cap - length ?u) \<le> cap - length (take n ?u)"
      by (rule min.coboundedI2, rule diff_le_mono2) simp
    then show ?thesis by (simp only: replicate_add[symmetric] le_add_diff_inverse)
  qed
  also have "cap - length (take n ?u) = Suc (cap - Suc (length (take n ?u)))"
    using u le_less_trans[of "length (take n ?u)" "length ?u" cap] Suc_diff_Suc[of "length (take n ?u)" cap] by simp
  finally show ?thesis unfolding take_take by blast
qed

section \<open>Properties\<close>

text \<open>C4. Every client is a peer the server survives: for a report collected on any host whose targets have their
  Lustre names, any part of what the sends delivered, cut into any segments, with the connection closed or broken at
  its end, is a connection that meets the conditions of the server.\<close>

theorem client_report_accepted:
  assumes "collect_devices E M info [] = Some jobj" and "sock_send_data E M info True True True ks = Some ds"
    and "target_names M" "CHR ''%'' \<notin> set (class_str info)" "length (class_str info) < 32"
    and "wire_ok E (TObject jobj)"
    and "\<forall>d \<in> set segs. d \<noteq> []" "concat ds = concat segs @ lost" "tail = [] \<or> tail = [Fail]"
  shows "conn_ok E (Some (map Data segs @ tail))"
proof -
  let ?t = "to_json E (TObject jobj)"
  have pos: "0 < socket_buffersize" by (simp add: socket_buffersize_def)
  have w: "of_json E ?t = Some (TObject jobj)" "nul \<notin> set ?t" "CHR ''%'' \<notin> set ?t"
    "m < length ?t \<Longrightarrow> of_json E (take m ?t) = None" for m
    using assms(6) by (simp_all add: wire_ok_def)
  have "ds = send_loop ks (client_request E socket_buffersize ?t)" using assms(1,2) by (simp add: sock_send_data_def Let_def)
  then obtain rest where "client_request E socket_buffersize ?t = concat segs @ lost @ rest"
    using send_loop_prefix[of "client_request E socket_buffersize ?t" ks] assms(8) by auto
  then have "concat segs = take (length (concat segs)) (client_request E socket_buffersize ?t)" by simp
  then have "take socket_buffersize (concat segs) =
      take (min socket_buffersize (length (concat segs))) (client_request E socket_buffersize ?t)"
    by (metis take_take)
  then obtain m where m: "take socket_buffersize (concat segs) @
      replicate (socket_buffersize - length (take socket_buffersize (concat segs))) nul =
      take m ?t @ replicate (Suc (socket_buffersize - Suc (length (take m ?t)))) nul"
    using padded_prefix[OF pos w(3), of "min socket_buffersize (length (concat segs))" E] by auto
  have "nul \<notin> set (take m ?t)" using w(2) by (meson in_set_takeD)
  then have c: "c_string (take m ?t @ replicate k nul) = take m ?t" for k by (rule c_string_padded)
  have "of_json E (take m ?t) \<in> {None, Some (TObject jobj)}" using w(1) w(4)[of m] by (cases "m < length ?t") auto
  moreover have "canon (TObject jobj)" "report_typed (TObject jobj)"
    using collected_fields(1)[OF assms(1)] collected_typed[OF assms(1,3-5)] by blast+
  moreover have "nul \<in> set (take m ?t @ replicate (Suc k) nul)" for k by simp
  ultimately have "nul \<in> set request \<and>
      (case of_json E (c_string request) of None \<Rightarrow> True | Some t \<Rightarrow> canon t \<and> report_typed t)"
    if "request = take m ?t @ replicate (Suc (socket_buffersize - Suc (length (take m ?t)))) nul" for request
    unfolding that c by auto
  then show ?thesis
    using received[OF assms(7,9)] unfolding m conn_ok_def by (auto split: option.split)
qed

theorem client_report_accepted_witness:
  "\<exists>E jobj ds. collect_devices E sample_machine sample_info [] = Some jobj \<and>
    sock_send_data E sample_machine sample_info True True True [1, 2] = Some ds \<and>
    conn_ok E (Some (map Data [''{''] @ [Fail]))"
proof -
  obtain jobj where j: "collect_devices plain_env sample_machine sample_info [] = Some jobj"
    using devices_defined[OF sample_machine_ok, of plain_env "[]"] by (auto simp: ok_def)
  define E where "E = plain_env\<lparr>to_json := (\<lambda>_. ''{}''), of_json := (\<lambda>t. if t = ''{}'' then Some (TObject jobj) else None)\<rparr>"
  have jE: "collect_devices E sample_machine sample_info [] = Some jobj"
    using j collect_devices_cong[of E plain_env] by (simp add: E_def)
  have r: "client_request E socket_buffersize ''{}'' = CHR ''{'' # CHR ''}'' # replicate (socket_buffersize - 2) nul"
    by (simp add: client_request_def socket_buffersize_def)
  define ds where "ds = send_loop [1, 2] (client_request E socket_buffersize ''{}'')"
  have ds: "sock_send_data E sample_machine sample_info True True True [1, 2] = Some ds"
    using jE by (simp add: sock_send_data_def ds_def E_def Let_def del: send_loop.simps)
  have d1: "ds = ''{'' # send_loop [2] (CHR ''}'' # replicate (socket_buffersize - 2) nul)" by (simp add: ds_def r)
  have w: "wire_ok E (TObject jobj)" by (auto simp: wire_ok_def E_def nul_def less_Suc_eq numeral_2_eq_2)
  have "conn_ok E (Some (map Data [''{''] @ [Fail]))"
    by (rule client_report_accepted[OF jE ds _ _ _ w, where lost = "concat (tl ds)"])
      (auto simp: d1 target_names_def names_ok_def sample_machine_def sample_info_def visible_def)
  with jE ds show ?thesis by blast
qed

end
