(* ===== verification/Lifecycle.thy ===== *)
theory Lifecycle
  imports Shm Options
begin

text \<open>
  The life of the shared objects of \<open>server/shmmap.c\<close>: the server creates a semaphore and a shared memory object
  under two names, the viewers open them by these names, and the server removes the names when it ends.

  A name refers to an object, and a process that has opened an object keeps it when the name is removed or comes to refer to
  a new one.  So a restarted server and the viewers that were started before it may share one of the two objects
  and not the other.  The properties say when the critical section still protects the memory.
\<close>

section \<open>The objects\<close>

record ipc =
  sem_name :: "nat option"
  shm_name :: "nat option"
  sem_val :: "nat \<Rightarrow> nat"
  shm_text :: "nat \<Rightarrow> string"
  next_id :: nat

record handles =
  mutex_sem :: nat
  mm_ptr :: nat

datatype call = Sem_open | Shm_open | Ftruncate | Mmap | Mlock | Sem_post

definition no_objects :: ipc where
  "no_objects = \<lparr>sem_name = None, shm_name = None, sem_val = (\<lambda>_. 0), shm_text = (\<lambda>_. ''''), next_id = 0\<rparr>"

text \<open>\<open>sem_open\<close> with \<open>O_CREAT\<close> after \<open>sem_unlink\<close>, and \<open>shm_open\<close> with \<open>O_CREAT\<close> and \<open>O_TRUNC\<close>.\<close>

definition create_sem :: "ipc \<Rightarrow> nat \<times> ipc" where
  "create_sem k = (next_id k, k\<lparr>sem_name := Some (next_id k), sem_val := (sem_val k)(next_id k := 0), next_id := Suc (next_id k)\<rparr>)"

definition open_shm_trunc :: "ipc \<Rightarrow> nat \<times> ipc" where
  "open_shm_trunc k =
    (case shm_name k of
       Some m \<Rightarrow> (m, k\<lparr>shm_text := (shm_text k)(m := '''')\<rparr>)
     | None \<Rightarrow> (next_id k, k\<lparr>shm_name := Some (next_id k), shm_text := (shm_text k)(next_id k := ''''), next_id := Suc (next_id k)\<rparr>))"

definition resize :: "nat \<Rightarrow> string \<Rightarrow> string" where
  "resize n t = take n t @ replicate (n - length t) nul"

text \<open>\<open>shmmap_server_init\<close>; \<open>works\<close> says which of the calls succeed.\<close>

definition server_attach :: "(call \<Rightarrow> bool) \<Rightarrow> ipc \<Rightarrow> handles outcome \<times> ipc" where
  "server_attach works k =
    (let k0 = k\<lparr>sem_name := None\<rparr> in
     if \<not> works Sem_open then (Exit 1, k0)
     else (let (i, k1) = create_sem k0 in
       if \<not> works Shm_open then (Exit 1, k1)
       else (let (m, k2) = open_shm_trunc k1 in
         if \<not> works Ftruncate then (Exit 1, k2)
         else (let k3 = k2\<lparr>shm_text := (shm_text k2)(m := resize mm_size (shm_text k2 m))\<rparr> in
           if \<not> works Mmap then (Exit 1, k3)
           else if \<not> works Mlock then (Exit 1, k3)
           else if \<not> works Sem_post then (Exit 1, k3)
           else (Run \<lparr>mutex_sem = i, mm_ptr = m\<rparr>, k3\<lparr>sem_val := (sem_val k3)(i := Suc (sem_val k3 i))\<rparr>)))))"

definition shmmap_server_kill :: "ipc \<Rightarrow> ipc" where
  "shmmap_server_kill k = k\<lparr>sem_name := None, shm_name := None\<rparr>"

definition shmmap_client_init :: "(call \<Rightarrow> bool) \<Rightarrow> ipc \<Rightarrow> handles outcome" where
  "shmmap_client_init works k =
    (case sem_name k of
       None \<Rightarrow> Exit 1
     | Some i \<Rightarrow>
         if \<not> works Sem_open then Exit 1
         else (case shm_name k of
             None \<Rightarrow> Exit 1
           | Some m \<Rightarrow> if \<not> works Shm_open \<or> \<not> works Mmap then Exit 1 else Run \<lparr>mutex_sem = i, mm_ptr = m\<rparr>))"

text \<open>\<open>shmmap_client_kill\<close>, which no program calls: it waits for the semaphore and posts it.  \<open>None\<close>: it does not
  return before another process posts.\<close>

definition shmmap_client_kill :: "handles \<Rightarrow> ipc \<Rightarrow> ipc option" where
  "shmmap_client_kill ha k =
    (if sem_val k (mutex_sem ha) = 0 then None
     else (let k1 = k\<lparr>sem_val := (sem_val k)(mutex_sem ha := sem_val k (mutex_sem ha) - 1)\<rparr>
       in Some (k1\<lparr>sem_val := (sem_val k1)(mutex_sem ha := Suc (sem_val k1 (mutex_sem ha)))\<rparr>)))"

section \<open>The processes\<close>

record life =
  objects :: ipc
  handle :: "proc \<Rightarrow> handles option"
  holds :: "proc \<Rightarrow> bool"

definition power_on :: life where
  "power_on = \<lparr>objects = no_objects, handle = (\<lambda>_. None), holds = (\<lambda>_. False)\<rparr>"

definition gone :: "proc \<Rightarrow> life \<Rightarrow> life" where
  "gone p s = s\<lparr>handle := (handle s)(p := None), holds := (holds s)(p := False)\<rparr>"

definition set_sem :: "nat \<Rightarrow> nat \<Rightarrow> life \<Rightarrow> life" where
  "set_sem i n s = s\<lparr>objects := (objects s)\<lparr>sem_val := (sem_val (objects s))(i := n)\<rparr>\<rparr>"

text \<open>A server starts, with or without success, or ends; with \<open>crashes\<close> it may also disappear at any time.
  A viewer comes and goes, leaves the critical section with or without posting (\<open>get_shm_map\<close>), and may be killed
  at any time.\<close>

inductive life_step :: "bool \<Rightarrow> life \<Rightarrow> life \<Rightarrow> bool" for crashes where
  server_begins: "handle s Server = None \<Longrightarrow> server_attach works (objects s) = (Run ha, k) \<Longrightarrow>
    life_step crashes s (s\<lparr>objects := k, handle := (handle s)(Server \<mapsto> ha)\<rparr>)"
| server_fails: "handle s Server = None \<Longrightarrow> server_attach works (objects s) = (Exit n, k) \<Longrightarrow>
    life_step crashes s (s\<lparr>objects := k\<rparr>)"
| server_ends: "handle s Server = Some ha \<Longrightarrow> \<not> holds s Server \<Longrightarrow>
    life_step crashes s (gone Server (s\<lparr>objects := shmmap_server_kill (objects s)\<rparr>))"
| server_crashes: "crashes \<Longrightarrow> handle s Server = Some ha \<Longrightarrow> life_step crashes s (gone Server s)"
| viewer_begins: "handle s (Viewer v) = None \<Longrightarrow> shmmap_client_init works (objects s) = Run ha \<Longrightarrow>
    life_step crashes s (s\<lparr>handle := (handle s)(Viewer v \<mapsto> ha)\<rparr>)"
| viewer_ends: "life_step crashes s (gone (Viewer v) s)"
| enters: "handle s p = Some ha \<Longrightarrow> \<not> holds s p \<Longrightarrow> sem_val (objects s) (mutex_sem ha) = Suc n \<Longrightarrow>
    life_step crashes s ((set_sem (mutex_sem ha) n s)\<lparr>holds := (holds s)(p := True)\<rparr>)"
| leaves: "handle s p = Some ha \<Longrightarrow> holds s p \<Longrightarrow>
    life_step crashes s ((set_sem (mutex_sem ha) (Suc (sem_val (objects s) (mutex_sem ha))) s)\<lparr>holds := (holds s)(p := False)\<rparr>)"
| gives_up: "handle s (Viewer v) = Some ha \<Longrightarrow> holds s (Viewer v) \<Longrightarrow>
    life_step crashes s (s\<lparr>holds := (holds s)(Viewer v := False)\<rparr>)"

inductive_cases life_stepE: "life_step crashes s s'"

definition life_reach :: "bool \<Rightarrow> life \<Rightarrow> bool" where
  "life_reach crashes s \<longleftrightarrow> (life_step crashes)\<^sup>*\<^sup>* power_on s"

section \<open>The invariant\<close>

text \<open>A semaphore that lets somebody in, or has.\<close>

definition live :: "life \<Rightarrow> nat \<Rightarrow> bool" where
  "live s i \<longleftrightarrow> sem_val (objects s) i \<noteq> 0 \<or> (\<exists>p ha. handle s p = Some ha \<and> holds s p \<and> mutex_sem ha = i)"

definition one_token :: "life \<Rightarrow> bool" where
  "one_token s \<longleftrightarrow> (\<forall>i. sem_val (objects s) i \<le> 1) \<and>
    (\<forall>p ha. handle s p = Some ha \<longrightarrow> holds s p \<longrightarrow> sem_val (objects s) (mutex_sem ha) = 0) \<and>
    (\<forall>p q ha hb. handle s p = Some ha \<longrightarrow> handle s q = Some hb \<longrightarrow> holds s p \<longrightarrow> holds s q \<longrightarrow>
      mutex_sem ha = mutex_sem hb \<longrightarrow> p = q)"

definition known_ids :: "life \<Rightarrow> bool" where
  "known_ids s \<longleftrightarrow> (\<forall>p ha. handle s p = Some ha \<longrightarrow> mutex_sem ha < next_id (objects s) \<and> mm_ptr ha < next_id (objects s)) \<and>
    (\<forall>i. sem_name (objects s) = Some i \<longrightarrow> i < next_id (objects s)) \<and>
    (\<forall>m. shm_name (objects s) = Some m \<longrightarrow> m < next_id (objects s)) \<and>
    (\<forall>i \<ge> next_id (objects s). sem_val (objects s) i = 0) \<and> (\<forall>p. holds s p \<longrightarrow> handle s p \<noteq> None)"

text \<open>The processes of one memory object use one live semaphore; without a server there is none for the object the
  name refers to.\<close>

definition one_pair :: "life \<Rightarrow> bool" where
  "one_pair s \<longleftrightarrow>
    (\<forall>p q ha hb. handle s p = Some ha \<longrightarrow> handle s q = Some hb \<longrightarrow> mm_ptr ha = mm_ptr hb \<longrightarrow>
      live s (mutex_sem ha) \<longrightarrow> live s (mutex_sem hb) \<longrightarrow> mutex_sem ha = mutex_sem hb) \<and>
    (\<forall>ha. handle s Server = Some ha \<longrightarrow>
      sem_name (objects s) = Some (mutex_sem ha) \<and> shm_name (objects s) = Some (mm_ptr ha)) \<and>
    (handle s Server = None \<longrightarrow> (\<forall>m. shm_name (objects s) = Some m \<longrightarrow>
      (\<forall>p ha. handle s p = Some ha \<longrightarrow> mm_ptr ha = m \<longrightarrow> \<not> live s (mutex_sem ha)) \<and>
      (\<forall>i. sem_name (objects s) = Some i \<longrightarrow> \<not> live s i)))"

lemma server_attachD:
  assumes "server_attach works k = (r, k')"
  shows "next_id k \<le> next_id k'" "sem_name k' = None \<or> sem_name k' = Some (next_id k) \<and> next_id k < next_id k'"
    and "shm_name k' = shm_name k \<or> shm_name k = None \<and> shm_name k' = Some (Suc (next_id k)) \<and> Suc (next_id k) < next_id k'"
    and "r = Exit n \<Longrightarrow> n = 1 \<and> (\<forall>i. i \<noteq> next_id k \<longrightarrow> sem_val k' i = sem_val k i) \<and>
      (sem_val k (next_id k) = 0 \<longrightarrow> sem_val k' (next_id k) = 0)"
    and "r = Run ha \<Longrightarrow> mutex_sem ha = next_id k \<and> sem_name k' = Some (next_id k) \<and> shm_name k' = Some (mm_ptr ha) \<and>
      sem_val k' = (sem_val k)(next_id k := 1) \<and> next_id k < next_id k' \<and> shm_text k' (mm_ptr ha) = replicate mm_size nul"
  using assms
  by (auto simp: server_attach_def create_sem_def open_shm_trunc_def resize_def Let_def
      split: if_splits option.splits)

lemma client_initD:
  "shmmap_client_init works k = Run ha \<Longrightarrow> sem_name k = Some (mutex_sem ha) \<and> shm_name k = Some (mm_ptr ha)"
  by (auto simp: shmmap_client_init_def split: option.splits if_splits)

text \<open>The name of the memory after a start, and the ids below the next one.\<close>

lemma attached_ids:
  assumes "known_ids s" "server_attach works (objects s) = (r, k)"
  shows "next_id (objects s) \<le> next_id k" "sem_name k = Some i \<Longrightarrow> i < next_id k" "shm_name k = Some m \<Longrightarrow> m < next_id k"
    and "handle s p = Some g \<Longrightarrow> mutex_sem g < next_id k \<and> mm_ptr g < next_id k"
proof -
  note d = server_attachD(1-3)[OF assms(2)]
  show le: "next_id (objects s) \<le> next_id k" by (rule d(1))
  show "i < next_id k" if "sem_name k = Some i" using d(2) that by auto
  show "m < next_id k" if "shm_name k = Some m"
  proof (cases "shm_name k = shm_name (objects s)")
    case True
    then have "m < next_id (objects s)" using assms(1) that unfolding known_ids_def by simp
    with le show ?thesis by simp
  next
    case False
    with d(3) that show ?thesis by auto
  qed
  show "mutex_sem g < next_id k \<and> mm_ptr g < next_id k" if "handle s p = Some g"
    using that le assms(1) unfolding known_ids_def by (meson less_le_trans)
qed

lemma known_ids_step:
  assumes "life_step crashes s s'" "known_ids s"
  shows "known_ids s'"
  using assms(1)
proof cases
  case (server_begins works ha k)
  note ids = attached_ids[OF assms(2) server_begins(3)] and d = server_attachD(5)[OF server_begins(3) refl]
  have "mutex_sem g < next_id k \<and> mm_ptr g < next_id k" if "((handle s)(Server \<mapsto> ha)) p = Some g" for p g
    using that d ids(3)[of "mm_ptr ha"] ids(4)[of p g] by (cases "p = Server") auto
  moreover have "sem_val k i = 0" if "next_id k \<le> i" for i
    using that ids(1) d assms(2) unfolding known_ids_def by simp
  ultimately show ?thesis using assms(2) ids(2,3) unfolding known_ids_def server_begins(1) by simp
next
  case (server_fails works n k)
  note ids = attached_ids[OF assms(2) server_fails(3)] and d = server_attachD(4)[OF server_fails(3) refl]
  have "sem_val k i = 0" if "next_id k \<le> i" for i
    using that assms(2) ids(1) d unfolding known_ids_def by (metis le_trans)
  then show ?thesis using assms(2) ids(2-4) unfolding known_ids_def server_fails(1) by simp
next
  case (server_ends ha)
  then show ?thesis using assms(2) by (auto simp: known_ids_def gone_def shmmap_server_kill_def)
next
  case (server_crashes ha)
  then show ?thesis using assms(2) by (auto simp: known_ids_def gone_def)
next
  case (viewer_begins v works ha)
  then show ?thesis using assms(2) client_initD[OF viewer_begins(3)] by (auto simp: known_ids_def)
next
  case (viewer_ends v)
  then show ?thesis using assms(2) by (auto simp: known_ids_def gone_def)
next
  case (enters p ha n)
  then show ?thesis using assms(2) by (auto simp: known_ids_def set_sem_def)
next
  case (leaves p ha)
  then show ?thesis using assms(2) by (force simp: known_ids_def set_sem_def)
next
  case (gives_up v ha)
  then show ?thesis using assms(2) by (auto simp: known_ids_def)
qed

lemma one_token_step:
  assumes "life_step crashes s s'" "known_ids s" "one_token s"
  shows "one_token s'"
  using assms(1)
proof cases
  case (server_begins works ha k)
  note d = server_attachD(5)[OF server_begins(3) refl]
  have f: "mutex_sem g \<noteq> next_id (objects s)" if "handle s p = Some g" for p g
    using assms(2) that unfolding known_ids_def by fastforce
  have n: "\<not> holds s Server" using assms(2) server_begins(2) unfolding known_ids_def by auto
  show ?thesis using assms(3) d f n unfolding one_token_def server_begins(1) by (simp split: if_splits)
next
  case (server_fails works n k)
  note d = server_attachD(4)[OF server_fails(3) refl]
  have "sem_val (objects s) (next_id (objects s)) = 0" using assms(2) unfolding known_ids_def by simp
  then have "sem_val k = sem_val (objects s)" using d by (metis ext)
  then show ?thesis using assms(3) unfolding one_token_def server_fails(1) by simp
next
  case (server_ends ha)
  then show ?thesis using assms(3) by (auto simp: one_token_def gone_def shmmap_server_kill_def split: if_splits)
next
  case (server_crashes ha)
  then show ?thesis using assms(3) by (auto simp: one_token_def gone_def split: if_splits)
next
  case (viewer_begins v works ha)
  have "\<not> holds s (Viewer v)" using assms(2) viewer_begins(2) unfolding known_ids_def by auto
  then show ?thesis using assms(3) unfolding one_token_def viewer_begins(1) by (simp split: if_splits)
next
  case (viewer_ends v)
  then show ?thesis using assms(3) by (auto simp: one_token_def gone_def split: if_splits)
next
  case (enters p ha n)
  have n: "n = 0" using assms(3) enters(4) unfolding one_token_def by (metis Suc_le_mono One_nat_def le_zero_eq)
  have "mutex_sem hb \<noteq> mutex_sem ha" if "handle s q = Some hb" "holds s q" for q hb
    using assms(3) enters(4) that unfolding one_token_def by (metis nat.distinct(1))
  then show ?thesis using assms(3) enters(2) n unfolding one_token_def enters(1) set_sem_def
    by (simp split: if_splits) metis
next
  case (leaves p ha)
  have z: "sem_val (objects s) (mutex_sem ha) = 0" using assms(3) leaves(2,3) unfolding one_token_def by metis
  have "mutex_sem hb \<noteq> mutex_sem ha" if "handle s q = Some hb" "holds s q" "q \<noteq> p" for q hb
    using assms(3) leaves(2,3) that unfolding one_token_def by metis
  then show ?thesis using assms(3) z unfolding one_token_def leaves(1) set_sem_def
    by (simp split: if_splits)
next
  case (gives_up v ha)
  then show ?thesis using assms(3) by (auto simp: one_token_def split: if_splits)
qed

text \<open>A step after which the same processes use the same names, and no semaphore has become live.\<close>

lemma one_pair_less:
  assumes "one_pair s" and "\<And>p ha. handle s' p = Some ha \<Longrightarrow> handle s p = Some ha"
    and "handle s' Server = handle s Server" "sem_name (objects s') = sem_name (objects s)"
    and "shm_name (objects s') = shm_name (objects s)" "\<And>i. live s' i \<Longrightarrow> live s i"
  shows "one_pair s'"
proof -
  have 1: "mutex_sem ha = mutex_sem hb"
    if "handle s' p = Some ha" "handle s' q = Some hb" "mm_ptr ha = mm_ptr hb" "live s' (mutex_sem ha)" "live s' (mutex_sem hb)"
    for p q ha hb
    using assms(1) assms(2)[OF that(1)] assms(2)[OF that(2)] that(3) assms(6)[OF that(4)] assms(6)[OF that(5)]
    unfolding one_pair_def by blast
  have 2: "\<not> live s' (mutex_sem ha)" if "handle s' Server = None" "handle s' p = Some ha" "shm_name (objects s') = Some (mm_ptr ha)" for p ha
    using assms(1) assms(2)[OF that(2)] that(1,3) assms(6) unfolding assms(3,5) one_pair_def by blast
  have 3: "\<not> live s' i" if "handle s' Server = None" "shm_name (objects s') = Some m" "sem_name (objects s') = Some i" for m i
    using assms(1) that assms(6) unfolding assms(3-5) one_pair_def by blast
  have "\<forall>ha. handle s' Server = Some ha \<longrightarrow>
      sem_name (objects s') = Some (mutex_sem ha) \<and> shm_name (objects s') = Some (mm_ptr ha)"
    using assms(1) unfolding assms(3-5) one_pair_def by blast
  then show ?thesis unfolding one_pair_def using 1 2 3 by blast
qed

lemma fresh_dead: "known_ids s \<Longrightarrow> next_id (objects s) \<le> i \<Longrightarrow> \<not> live s i"
  unfolding known_ids_def live_def by fastforce

lemma live_objects: "sem_val k i = sem_val (objects s) i \<Longrightarrow> live (s\<lparr>objects := k\<rparr>) i = live s i"
  by (simp add: live_def)

lemma live_handle:
  assumes "handle s p = None" "\<not> holds s p"
  shows "live (s\<lparr>handle := (handle s)(p \<mapsto> g)\<rparr>) i = live s i"
proof -
  have "((handle s)(p \<mapsto> g)) q = handle s q" if "holds s q" for q using assms(2) that by auto
  then show ?thesis unfolding live_def by (simp del: fun_upd_apply) metis
qed

lemma one_pair_begins:
  assumes "known_ids s" "one_pair s" "handle s Server = None" "server_attach works (objects s) = (Run ha, k)"
  shows "one_pair (s\<lparr>objects := k, handle := (handle s)(Server \<mapsto> ha)\<rparr>)" (is "one_pair ?s")
proof -
  note d = server_attachD(3)[OF assms(4)] server_attachD(5)[OF assms(4) refl]
  have ids: "mutex_sem g < next_id (objects s)" "mm_ptr g < next_id (objects s)" if "handle s p = Some g" for p g
    using assms(1) that unfolding known_ids_def by blast+
  have out: "\<not> holds s Server" using assms(1,3) unfolding known_ids_def by auto
  have old: "live ?s i \<longleftrightarrow> live s i" if "i < next_id (objects s)" for i
    using live_handle[of "s\<lparr>objects := k\<rparr>" Server ha i] live_objects[of k i s] that d(2) out assms(3) by simp
  have dead: "\<not> live s (mutex_sem g)" if "handle s p = Some g" "mm_ptr g = mm_ptr ha" for p g
  proof -
    have "shm_name (objects s) = Some (mm_ptr ha)" using d ids(2)[OF that(1)] that(2) by auto
    then show ?thesis using assms(2,3) that unfolding one_pair_def by blast
  qed
  have "mutex_sem g = mutex_sem g'"
    if "handle ?s p = Some g" "handle ?s q = Some g'" "mm_ptr g = mm_ptr g'" "live ?s (mutex_sem g)" "live ?s (mutex_sem g')"
    for p q g g'
  proof (cases "p = Server"; cases "q = Server")
    assume "p \<noteq> Server" "q \<noteq> Server"
    then show ?thesis using that assms(2) old[OF ids(1)] unfolding one_pair_def by simp
  next
    assume "p = Server" "q \<noteq> Server"
    then show ?thesis using that dead[of q g'] old[OF ids(1), of q g'] by simp
  next
    assume "p \<noteq> Server" "q = Server"
    then show ?thesis using that dead[of p g] old[OF ids(1), of p g] by simp
  qed (use that in simp)
  then show ?thesis using d(2) unfolding one_pair_def by simp
qed

lemma one_pair_fails:
  assumes "known_ids s" "one_pair s" "handle s Server = None" "server_attach works (objects s) = (Exit n, k)"
  shows "one_pair (s\<lparr>objects := k\<rparr>)" (is "one_pair ?s")
proof -
  note d = server_attachD(2,3)[OF assms(4)] server_attachD(4)[OF assms(4) refl]
  have "sem_val (objects s) (next_id (objects s)) = 0" using assms(1) unfolding known_ids_def by simp
  then have "sem_val k = sem_val (objects s)" using d(3) by (metis ext)
  then have live: "live ?s = live s" by (simp add: live_def fun_eq_iff)
  have ids: "mm_ptr g < next_id (objects s)" if "handle s p = Some g" for p g
    using assms(1) that unfolding known_ids_def by blast
  have "\<not> live s (mutex_sem g)" if "handle s p = Some g" "shm_name k = Some (mm_ptr g)" for p g
  proof -
    have "shm_name (objects s) = Some (mm_ptr g)" using that(2) d(2) ids[OF that(1)] by auto
    then show ?thesis using assms(2,3) that(1) unfolding one_pair_def by blast
  qed
  moreover have "\<not> live s i" if "sem_name k = Some i" for i
    using that d(1) fresh_dead[OF assms(1), of "next_id (objects s)"] by auto
  ultimately show ?thesis using assms(2,3) unfolding one_pair_def live by simp
qed

lemma one_pair_step:
  assumes "life_step False s s'" "known_ids s" "one_pair s"
  shows "one_pair s'"
  using assms(1)
proof cases
  case (server_begins works ha k)
  with one_pair_begins[OF assms(2,3)] show ?thesis by simp
next
  case (server_fails works n k)
  with one_pair_fails[OF assms(2,3)] show ?thesis by simp
next
  case (server_ends ha)
  have "live s' i \<Longrightarrow> live s i" for i
    unfolding server_ends(1) live_def gone_def shmmap_server_kill_def by (auto split: if_splits)
  then show ?thesis using assms(3) unfolding one_pair_def server_ends(1) gone_def shmmap_server_kill_def
    by (simp split: if_splits)
next
  case server_crashes
  then show ?thesis by simp
next
  case (viewer_begins v works ha)
  note n = client_initD[OF viewer_begins(3)]
  have out: "\<not> holds s (Viewer v)" using assms(2) viewer_begins(2) unfolding known_ids_def by auto
  have live: "live s' = live s" using live_handle[of s "Viewer v" ha] viewer_begins(2) out
    unfolding viewer_begins(1) by (simp add: fun_eq_iff)
  have "mutex_sem ha = mutex_sem g" if "handle s q = Some g" "mm_ptr g = mm_ptr ha" "live s (mutex_sem ha)" "live s (mutex_sem g)"
    for q g
  proof (cases "handle s Server")
    case None
    with assms(3) n that show ?thesis unfolding one_pair_def by blast
  next
    case (Some hs)
    then have "mutex_sem hs = mutex_sem ha" "mm_ptr hs = mm_ptr ha" using assms(3) n unfolding one_pair_def by auto
    with Some assms(3) that show ?thesis unfolding one_pair_def by metis
  qed
  moreover have "\<not> live s (mutex_sem ha)" if "handle s Server = None"
    using assms(3) n that unfolding one_pair_def by blast
  ultimately show ?thesis using assms(3) n unfolding one_pair_def live unfolding viewer_begins(1)
    by (simp split: if_splits) metis
next
  case (viewer_ends v)
  show ?thesis by (rule one_pair_less[OF assms(3)]) (auto simp: viewer_ends gone_def live_def split: if_splits)
next
  case (enters p ha n)
  show ?thesis by (rule one_pair_less[OF assms(3)]) (use enters in \<open>auto simp: set_sem_def live_def split: if_splits\<close>)
next
  case (leaves p ha)
  show ?thesis by (rule one_pair_less[OF assms(3)]) (use leaves in \<open>auto simp: set_sem_def live_def split: if_splits\<close>)
next
  case (gives_up v ha)
  show ?thesis by (rule one_pair_less[OF assms(3)]) (auto simp: gives_up live_def split: if_splits)
qed

lemma life_start: "known_ids power_on" "one_token power_on" "one_pair power_on"
  by (simp_all add: known_ids_def one_token_def one_pair_def power_on_def no_objects_def)

lemma life_invariants:
  assumes "life_reach crashes s"
  shows "known_ids s \<and> one_token s \<and> (\<not> crashes \<longrightarrow> one_pair s)"
  using assms unfolding life_reach_def
proof (induction rule: rtranclp_induct)
  case base
  show ?case using life_start by simp
next
  case (step s s')
  then have "known_ids s'" "one_token s'" using known_ids_step one_token_step by blast+
  moreover have "one_pair s'" if "\<not> crashes" using that step one_pair_step[of s s'] by simp
  ultimately show ?case by simp
qed

section \<open>Properties\<close>

text \<open>C5. The critical section protects the memory through every orderly history: servers start, with or without
  success, and end, and viewers come, go, are killed, or lose the semaphore by a failed parse, and still
  two processes that work on the same memory object are never both in their critical sections.\<close>

theorem memory_exclusion:
  assumes "life_reach False s" "handle s p = Some ha" "handle s q = Some hb" "mm_ptr ha = mm_ptr hb"
    and "p \<noteq> q" "holds s p"
  shows "\<not> holds s q"
proof
  assume q: "holds s q"
  have i: "one_token s" "one_pair s" using life_invariants[OF assms(1)] by simp_all
  have "live s (mutex_sem ha)" "live s (mutex_sem hb)" using assms(2,3,6) q unfolding live_def by blast+
  then have "mutex_sem ha = mutex_sem hb" using i(2) assms(2-4) unfolding one_pair_def by blast
  then show False using i(1) assms(2,3,5,6) q unfolding one_token_def by blast
qed

text \<open>The states of a run: the server starts, a viewer starts and enters its critical section.\<close>

definition first_pair :: handles where
  "first_pair = \<lparr>mutex_sem = 0, mm_ptr = 1\<rparr>"

definition viewer_inside :: life where
  "viewer_inside = \<lparr>objects = \<lparr>sem_name = Some 0, shm_name = Some 1, sem_val = (\<lambda>_. 0)(0 := 0),
     shm_text = (\<lambda>_. '''')(1 := replicate mm_size nul), next_id = 2\<rparr>,
   handle = (\<lambda>_. None)(Server \<mapsto> first_pair, Viewer 0 \<mapsto> first_pair), holds = (\<lambda>_. False)(Viewer 0 := True)\<rparr>"

lemma viewer_inside_reach: "life_reach crashes viewer_inside"
proof -
  let ?k = "snd (server_attach (\<lambda>_. True) no_objects)"
  have a: "(Run first_pair, ?k) = server_attach (\<lambda>_. True) no_objects"
    by (simp add: server_attach_def no_objects_def create_sem_def open_shm_trunc_def first_pair_def Let_def)
  let ?s1 = "power_on\<lparr>objects := ?k, handle := (handle power_on)(Server \<mapsto> first_pair)\<rparr>"
  let ?s2 = "?s1\<lparr>handle := (handle ?s1)(Viewer 0 \<mapsto> first_pair)\<rparr>"
  have "life_step crashes power_on ?s1"
    by (rule server_begins[where works = "\<lambda>_. True" and ha = first_pair]) (simp add: power_on_def, simp only: power_on_def life.simps a)
  moreover have "life_step crashes ?s1 ?s2"
    by (rule viewer_begins[where works = "\<lambda>_. True"])
      (simp_all add: power_on_def shmmap_client_init_def server_attach_def no_objects_def create_sem_def open_shm_trunc_def
        first_pair_def Let_def)
  moreover have "life_step crashes ?s2 viewer_inside"
    using enters[of ?s2 "Viewer 0" first_pair 0 crashes]
    by (simp add: viewer_inside_def power_on_def server_attach_def no_objects_def create_sem_def open_shm_trunc_def
        first_pair_def set_sem_def resize_def Let_def numeral_2_eq_2)
  ultimately show ?thesis unfolding life_reach_def by (meson converse_rtranclp_into_rtranclp rtranclp.rtrancl_refl)
qed

theorem memory_exclusion_witness:
  "handle viewer_inside (Viewer 0) = Some first_pair \<and> handle viewer_inside Server = Some first_pair \<and>
    holds viewer_inside (Viewer 0) \<and> \<not> holds viewer_inside Server"
proof -
  have h: "handle viewer_inside (Viewer 0) = Some first_pair" "handle viewer_inside Server = Some first_pair"
    "holds viewer_inside (Viewer 0)" by (simp_all add: viewer_inside_def)
  have "\<not> holds viewer_inside Server"
    by (rule memory_exclusion[OF viewer_inside_reach h(1,2) refl _ h(3)]) simp
  with h show ?thesis by blast
qed

text \<open>A server that disappears without its handler and is started again creates a new semaphore for the old
  memory: a viewer that was inside its critical section and the new server can then be inside together.\<close>

theorem crash_breaks_exclusion:
  "\<exists>s ha hb. life_reach True s \<and> handle s Server = Some ha \<and> handle s (Viewer 0) = Some hb \<and>
    mm_ptr ha = mm_ptr hb \<and> mutex_sem ha \<noteq> mutex_sem hb \<and> holds s Server \<and> holds s (Viewer 0)"
proof -
  let ?s1 = "gone Server viewer_inside"
  let ?hd = "\<lparr>mutex_sem = 2, mm_ptr = 1\<rparr>"
  let ?k = "snd (server_attach (\<lambda>_. True) (objects ?s1))"
  have a: "server_attach (\<lambda>_. True) (objects ?s1) = (Run ?hd, ?k)"
    by (simp add: server_attach_def viewer_inside_def gone_def create_sem_def open_shm_trunc_def Let_def)
  let ?s2 = "?s1\<lparr>objects := ?k, handle := (handle ?s1)(Server \<mapsto> ?hd)\<rparr>"
  let ?s3 = "(set_sem 2 0 ?s2)\<lparr>holds := (holds ?s2)(Server := True)\<rparr>"
  have "life_step True viewer_inside ?s1" by (rule server_crashes) (simp_all add: viewer_inside_def)
  moreover have "life_step True ?s1 ?s2" by (rule server_begins[OF _ a]) (simp add: gone_def)
  moreover have "life_step True ?s2 ?s3"
    using enters[of ?s2 Server ?hd 0 True]
    by (simp add: viewer_inside_def gone_def server_attach_def create_sem_def open_shm_trunc_def Let_def set_sem_def)
  ultimately have "life_reach True ?s3"
    using viewer_inside_reach[of True] unfolding life_reach_def by (meson rtranclp.rtrancl_into_rtrancl)
  moreover have "handle ?s3 Server = Some ?hd" "handle ?s3 (Viewer 0) = Some first_pair" "holds ?s3 Server" "holds ?s3 (Viewer 0)"
    by (simp_all add: set_sem_def gone_def viewer_inside_def)
  moreover have "mm_ptr ?hd = mm_ptr first_pair" "mutex_sem ?hd \<noteq> mutex_sem first_pair" by (simp_all add: first_pair_def)
  ultimately show ?thesis by blast
qed

text \<open>A viewer that was started before an orderly restart keeps the memory and the semaphore of the old server.\<close>

lemma restart_leaves_viewers:
  assumes "known_ids s" "handle s (Viewer v) = Some hb" "server_attach works (shmmap_server_kill (objects s)) = (Run ha, k)"
  shows "mm_ptr ha \<noteq> mm_ptr hb \<and> mutex_sem ha \<noteq> mutex_sem hb"
proof -
  have "mutex_sem hb < next_id (objects s)" "mm_ptr hb < next_id (objects s)"
    using assms(1,2) unfolding known_ids_def by blast+
  then show ?thesis using server_attachD(3)[OF assms(3)] server_attachD(5)[OF assms(3) refl]
    by (auto simp: shmmap_server_kill_def)
qed

section \<open>The ends of the programs\<close>

text \<open>What a program holds of the system: its open descriptors, the shared objects, and the lines on standard error, which
  is the log stream of all three programs.\<close>

record held =
  fds :: "int set"
  shared :: ipc
  log_text :: "string list"

definition close_fd :: "int \<Rightarrow> held \<Rightarrow> held" where
  "close_fd n d = d\<lparr>fds := fds d - {n}\<rparr>"

definition socket_destroy :: "int \<Rightarrow> held \<Rightarrow> int \<times> held" where
  "socket_destroy sockfd d = (0, close_fd sockfd d)"

text \<open>The last lines of the main functions, with the exit code.  The log stream is always standard error, so it is
  never closed.\<close>

definition server_finish :: "string \<Rightarrow> int \<Rightarrow> held \<Rightarrow> int \<times> held" where
  "server_finish app_name sock_fd d =
    (let d1 = (if sock_fd \<noteq> 0 then close_fd sock_fd d else d);
         d2 = d1\<lparr>shared := shmmap_server_kill (shared d1)\<rparr>
     in (0, d2\<lparr>log_text := log_text d2 @ [''Stopped '' @ app_name]\<rparr>))"

definition pfsql_finish :: "string \<Rightarrow> held \<Rightarrow> int \<times> held" where
  "pfsql_finish app_name d = (0, d\<lparr>log_text := log_text d @ [''Stopped '' @ app_name]\<rparr>)"

definition client_finish :: "string \<Rightarrow> held \<Rightarrow> int \<times> held" where
  "client_finish app_name d = (0, d\<lparr>log_text := log_text d @ [''Stopped '' @ app_name]\<rparr>)"

text \<open>An interrupted server has closed its socket, whatever it closed before, and no viewer can start until another
  server has; the database writer leaves the objects as they are.\<close>

lemma server_finish_clean:
  assumes "server_finish app_name sock_fd (snd (socket_destroy sock_fd d)) = (rc, d')"
  shows "rc = 0 \<and> sock_fd \<notin> fds d' \<and> shmmap_client_init works (shared d') = Exit 1"
  using assms
  by (cases "sock_fd = 0") (auto simp: server_finish_def socket_destroy_def close_fd_def shmmap_server_kill_def shmmap_client_init_def Let_def)

lemma pfsql_finish_shared: "shared (snd (pfsql_finish app_name d)) = shared d"
  by (simp add: pfsql_finish_def)

end
