(* ===== verification/Pfstop.thy ===== *)
theory Pfstop
  imports Viewer Lifecycle Loops
begin

text \<open>
  The viewer \<open>pfstop\<close> as a program (\<open>server/screen.c\<close>): the start of \<open>main\<close> after the options, the callbacks of
  the terminal and of the signals, and the event loop.

  libev runs the callback of the keyboard first, and a refresh that it asks for in the same iteration of the loop; so an
  event of the model is a callback with the refresh it feeds.  The size of the terminal, the keys, the clock and the text of
  the shared memory come with the events.  The calls of curses that set modes and colours are not modelled.
\<close>

section \<open>The program\<close>

record pfstop =
  viewer :: screen
  refresh_timer :: timer
  term_size :: "int \<times> int"
  is_active :: bool
  outputs :: "((int \<times> int) \<times> (int \<times> int \<times> string) list) list"

definition screen_init :: "double \<Rightarrow> stats \<Rightarrow> screen \<times> timer" where
  "screen_init interval st = (screen_start st, \<lparr>has_cb = True, repeat = interval, active = False\<rparr>)"

text \<open>The beginning of \<open>screen_start\<close>, which ends the program when there is no terminal.\<close>

definition start_curses :: "(int \<times> int) option \<Rightarrow> (int \<times> int) outcome" where
  "start_curses initscr = (case initscr of None \<Rightarrow> Exit 1 | Some lines_cols \<Rightarrow> Run lines_cols)"

text \<open>\<open>main\<close> from the shared memory on.\<close>

definition pfstop_setup ::
    "(call \<Rightarrow> bool) \<Rightarrow> ipc \<Rightarrow> (int \<times> int) option \<Rightarrow> double \<Rightarrow> (handles \<times> pfstop) outcome" where
  "pfstop_setup works k initscr interval =
    (case shmmap_client_init works k of
       Exit n \<Rightarrow> Exit n
     | Run ha \<Rightarrow>
         (let (v, t) = screen_init interval (map_init [])
          in case start_curses initscr of
               Exit n \<Rightarrow> Exit n
             | Run lines_cols \<Rightarrow> Run (ha, \<lparr>viewer = v, refresh_timer = t\<lparr>active := True\<rparr>, term_size = lines_cols,
                 is_active = True, outputs = []\<rparr>)))"

definition screen_stop :: "pfstop \<Rightarrow> pfstop" where
  "screen_stop p = p\<lparr>refresh_timer := (refresh_timer p)\<lparr>active := False\<rparr>, is_active := False\<rparr>"

section \<open>Callbacks\<close>

definition ERR :: int where
  "ERR = -1"

text \<open>\<open>has_key_cb\<close> is the test of the address of \<open>screen_key_cb\<close>, which holds in this program.\<close>

definition stdin_io_cb :: "bool \<Rightarrow> int \<Rightarrow> double \<Rightarrow> int \<Rightarrow> screen \<Rightarrow> screen" where
  "stdin_io_cb has_key_cb LINES ev_now k s =
    (if k = ERR then s
     else if has_key_cb then screen_key_cb LINES ev_now k s
     else if k = key CHR '' '' \<or> k = 10 then screen_refresh s
     else if k = key CHR ''q'' then s\<lparr>quit := True\<rparr>
     else s)"

text \<open>\<open>winsize\<close> is the result of \<open>ioctl\<close>.\<close>

definition sigwinch_cb :: "(int \<times> int) option \<Rightarrow> pfstop \<Rightarrow> pfstop" where
  "sigwinch_cb winsize p =
    (case winsize of None \<Rightarrow> p | Some lines_cols \<Rightarrow> p\<lparr>term_size := lines_cols, viewer := screen_refresh (viewer p)\<rparr>)"

definition sigint_cb :: "pfstop \<Rightarrow> pfstop" where
  "sigint_cb p = p\<lparr>viewer := (viewer p)\<lparr>quit := True\<rparr>\<rparr>"

section \<open>The event loop\<close>

record world =
  wenv :: env
  wfilters :: filters
  wqsort :: "(jval \<Rightarrow> jval \<Rightarrow> int) \<Rightarrow> jval list \<Rightarrow> jval list"
  wprog :: string
  wctime :: "int \<Rightarrow> string"

text \<open>Every event comes with the time and the text of the shared memory a refresh would find.\<close>

datatype viewer_event = RefreshTimer | Stdin int | Winch "(int \<times> int) option" | Sigint

definition refresh :: "world \<Rightarrow> double \<Rightarrow> string \<Rightarrow> pfstop \<Rightarrow> pfstop option" where
  "refresh W ev_now mem p = do {
     (v, printed) \<leftarrow> refresh_timer_cb (wenv W) (wfilters W) (wqsort W) (wprog W) (wctime W)
       (fst (term_size p)) (snd (term_size p)) ev_now mem (viewer p);
     Some (p\<lparr>viewer := v, outputs := outputs p @ [(term_size p, printed)]\<rparr>)
   }"

definition refresh_if_pending :: "world \<Rightarrow> double \<Rightarrow> string \<Rightarrow> pfstop \<Rightarrow> pfstop option" where
  "refresh_if_pending W ev_now mem p = (if refresh_pending (viewer p) then refresh W ev_now mem p else Some p)"

definition pfstop_step :: "world \<Rightarrow> double \<times> string \<times> viewer_event \<Rightarrow> pfstop \<Rightarrow> pfstop option" where
  "pfstop_step W = (\<lambda>(ev_now, mem, ev) p.
    (if quit (viewer p) then Some p
     else (case ev of
         RefreshTimer \<Rightarrow>
           if active (refresh_timer p)
           then refresh W ev_now mem (p\<lparr>refresh_timer := ev_timer_fired (refresh_timer p)\<rparr>) else Some p
       | Stdin k \<Rightarrow> refresh_if_pending W ev_now mem
           (p\<lparr>viewer := stdin_io_cb True (fst (term_size p)) ev_now k (viewer p)\<rparr>)
       | Winch winsize \<Rightarrow> refresh_if_pending W ev_now mem (sigwinch_cb winsize p)
       | Sigint \<Rightarrow> Some (sigint_cb p))))"

definition pfstop_run :: "world \<Rightarrow> (double \<times> string \<times> viewer_event) list \<Rightarrow> pfstop \<Rightarrow> pfstop option" where
  "pfstop_run W evs p = map_option screen_stop (foldM (pfstop_step W) evs p)"

section \<open>What is printed\<close>

definition on_screen :: "(int \<times> int) \<times> (int \<times> int \<times> string) list \<Rightarrow> bool" where
  "on_screen = (\<lambda>((l, c), printed). list_all (\<lambda>(line, col, t). 0 \<le> line \<and> line < l) printed)"

lemma visible_rows_lines: "(j, l) \<in> set (visible_rows LINES len j0 l0) \<Longrightarrow> l0 \<le> l \<and> l < LINES - 1"
  unfolding visible_rows_eq by auto

lemma print_rows_lines:
  assumes "foldM (print_row E h tags evs arr) shown done' = Some printed" "(line, col, t) \<in> set printed"
  shows "(line, col, t) \<in> set done' \<or> line \<in> snd ` set shown"
  using assms
proof (induction shown arbitrary: done')
  case (Cons x shown)
  obtain j l where x: "x = (j, l)" by (cases x)
  obtain r where "foldM (print_row E h tags evs arr) shown (done' @ [(l, 0, r)]) = Some printed"
    using Cons.prems(1) by (auto simp: x print_row_def bind_eq_Some_conv split: option.splits)
  from Cons.IH[OF this Cons.prems(2)] show ?case by (auto simp: x)
qed simp

lemma printed_on_screen:
  assumes "screen_refresh_cb E q pname ct LINES COLS now s = Some (s', printed)" "2 \<le> LINES"
  shows "on_screen ((LINES, COLS), printed)"
proof -
  obtain header rows bar clk h tags evs arr len start where p: "printed = (0, 0, header) # rows @ (LINES - 1, 0, bar) # clk"
    and r: "foldM (print_row E h tags evs arr) (visible_rows LINES len start 1) [] = Some rows"
    and c: "\<forall>(line, col, t) \<in> set clk. line = LINES - 1"
    using assms(1) unfolding screen_refresh_cb_def Let_def bind_eq_Some_conv append_Cons append_Nil
    by (elim exE conjE, unfold option.inject prod.inject, elim conjE) (rule that, erule sym, assumption, simp)
  have "1 \<le> l \<and> l < LINES - 1" if "(l, col, t) \<in> set rows" for l col t
    using print_rows_lines[OF r that] visible_rows_lines by fastforce
  then show ?thesis using p c assms(2) by (fastforce simp: on_screen_def list_all_iff)
qed

section \<open>The invariant of the loop\<close>

definition viewer_ok :: "pfstop \<Rightarrow> bool" where
  "viewer_ok p \<longleftrightarrow> scroll_ok (viewer p) \<and> \<not> refresh_pending (viewer p) \<and> 2 \<le> fst (term_size p) \<and>
    list_all on_screen (outputs p)"

lemma refresh_ok:
  assumes "0 \<le> da_len (viewer p)" "2 \<le> fst (term_size p)" "list_all on_screen (outputs p)"
  shows "whenever (refresh W now mem p) viewer_ok"
  unfolding whenever_def
proof (intro allI impI)
  fix p'
  assume "refresh W now mem p = Some p'"
  then obtain v printed where r: "refresh_timer_cb (wenv W) (wfilters W) (wqsort W) (wprog W) (wctime W)
      (fst (term_size p)) (snd (term_size p)) now mem (viewer p) = Some (v, printed)"
    and p': "p' = p\<lparr>viewer := v, outputs := outputs p @ [(term_size p, printed)]\<rparr>"
    by (auto simp: refresh_def bind_eq_Some_conv)
  then obtain st v1 where v1: "screen_refresh_cb (wenv W) (wqsort W) (wprog W) (wctime W) (fst (term_size p)) (snd (term_size p)) now
      ((viewer p)\<lparr>sst := st\<rparr>) = Some (v1, printed)" and v: "v = v1\<lparr>refresh_pending := False\<rparr>"
    by (auto simp: refresh_timer_cb_def bind_eq_Some_conv)
  have "scroll_ok v1"
    using screen_refresh_scroll[of "(viewer p)\<lparr>sst := st\<rparr>", OF _ assms(2)] assms(1) v1 by (fastforce simp: whenever_def)
  moreover have "on_screen (term_size p, printed)" using printed_on_screen[OF v1 assms(2)] by simp
  ultimately show "viewer_ok p'" using assms(2,3) by (simp add: p' v viewer_ok_def scroll_ok_def)
qed

lemma key_pending:
  "refresh_pending (screen_key_cb LINES now k s) \<or>
    quit (screen_key_cb LINES now k s) \<and> screen_key_cb LINES now k s = s\<lparr>quit := True\<rparr>"
  by (simp add: screen_key_cb_def screen_refresh_def Let_def)

lemma stdin_step:
  assumes "viewer_ok p" "v = stdin_io_cb True LINES now k (viewer p)"
  shows "da_len v = da_len (viewer p)" "\<not> refresh_pending v \<Longrightarrow> scroll_ok v"
proof -
  show "da_len v = da_len (viewer p)" by (simp add: assms(2) stdin_io_cb_def key_scroll)
  show "scroll_ok v" if "\<not> refresh_pending v"
    using key_pending[of LINES now k "viewer p"] that assms
    by (auto simp: stdin_io_cb_def viewer_ok_def scroll_ok_def split: if_splits)
qed

lemma pfstop_step_ok:
  assumes "viewer_ok p" "\<forall>lines cols. ev = Winch (Some (lines, cols)) \<longrightarrow> 2 \<le> lines"
  shows "whenever (pfstop_step W (now, mem, ev) p) viewer_ok"
proof (cases "quit (viewer p)")
  case True
  then show ?thesis using assms(1) by (simp add: pfstop_step_def)
next
  case False
  have len: "0 \<le> da_len (viewer p)" using assms(1) by (simp add: viewer_ok_def scroll_ok_def)
  show ?thesis
  proof (cases ev)
    case RefreshTimer
    have "whenever (refresh W now mem (p\<lparr>refresh_timer := t\<rparr>)) viewer_ok" for t
      by (rule refresh_ok) (use assms(1) len in \<open>simp_all add: viewer_ok_def\<close>)
    then show ?thesis using assms(1) False RefreshTimer by (simp add: pfstop_step_def)
  next
    case (Stdin k)
    let ?v = "stdin_io_cb True (fst (term_size p)) now k (viewer p)"
    have "whenever (refresh W now mem (p\<lparr>viewer := ?v\<rparr>)) viewer_ok"
      by (rule refresh_ok) (use assms(1) len stdin_step(1)[OF assms(1) refl] in \<open>simp_all add: viewer_ok_def\<close>)
    moreover have "viewer_ok (p\<lparr>viewer := ?v\<rparr>)" if "\<not> refresh_pending ?v"
      using assms(1) stdin_step(2)[OF assms(1) refl that] that by (simp add: viewer_ok_def)
    ultimately show ?thesis using False Stdin by (simp add: pfstop_step_def refresh_if_pending_def)
  next
    case (Winch winsize)
    show ?thesis
    proof (cases winsize)
      case None
      then show ?thesis using assms(1) False Winch
        by (simp add: pfstop_step_def sigwinch_cb_def refresh_if_pending_def viewer_ok_def)
    next
      case (Some w)
      have "whenever (refresh W now mem (p\<lparr>term_size := w, viewer := screen_refresh (viewer p)\<rparr>)) viewer_ok"
        by (rule refresh_ok) (use assms len Winch Some in \<open>cases w; simp add: viewer_ok_def screen_refresh_def\<close>)+
      then show ?thesis using False Winch Some
        by (simp add: pfstop_step_def sigwinch_cb_def refresh_if_pending_def screen_refresh_def)
    qed
  next
    case Sigint
    then show ?thesis using assms(1) False by (simp add: pfstop_step_def sigint_cb_def viewer_ok_def scroll_ok_def)
  qed
qed

definition resize_ok :: "double \<times> string \<times> viewer_event \<Rightarrow> bool" where
  "resize_ok = (\<lambda>(now, mem, ev). case ev of Winch (Some (lines, cols)) \<Rightarrow> 2 \<le> lines | _ \<Rightarrow> True)"

interpretation viewer_loop: event_loop "pfstop_step W" viewer_ok resize_ok
  for W
proof
  fix p x
  assume p: "viewer_ok p" and x: "resize_ok x"
  obtain now mem ev where e: "x = (now, mem, ev)" by (cases x)
  show "whenever (pfstop_step W x p) viewer_ok"
    unfolding e by (rule pfstop_step_ok[OF p]) (use x e in \<open>auto simp: resize_ok_def\<close>)
qed

section \<open>Properties\<close>

text \<open>C23. The viewer stays on its screen: through every sequence of keys, timer expiries, changes of the size to
  at least two lines and signals, every text it prints lies on a line of the terminal as it is at that moment, and
  after every event the scroll position is one of the table.\<close>

theorem viewer_stays_on_screen:
  assumes "pfstop_setup works k (Some (lines, cols)) interval = Run (ha, p0)" "2 \<le> lines"
    and "\<forall>now mem l c. (now, mem, Winch (Some (l, c))) \<in> set evs \<longrightarrow> 2 \<le> l"
    and "pfstop_run W evs p0 = Some p"
  shows "list_all (\<lambda>((l, c), printed). list_all (\<lambda>(line, col, t). 0 \<le> line \<and> line < l) printed) (outputs p) \<and>
    0 \<le> scroll_start (viewer p) \<and> scroll_start (viewer p) \<le> da_len (viewer p) \<and> \<not> is_active p"
proof -
  obtain q where q: "foldM (pfstop_step W) evs p0 = Some q" "p = screen_stop q" using assms(4) by (auto simp: pfstop_run_def)
  have "viewer_ok p0"
    using assms(1,2)
    by (auto simp: pfstop_setup_def screen_init_def screen_start_def start_curses_def viewer_ok_def scroll_ok_def
        new_array_def new_object_def new_node_def Let_def split: outcome.splits)
  moreover have "\<forall>x \<in> set evs. resize_ok x"
    using assms(3) by (force simp: resize_ok_def split: viewer_event.split option.split)
  ultimately have "viewer_ok q" by (rule viewer_loop.run_keeps[OF _ _ q(1)])
  then show ?thesis
    unfolding on_screen_def[symmetric] by (simp add: q(2) screen_stop_def viewer_ok_def scroll_ok_def)
qed

definition sample_world :: world where
  "sample_world = \<lparr>wenv = plain_env, wfilters = no_filters, wqsort = (\<lambda>_ xs. xs), wprog = ''pfstop'', wctime = (\<lambda>_. ''now'')\<rparr>"

theorem viewer_stays_on_screen_witness:
  "\<exists>ha p0 p. pfstop_setup (\<lambda>_. True) (snd (server_attach (\<lambda>_. True) no_objects)) (Some (24, 80)) 3 = Run (ha, p0) \<and>
    pfstop_run sample_world [(1, '''', RefreshTimer), (2, '''', Stdin KEY_END), (3, '''', Winch (Some (2, 40))), (4, '''', Sigint)] p0 = Some p \<and>
    outputs p \<noteq> [] \<and> scroll_start (viewer p) \<le> da_len (viewer p)"
proof -
  let ?evs = "[(1, '''', RefreshTimer), (2, '''', Stdin KEY_END), (3, '''', Winch (Some (2, 40))), (4, '''', Sigint)]"
  let ?p0 = "\<lparr>viewer = screen_start (map_init []), refresh_timer = \<lparr>has_cb = True, repeat = 3, active = True\<rparr>, term_size = (24, 80),
    is_active = True, outputs = []\<rparr>"
  have s: "pfstop_setup (\<lambda>_. True) (snd (server_attach (\<lambda>_. True) no_objects)) (Some (24, 80)) 3 =
      Run (\<lparr>mutex_sem = 0, mm_ptr = 1\<rparr>, ?p0)"
    by (simp add: pfstop_setup_def shmmap_client_init_def server_attach_def no_objects_def create_sem_def open_shm_trunc_def
        screen_init_def start_curses_def Let_def)
  have "(case pfstop_run sample_world ?evs ?p0 of None \<Rightarrow> False | Some p \<Rightarrow> outputs p \<noteq> [])" by code_simp
  then obtain p where p: "pfstop_run sample_world ?evs ?p0 = Some p" "outputs p \<noteq> []" by (auto split: option.splits)
  have "scroll_start (viewer p) \<le> da_len (viewer p)"
    using viewer_stays_on_screen[OF s _ _ p(1)] by simp
  with s p show ?thesis by blast
qed

end
