(* ===== verification/Usage.thy ===== *)
theory Usage
  imports Screen
begin

text \<open>
  The help the programs print, read back and compared with the options and keys they accept: the functions
  \<open>usage\<close> of \<open>server/pfstrase_server.c\<close>, \<open>server/pfsql.c\<close>, \<open>client/pfstrase_client.c\<close> and
  \<open>server/screen.c\<close> against the tables of \<open>Options\<close> and \<open>Screen\<close>.

  The text is what \<open>fprintf\<close> writes for the name \<open>prog\<close> of the program.  \<open>told_options\<close> reads the option lines
  of such a text, \<open>told_keys\<close> the lines of keys, and \<open>refused\<close> lists the documented spellings that \<open>getopt_long\<close>
  rejects.
\<close>

section \<open>The texts\<close>

definition paragraph_of :: "string list \<Rightarrow> string" where
  "paragraph_of ls = concat (map (\<lambda>l. l @ [newline]) ls)"

definition usage_line :: "string \<Rightarrow> string \<Rightarrow> string" where
  "usage_line prog args = ''Usage: '' @ prog @ args"

definition server_help :: "string list" where
  "server_help =
    [''Statistics collector for PFSTRASE (Parallel FileSystem TRacing and Analysis SErvice).'',
     '''',
     ''Mandatory arguments to long options are mandatory for short options too.'',
     ''  -h, --help                 display this help and exit.'',
     ''  -d --daemon                Run in daemon mode.'',
     ''  -i --interval  [INTERVAL]  Interval to update shared memory.'',
     ''  -c --conf_file [FILENAME]  Read configuration from the file.'',
     ''  -p --port      [PORT]      Port to listen on.'']"

definition server_usage :: "string \<Rightarrow> string" where
  "server_usage prog = paragraph_of (usage_line prog '' [OPTION]... [TYPE]...'' # server_help)"

text \<open>The database writer prints the words of the server.\<close>

definition pfsql_help :: "string list" where
  "pfsql_help =
    [''Statistics collector for PFSTRASE (Parallel FileSystem TRacing and Analysis SErvice).'',
     '''',
     ''Mandatory arguments to long options are mandatory for short options too.'',
     ''  -h, --help                 display this help and exit.'',
     ''  -d --daemon                Run in daemon mode.'',
     ''  -i --interval  [INTERVAL]  Interval to update shared memory.'',
     ''  -c --conf_file [FILENAME]  Read configuration from the file.'',
     ''  -p --port      [PORT]      Port to listen on.'']"

definition pfsql_usage :: "string \<Rightarrow> string" where
  "pfsql_usage prog = paragraph_of (usage_line prog '' [OPTION]... [TYPE]...'' # pfsql_help)"

definition client_help :: "string list" where
  "client_help =
    [''Collect statistics.'',
     '''',
     ''Mandatory arguments to long options are mandatory for short options too.'',
     ''  -h, --help                 display this help and exit'',
     ''  -d --daemon                Run in daemon mode'',
     ''  -s --server    [SERVER]    Server to send data.'',
     ''  -f --frequency [FREQUENCY] Frequency to sample.'',
     ''  -c --conf_file [FILENAME]  Read configuration from the file'',
     ''  -l --log_file  [FILENAME]  Write logs to the file'',
     ''  -p --port      [PORT]      Port to connect to on server.'']"

definition client_usage :: "string \<Rightarrow> string" where
  "client_usage prog = paragraph_of (usage_line prog '' [OPTION]... [TYPE]...'' # client_help)"

text \<open>Four literals of the viewer's text have no newline, so they share one line with the one that ends it.\<close>

definition pfstop_help :: "string list" where
  "pfstop_help =
    [''The pfstop program provides a dynamic real-time view of parallel filesystem usage as part of PFSTRASE (Parallel FileSystem TRacing and Analysis SErvice).'',
     '''',
     ''Input Arguments:'',
     ''  -n, --interval     Set refresh interval in seconds (default=3.0)'',
     ''  -u, --user         Filter displayed usage for user ID (uid)'' @
     ''  -c, --client       Filter displayed usage for client (cid)'' @
     ''  -s, --server       Filter displayed usage for FS server'' @
     ''  -j, --job          Filter displayed usage for job ID (jid)'' @
     ''  -h, --help         Print this message'',
     '''',
     ''Display modifiers:'',
     ''  f      Group by filesystem ID (fid)'',
     ''  u      Group by user ID (uid)'',
     ''  j      Group by job ID (jid)'',
     ''  c      Group by pfs client'',
     ''  s      Group by pfs server'',
     '''',
     ''  l      Sort by effective load (load_eff)'',
     ''  i      Sort by IOPS'',
     ''  b      Sort by bytes'',
     '''',
     ''  q      Quit '']"

definition pfstop_usage :: "string \<Rightarrow> string" where
  "pfstop_usage prog = paragraph_of (usage_line prog '' [OPTION...]'' # pfstop_help)"

section \<open>Reading them\<close>

text \<open>An option line: blanks, a dash and a letter, and the long name after it.\<close>

definition option_line :: "string \<Rightarrow> (char \<times> string) option" where
  "option_line l =
    (case dropWhile is_space l of
       d # c # rest \<Rightarrow>
         (let r = dropWhile (\<lambda>x. x \<in> set '', '') rest
          in if d = CHR ''-'' \<and> starts_with ''--'' r
             then Some (c, takeWhile (\<lambda>x. \<not> is_space x) (drop 2 r)) else None)
     | _ \<Rightarrow> None)"

definition key_line :: "string \<Rightarrow> char option" where
  "key_line l =
    (if starts_with ''  '' l
     then (case drop 2 l of c # b # _ \<Rightarrow> if \<not> is_space c \<and> is_space b then Some c else None | _ \<Rightarrow> None)
     else None)"

definition told_options :: "string \<Rightarrow> (char \<times> string) list" where
  "told_options t = List.map_filter option_line (getlines t)"

definition told_keys :: "string \<Rightarrow> string" where
  "told_keys t = List.map_filter key_line (getlines t)"

definition spellings :: "(char \<times> string) list \<Rightarrow> string list" where
  "spellings os = concat (map (\<lambda>(c, n). [''-'' @ [c], ''--'' @ n]) os)"

definition refused :: "(char \<times> bool) list \<Rightarrow> (string \<times> bool \<times> char) list \<Rightarrow> string \<Rightarrow> string list" where
  "refused sh lo t = filter (\<lambda>a. Bad \<in> set (getopt sh lo [a, ''1''])) (spellings (told_options t))"

text \<open>The letters a table accepts that a text does not name.\<close>

definition untold :: "(char \<times> bool) list \<Rightarrow> string \<Rightarrow> string" where
  "untold sh t = filter (\<lambda>c. c \<notin> fst ` set (told_options t)) (map fst sh)"

lemma getlines_paragraph:
  assumes "list_all (\<lambda>l. newline \<notin> set l) ls"
  shows "getlines (paragraph_of ls) = map (\<lambda>l. l @ [newline]) ls"
  using assms by (induction ls) (simp_all add: paragraph_of_def getlines_line)

text \<open>Only the first line depends on the program's name, and it names no option and no key.\<close>

lemma usage_line_tells_nothing:
  "option_line (usage_line prog args @ [newline]) = None" "key_line (usage_line prog args @ [newline]) = None"
  by (simp_all add: option_line_def key_line_def usage_line_def is_space_def starts_with_def)

lemma told_paragraph:
  assumes "newline \<notin> set prog" "newline \<notin> set args" "list_all (\<lambda>l. newline \<notin> set l) ls"
  shows "told_options (paragraph_of (usage_line prog args # ls)) = told_options (paragraph_of ls)"
    "told_keys (paragraph_of (usage_line prog args # ls)) = told_keys (paragraph_of ls)"
proof -
  have "newline \<notin> set (usage_line prog args)" using assms by (simp add: usage_line_def newline_def)
  then have "getlines (paragraph_of (usage_line prog args # ls)) =
      (usage_line prog args @ [newline]) # getlines (paragraph_of ls)"
    using assms(3) by (simp add: getlines_paragraph)
  then show "told_options (paragraph_of (usage_line prog args # ls)) = told_options (paragraph_of ls)"
    "told_keys (paragraph_of (usage_line prog args # ls)) = told_keys (paragraph_of ls)"
    by (simp_all add: told_options_def told_keys_def List.map_filter_simps usage_line_tells_nothing)
qed

section \<open>What the texts tell\<close>

lemmas usage_defs = server_usage_def pfsql_usage_def client_usage_def pfstop_usage_def

text \<open>So what a text tells and what of it is refused can be computed from its fixed lines.\<close>

lemma told_help:
  assumes "newline \<notin> set prog"
  shows "told_options (server_usage prog) = told_options (paragraph_of server_help)"
    "told_options (pfsql_usage prog) = told_options (paragraph_of pfsql_help)"
    "told_options (client_usage prog) = told_options (paragraph_of client_help)"
    "told_options (pfstop_usage prog) = told_options (paragraph_of pfstop_help)"
  unfolding usage_defs by (rule told_paragraph(1)[OF assms]; code_simp)+

text \<open>Which documented spellings the programs reject: the letter of the interval, and the long name of the
  client's frequency, whose table has another word.\<close>

theorem documented_but_refused:
  assumes "newline \<notin> set prog"
  shows "refused short_opts server_long (server_usage prog) = [''-i'']"
    and "refused short_opts pfsql_long (pfsql_usage prog) = [''-i'']"
    and "refused short_opts client_long (client_usage prog) = [''--frequency'']"
    and "refused pfstop_short pfstop_long (pfstop_usage prog) = []"
  unfolding refused_def told_help[OF assms] by code_simp+

text \<open>Which letters they accept and do not document: the daemons share one string of letters, and four
  options of the viewer, its help among them, stand in the middle of the line of \<open>-u\<close>.\<close>

theorem accepted_but_untold:
  assumes "newline \<notin> set prog"
  shows "untold short_opts (server_usage prog) = ''sfl''"
    and "untold short_opts (pfsql_usage prog) = ''sfl''"
    and "untold short_opts (client_usage prog) = ''''"
    and "untold pfstop_short (pfstop_usage prog) = ''hcsj''"
  unfolding untold_def told_help[OF assms] by code_simp+

text \<open>A client started with the long option of its help does not start.\<close>

theorem frequency_option:
  "client_start rnd files (''--frequency'' # x # args) = Exit 1"
proof -
  have "\<exists>os. getopt short_opts client_long (''--frequency'' # x # args) = Bad # os"
    by (simp add: starts_with_def client_long_def long_match_def)
  then show ?thesis by (elim exE) (simp add: client_start_def del: getopt.simps)
qed

section \<open>The keys of the viewer\<close>

lemma pfstop_told_keys:
  assumes "newline \<notin> set prog"
  shows "told_keys (pfstop_usage prog) = ''fujcslibq''"
proof -
  have "told_keys (pfstop_usage prog) = told_keys (paragraph_of pfstop_help)"
    unfolding usage_defs by (rule told_paragraph(2)[OF assms]; code_simp)
  also have "\<dots> = ''fujcslibq''" by code_simp
  finally show ?thesis .
qed

definition letters :: string where
  "letters = ''abcdefghijklmnopqrstuvwxyz''"

definition knows_key :: "int \<Rightarrow> bool" where
  "knows_key k \<longleftrightarrow> (let c = c_tolower k in
     c = key CHR ''q'' \<or> c = key CHR '' '' \<or> c = 10 \<or> set_groupby c \<noteq> None \<or> set_sortbykey c \<noteq> None \<or>
     c = key CHR ''d'' \<or> c \<in> {KEY_DOWN, KEY_HOME, KEY_END, KEY_UP, KEY_NPAGE, KEY_PPAGE})"

lemma set_scroll_None:
  "set_scroll LINES delta c = None \<longleftrightarrow> c \<notin> {KEY_DOWN, KEY_HOME, KEY_END, KEY_UP, KEY_NPAGE, KEY_PPAGE}"
  by (simp add: set_scroll_def map_of_eq_None_iff)

lemma key_status:
  "status_bar (screen_key_cb LINES ev_now k s) =
    (if \<not> knows_key k \<and> 0 \<le> k \<and> k < 128 then unknown_command k else status_bar s)"
  by (simp add: screen_key_cb_def knows_key_def Let_def set_scroll_None screen_refresh_def)

text \<open>The letters the viewer reports as unknown are exactly those its help does not mention, without the
  two that it knows all the same: \<open>n\<close> and \<open>d\<close>.\<close>

theorem unknown_letters:
  assumes "newline \<notin> set prog" "c \<in> set letters"
  shows "status_bar (screen_key_cb LINES ev_now (key c) s) =
    (if c \<in> set (told_keys (pfstop_usage prog)) \<union> {CHR ''n'', CHR ''d''} then status_bar s
     else unknown_command (key c))"
proof -
  have "list_all (\<lambda>c. 0 \<le> key c \<and> key c < 128 \<and> (knows_key (key c) \<longleftrightarrow> c \<in> set (''nd'' @ ''fujcslibq''))) letters"
    by code_simp
  then have "0 \<le> key c \<and> key c < 128 \<and> (knows_key (key c) \<longleftrightarrow> c \<in> set (''nd'' @ ''fujcslibq''))"
    using assms(2) unfolding list_all_iff by blast
  then show ?thesis unfolding key_status pfstop_told_keys[OF assms(1)] by simp
qed

end
