(* ===== verification/Spec2Isabelle.thy ===== *)
theory Spec2Isabelle
  imports Prelude CLib Json HostMap TagStats Rates Aggregate GroupStats Derived Grouping
    Shm Socket CText Config Options Pq Scan Collect Reports Devices Screen Viewer Table
    Daemon Regions Loops Delivery HostTags Publish Intake Upkeep ServerLoop Cluster
    Lifecycle Pfstop Usage
begin

text \<open>
  A verification development of pfstrase, a monitor of Lustre file systems (\<open>src/client\<close> and
  \<open>src/server\<close>, C).

  \<^bold>\<open>The program.\<close>  A client daemon runs on every host of the file system: it finds out what kind of host it
  is on, reads the statistics files of Lustre in fixed intervals, and sends a json report to the server.
  The server daemon keeps the last two reports of every host, and in fixed intervals turns them into rates,
  aggregates these by tags (system, file system, server, job, user) and publishes the result as json text
  in shared memory.  The viewer \<open>pfstop\<close> and the database writer \<open>pfsql\<close> read this text, regroup it,
  and show it as a table or write it as SQL statements.

  \<^bold>\<open>Theories and sources.\<close>
  \<^item> \<open>Prelude\<close>: folds of partial functions, the predicates \<open>ok\<close> (defined, with a result that satisfies ...) and
    \<open>whenever\<close> (if defined, then ...), association lists.  \<open>CLib\<close>, \<open>CText\<close> and \<open>Scan\<close>: the functions of the C
    library the code uses: strings, \<open>snprintf\<close> into a buffer, \<open>strsep\<close>, \<open>getline\<close>, \<open>atoi\<close>, \<open>sscanf\<close>.
  \<^item> \<open>Json\<close>: json-c objects as a store of nodes with references, so that sharing is visible; the tokener and the
    printer of json-c, and the rounding of doubles, are fields of the record \<open>env\<close>.
  \<^item> \<open>HostMap\<close>, \<open>TagStats\<close>, \<open>Rates\<close>, \<open>Aggregate\<close>, \<open>GroupStats\<close>, \<open>Derived\<close> and \<open>Grouping\<close>: \<open>server/stats.c\<close>,
    function by function: \<open>update_host_map\<close>, \<open>tag_stats\<close>, \<open>calc_rates\<close>, \<open>add_stats\<close> with
    \<open>aggregate_stat\<close>, \<open>group_statsbytags\<close>, \<open>derived_events\<close>, \<open>group_ratesbytags\<close>.
  \<^item> \<open>Shm\<close>: \<open>server/shmmap.c\<close> as a step relation of the server and the viewers over the segment and its semaphore.
    \<open>Lifecycle\<close>: the creation, opening and removal of these two objects under their names, through restarts, and the
    last lines of the main functions.
  \<^item> \<open>Socket\<close>: \<open>server/socket_server.c\<close> and the sending half of \<open>client/socket_client.c\<close>.
  \<^item> \<open>Config\<close> and \<open>Options\<close>: \<open>read_conf_file\<close> and the command lines of the three daemons.  \<open>Usage\<close>: the
    help texts of the four programs, compared with the options and keys they accept.
  \<^item> \<open>Pq\<close>: \<open>server/pq.c\<close>, the text of the statements and their batches.
  \<^item> \<open>Collect\<close> and \<open>Devices\<close>: the collectors of \<open>client\<close> (\<open>collect.c\<close>, \<open>cpu.c\<close>, \<open>sysinfo.c\<close>, \<open>exports.c\<close>,
    \<open>target.c\<close>, \<open>llite.c\<close>, \<open>osc.c\<close>) and \<open>lfs_utils.c\<close>; \<open>Reports\<close> holds what the collectors promise.
  \<^item> \<open>Screen\<close>: \<open>server/screen.c\<close>; \<open>Viewer\<close> and \<open>Table\<close> hold its lemmas.  \<open>Pfstop\<close>: its start, the callbacks of
    the keyboard and the signals, and its event loop.
  \<^item> \<open>Daemon\<close>: \<open>daemonize.c\<close>, \<open>pidfile_create.c\<close> and the interrupt handlers.
  \<^item> \<open>Loops\<close>: the main functions and libev callbacks of \<open>pfstrase_server.c\<close>, \<open>pfsql.c\<close>, \<open>pfstrase_client.c\<close>.
  \<^item> \<open>Regions\<close> and \<open>Delivery\<close>: a parsed document in the store, and the way of a report from the client to the
    host map.
  \<^item> \<open>HostTags\<close> and \<open>Publish\<close>: the passes of one tick of the server composed, for one host and for all of them.
  \<^item> \<open>Intake\<close>, \<open>Upkeep\<close> and \<open>ServerLoop\<close>: the invariant of the maps of the whole server, kept by every RPC whose
    document has the type of a report, by the two passes of a tick, and so by every run of the event loop.
  \<^item> \<open>Cluster\<close>: what a client sends, over any network, is such an RPC.

  \<^bold>\<open>State.\<close>  The globals of \<open>stats.c\<close> are the record \<open>stats\<close>, whose field \<open>hp\<close> is the store of json nodes; the
  globals of \<open>screen.c\<close> are the record \<open>screen\<close>; the three daemons are the records \<open>server\<close>, \<open>client\<close> and \<open>pfsql\<close>
  of \<open>Loops\<close>.  A function that changes state takes it and returns it.  Return codes are kept.  \<open>None\<close> is
  undefined behaviour of C (a null pointer that is used, a write outside of a buffer, a call through a
  null pointer); a theorem that a result is \<open>Some\<close> therefore says that the code runs.  Waiting for a
  semaphore is a step that is not enabled.

  \<^bold>\<open>What the lemmas show.\<close>  The host maps keep their invariant under every RPC and an update has exactly the effect
  its fields describe; tagging, rates, aggregation and regrouping are related to functional
  specifications over the entries, with conservation of the sums; composed, they show that a tick publishes for
  every host with a new report the sums of the rates of its own entries, whatever the other hosts report; the shared memory excludes
  processes from each other and a reader receives what was published last; transport does not depend on
  how the network cuts the stream; the reader of statistics files and the writer of
  statements are inverse to the formats they handle; the viewer stays within its window, its columns
  and 32 bits; a report that a client collects is found in the host map of the server.  The event loops are
  followed from their start: the server survives every mixture of ticks, reports and reloads (\<open>ServerLoop\<close>), every
  client is a peer that it survives (\<open>Cluster\<close>), the database writer only ever inserts (\<open>Loops\<close>), the viewer keeps
  printing on its screen (\<open>Pfstop\<close>), and the memory stays protected through every orderly restart
  (\<open>Lifecycle\<close>).  A third group of
  theorems pins down where the code is undefined or does not do what its documentation says.

  \<^bold>\<open>Interfaces.\<close>  Locales state the contracts several operations share: the semaphore of the shared map, the accumulation of statistics, the
  settings of a configuration file, the collectors of the client, and the event loops of the programs (callbacks
  that keep an invariant, and that also return).  Each is interpreted on the
  definitions of the model, and the properties rest on the interpretations.

  \<^bold>\<open>Parameters.\<close>  Not under \<open>src\<close> and therefore arguments: json-c's tokener and printer and the rounding of
  doubles (record \<open>env\<close>), the file system, clock and \<open>sysinfo\<close> of the host (record \<open>machine\<close>), \<open>qsort\<close>,
  \<open>ctime\<close>, the results of system calls, the segments of a connection, and the events libev delivers.

  \<^bold>\<open>Bounds and fuel.\<close>  The buffers have the sizes of the code (100 MB for reports and the shared map, 128000 bytes
  for a statement, 2048 and 512 for the lines of the table).  Printing a stored value unfolds the store to a
  depth that its length bounds, which is enough for every acyclic value.  The loop over the visible rows
  terminates because its row index grows towards the length of the table; the loops of \<open>send\<close> and \<open>recv\<close> are a
  \<open>while_option\<close> that ends because every successful call shortens the rest of the buffer.  64-bit counters are words,
  so their differences wrap as in C.

  \<^bold>\<open>Not modelled.\<close>  Doubles are rationals with a rounding function, without infinities and NaN.  Reference counts of
  json-c are not modelled, so leaks (for instance of the group tags when a filter skips a tuple) are
  invisible.  The modes and colours of the terminal (curses), the set-up calls of libev, the unmapping of memory and the
  closing of files at exit, and the modes of files are left out; so
  are the Python scripts, the site and the deployment files.  The configuration theory describes the
  parser with the database settings, which the server only has in a build with the macro \<open>PSQL\<close>;
  \<open>Loops\<close> distinguishes the builds.
\<close>

end
